(* ===== verification/Kernel_Prelude.thy ===== *)
theory Kernel_Prelude
  imports Main "HOL-Library.Word"
begin

unbundle bit_operations_syntax

text \<open>
  The prelude of the development. It holds what every component shares:
  \<^item> the machine types (\<open>uchar\<close>, \<open>ushort\<close>, \<open>uint\<close> of \<^verbatim>\<open>types.h\<close>) and the constants of \<^verbatim>\<open>param.h\<close>;
  \<^item> the outcome of a kernel routine: it returns, it panics, it goes to sleep on a channel, it
    makes an access that C leaves undefined (a null pointer, an index out of an array), or a
    pointer loop of it does not end; and state passing for routines with such outcomes;
  \<^item> byte strings: little-endian words in blocks, slices and their replacement;
  \<^item> the first-match scan over an array that the tables of the kernel are searched with.
\<close>

section \<open>Machine types and constants\<close>

type_synonym byte = "8 word"
type_synonym u16 = "16 word"
type_synonym u32 = "32 word"

text \<open>The constants of \<^verbatim>\<open>param.h\<close> and \<^verbatim>\<open>mmu.h\<close> that several components use.\<close>

abbreviation (input) "NPROC \<equiv> (64::nat)"
abbreviation (input) "NOFILE \<equiv> (16::nat)"
abbreviation (input) "NFILE \<equiv> (100::nat)"
abbreviation (input) "NINODE \<equiv> (50::nat)"
abbreviation (input) "NDEV \<equiv> (10::nat)"
abbreviation (input) "ROOTDEV \<equiv> (1::u32)"
abbreviation (input) "MAXARG \<equiv> (32::nat)"
abbreviation (input) "MAXOPBLOCKS \<equiv> (10::nat)"
abbreviation (input) "LOGSIZE \<equiv> (30::nat)"
abbreviation (input) "NBUF \<equiv> (30::nat)"
abbreviation (input) "BSIZE \<equiv> (512::nat)"
abbreviation (input) "KERNBASE \<equiv> (0x80000000::u32)"
abbreviation (input) "PHYSTOP \<equiv> (0xE000000::u32)"
abbreviation (input) "PGSIZE \<equiv> (4096::u32)"

section \<open>Locks, wait channels and outcomes\<close>

text \<open>
  The spin locks of the kernel, one constructor for each \<^verbatim>\<open>struct spinlock\<close> variable, and the
  addresses that are used as wait channels by \<open>sleep\<close> and \<open>wakeup\<close>. Pipes live in kernel
  pages, so their lock and channels carry the address of the page.
\<close>

datatype lock =
    LK_ptable | LK_kmem | LK_ide | LK_bcache | LK_log | LK_icache | LK_ftable
  | LK_ticks | LK_cons | LK_input | LK_buffer | LK_transfer | LK_pipe u32

datatype chan =
    CH_buf nat | CH_log | CH_inode nat | CH_proc nat | CH_ticks | CH_input
  | CH_nread u32 | CH_nwrite u32

text \<open>
  \<open>Ok a t\<close>: the routine returns \<open>a\<close> in state \<open>t\<close>. \<open>Panic m\<close>: it calls \<open>panic(m)\<close>.
  \<open>Sleep c t\<close>: it gives up the processor in \<open>sleep(c, lk)\<close>, and \<open>t\<close> is the state in which
  the scheduler takes over. \<open>Fault\<close>: the access is undefined in C. \<open>Diverge\<close>: a pointer
  loop was followed longer than any well-formed list is.
\<close>

datatype ('s, 'a) outcome =
    Ok 'a 's | Panic string | Sleep chan 's | Fault string | Diverge

type_synonym ('s, 'a) kfun = "'s \<Rightarrow> ('s, 'a) outcome"

definition ret :: "'a \<Rightarrow> ('s, 'a) kfun" where
  "ret a = (\<lambda>s. Ok a s)"

definition bnd :: "('s, 'a) kfun \<Rightarrow> ('a \<Rightarrow> ('s, 'b) kfun) \<Rightarrow> ('s, 'b) kfun" where
  "bnd m f = (\<lambda>s. case m s of Ok a t \<Rightarrow> f a t | Panic e \<Rightarrow> Panic e | Sleep c t \<Rightarrow> Sleep c t
     | Fault e \<Rightarrow> Fault e | Diverge \<Rightarrow> Diverge)"

definition thn :: "('s, unit) kfun \<Rightarrow> ('s, 'b) kfun \<Rightarrow> ('s, 'b) kfun" where
  "thn m k = bnd m (\<lambda>_. k)"

definition panic :: "string \<Rightarrow> ('s, 'a) kfun" where
  "panic msg = (\<lambda>s. Panic msg)"

definition fault :: "string \<Rightarrow> ('s, 'a) kfun" where
  "fault msg = (\<lambda>s. Fault msg)"

definition diverge :: "('s, 'a) kfun" where
  "diverge = (\<lambda>s. Diverge)"

definition gets :: "('s \<Rightarrow> 'a) \<Rightarrow> ('s, 'a) kfun" where
  "gets f = (\<lambda>s. Ok (f s) s)"

definition modify :: "('s \<Rightarrow> 's) \<Rightarrow> ('s, unit) kfun" where
  "modify f = (\<lambda>s. Ok () (f s))"

definition whenk :: "bool \<Rightarrow> ('s, unit) kfun \<Rightarrow> ('s, unit) kfun" where
  "whenk b m = (if b then m else ret ())"

text \<open>A counted loop \<open>for(i = 0; i < n; i++) body(i)\<close> is \<open>for_each [0..<n] body\<close>.\<close>

primrec for_each :: "'x list \<Rightarrow> ('x \<Rightarrow> ('s, unit) kfun) \<Rightarrow> ('s, unit) kfun" where
  "for_each [] f = ret ()"
| "for_each (x # xs) f = thn (f x) (for_each xs f)"

named_theorems kfun_simps \<open>running the combinators on a state\<close>

lemma ret_apply [simp, kfun_simps]: "ret a s = Ok a s"
  by (simp add: ret_def)

lemma bnd_apply [simp, kfun_simps]:
  "bnd m f s = (case m s of Ok a t \<Rightarrow> f a t | Panic e \<Rightarrow> Panic e | Sleep c t \<Rightarrow> Sleep c t
     | Fault e \<Rightarrow> Fault e | Diverge \<Rightarrow> Diverge)"
  by (simp add: bnd_def)

lemma thn_apply [simp, kfun_simps]:
  "thn m k s = (case m s of Ok a t \<Rightarrow> k t | Panic e \<Rightarrow> Panic e | Sleep c t \<Rightarrow> Sleep c t
     | Fault e \<Rightarrow> Fault e | Diverge \<Rightarrow> Diverge)"
  by (simp add: thn_def)

lemma panic_apply [simp, kfun_simps]: "panic msg s = Panic msg"
  by (simp add: panic_def)

lemma fault_apply [simp, kfun_simps]: "fault msg s = Fault msg"
  by (simp add: fault_def)

lemma diverge_apply [simp, kfun_simps]: "diverge s = Diverge"
  by (simp add: diverge_def)

lemma gets_apply [simp, kfun_simps]: "gets f s = Ok (f s) s"
  by (simp add: gets_def)

lemma modify_apply [simp, kfun_simps]: "modify f s = Ok () (f s)"
  by (simp add: modify_def)

lemma whenk_apply [simp, kfun_simps]: "whenk b m s = (if b then m s else Ok () s)"
  by (simp add: whenk_def)

lemma bnd_eq_Ok:
  "bnd m f s = Ok b u \<longleftrightarrow> (\<exists>a t. m s = Ok a t \<and> f a t = Ok b u)"
  by (auto split: outcome.splits)

lemma thn_eq_Ok:
  "thn m k s = Ok b u \<longleftrightarrow> (\<exists>t. m s = Ok () t \<and> k t = Ok b u)"
  by (auto split: outcome.splits)

lemma for_each_append:
  "for_each (xs @ ys) f s = (case for_each xs f s of Ok _ t \<Rightarrow> for_each ys f t
     | Panic e \<Rightarrow> Panic e | Sleep c t \<Rightarrow> Sleep c t | Fault e \<Rightarrow> Fault e | Diverge \<Rightarrow> Diverge)"
  by (induction xs arbitrary: s) (auto split: outcome.splits)

subsection \<open>Specifications of routines\<close>

text \<open>
  \<open>returns P m Q\<close>: from every state that satisfies \<open>P\<close> the routine returns, and result and
  final state satisfy \<open>Q\<close>. \<open>keeps I m\<close>: whenever the routine returns or goes to sleep from
  a state with \<open>I\<close>, the state it leaves has \<open>I\<close>.
\<close>

definition returns :: "('s \<Rightarrow> bool) \<Rightarrow> ('s, 'a) kfun \<Rightarrow> ('a \<Rightarrow> 's \<Rightarrow> bool) \<Rightarrow> bool" where
  "returns P m Q \<longleftrightarrow> (\<forall>s. P s \<longrightarrow> (\<exists>a t. m s = Ok a t \<and> Q a t))"

definition keeps :: "('s \<Rightarrow> bool) \<Rightarrow> ('s, 'a) kfun \<Rightarrow> bool" where
  "keeps I m \<longleftrightarrow> (\<forall>s. I s \<longrightarrow>
     (case m s of Ok a t \<Rightarrow> I t | Sleep c t \<Rightarrow> I t | Panic e \<Rightarrow> True | Fault e \<Rightarrow> True
      | Diverge \<Rightarrow> True))"

named_theorems keeps_intros \<open>routines that keep an invariant\<close>

lemma returnsI: "(\<And>s. P s \<Longrightarrow> \<exists>a t. m s = Ok a t \<and> Q a t) \<Longrightarrow> returns P m Q"
  by (simp add: returns_def)

lemma returnsD: "returns P m Q \<Longrightarrow> P s \<Longrightarrow> \<exists>a t. m s = Ok a t \<and> Q a t"
  by (simp add: returns_def)

lemma returns_bnd:
  assumes "returns P m R" and "\<And>a. returns (R a) (f a) Q"
  shows "returns P (bnd m f) Q"
proof (rule returnsI)
  fix s assume "P s"
  with assms(1) obtain a t where m: "m s = Ok a t" and r: "R a t" by (blast dest: returnsD)
  from assms(2) r obtain b u where "f a t = Ok b u \<and> Q b u" by (blast dest: returnsD)
  with m show "\<exists>b u. bnd m f s = Ok b u \<and> Q b u" by auto
qed

lemma keeps_ret [keeps_intros]: "keeps I (ret a)"
  by (simp add: keeps_def)

lemma keeps_panic [keeps_intros]: "keeps I (panic e)"
  by (simp add: keeps_def)

lemma keeps_fault [keeps_intros]: "keeps I (fault e)"
  by (simp add: keeps_def)

lemma keeps_gets [keeps_intros]: "keeps I (gets f)"
  by (simp add: keeps_def)

lemma keeps_bnd [keeps_intros]:
  assumes "keeps I m" and "\<And>a. keeps I (f a)"
  shows "keeps I (bnd m f)"
  unfolding keeps_def
proof (intro allI impI)
  fix s assume "I s"
  then show "case bnd m f s of Ok a t \<Rightarrow> I t | Sleep c t \<Rightarrow> I t | Panic e \<Rightarrow> True
      | Fault e \<Rightarrow> True | Diverge \<Rightarrow> True"
    using assms by (cases "m s") (auto simp: keeps_def dest!: spec [of _ s])
qed

lemma keeps_thn [keeps_intros]: "keeps I m \<Longrightarrow> keeps I k \<Longrightarrow> keeps I (thn m k)"
  by (simp add: thn_def keeps_bnd)

lemma keeps_if [keeps_intros]: "keeps I m \<Longrightarrow> keeps I k \<Longrightarrow> keeps I (if b then m else k)"
  by simp

lemma keeps_whenk [keeps_intros]: "keeps I m \<Longrightarrow> keeps I (whenk b m)"
  by (simp add: whenk_def keeps_ret)

lemma keeps_modify: "(\<And>s. I s \<Longrightarrow> I (f s)) \<Longrightarrow> keeps I (modify f)"
  by (simp add: keeps_def)

lemma keeps_for_each [keeps_intros]:
  "(\<And>x. x \<in> set xs \<Longrightarrow> keeps I (f x)) \<Longrightarrow> keeps I (for_each xs f)"
  by (induction xs) (auto intro: keeps_ret keeps_thn)

lemma keepsD_Ok: "keeps I m \<Longrightarrow> I s \<Longrightarrow> m s = Ok a t \<Longrightarrow> I t"
  unfolding keeps_def by (drule spec [of _ s]) simp

lemma keepsD_Sleep: "keeps I m \<Longrightarrow> I s \<Longrightarrow> m s = Sleep c t \<Longrightarrow> I t"
  unfolding keeps_def by (drule spec [of _ s]) simp

section \<open>Bytes, words and slices\<close>

text \<open>The processor is little-endian: the four bytes of a \<open>uint\<close> and of a \<open>ushort\<close> in memory.\<close>

definition bytes32 :: "u32 \<Rightarrow> byte list" where
  "bytes32 w = [ucast w, ucast (drop_bit 8 w), ucast (drop_bit 16 w), ucast (drop_bit 24 w)]"

definition mk32 :: "byte \<Rightarrow> byte \<Rightarrow> byte \<Rightarrow> byte \<Rightarrow> u32" where
  "mk32 a b c d = ucast a OR push_bit 8 (ucast b) OR push_bit 16 (ucast c) OR push_bit 24 (ucast d)"

definition word32 :: "byte list \<Rightarrow> u32" where
  "word32 bs = mk32 (bs ! 0) (bs ! 1) (bs ! 2) (bs ! 3)"

definition bytes16 :: "u16 \<Rightarrow> byte list" where
  "bytes16 w = [ucast w, ucast (drop_bit 8 w)]"

definition word16 :: "byte list \<Rightarrow> u16" where
  "word16 bs = ucast (bs ! 0) OR push_bit 8 (ucast (bs ! 1))"

lemma mk32_bytes:
  "mk32 (ucast w) (ucast (drop_bit 8 w)) (ucast (drop_bit 16 w)) (ucast (drop_bit 24 w)) = w"
proof (rule bit_word_eqI)
  fix n assume n: "n < LENGTH(32)"
  show "bit (mk32 (ucast w) (ucast (drop_bit 8 w)) (ucast (drop_bit 16 w))
      (ucast (drop_bit 24 w))) n = bit w n"
    using n by (cases "n < 8"; cases "n < 16"; cases "n < 24")
      (simp_all add: mk32_def bit_simps less_diff_conv2 not_less)
qed

lemma bytes_mk32:
  "ucast (mk32 a b c d) = a" "ucast (drop_bit 8 (mk32 a b c d)) = b"
  "ucast (drop_bit 16 (mk32 a b c d)) = c" "ucast (drop_bit 24 (mk32 a b c d)) = d"
  by (rule bit_word_eqI; auto simp: mk32_def bit_simps dest: bit_imp_le_length)+

lemma word32_bytes32 [simp]: "word32 (bytes32 w) = w"
  by (simp add: word32_def bytes32_def mk32_bytes)

lemma bytes32_word32:
  assumes "length bs = 4"
  shows "bytes32 (word32 bs) = bs"
proof -
  from assms obtain a b c d where "bs = [a, b, c, d]"
    by (auto simp: eval_nat_numeral length_Suc_conv)
  then show ?thesis by (simp add: word32_def bytes32_def bytes_mk32)
qed

lemma length_bytes32 [simp]: "length (bytes32 w) = 4"
  by (simp add: bytes32_def)

lemma word16_bytes16 [simp]: "word16 (bytes16 w) = w"
proof (rule bit_word_eqI)
  fix n assume n: "n < LENGTH(16)"
  show "bit (word16 (bytes16 w)) n = bit w n"
    using n by (cases "n < 8")
      (simp_all add: word16_def bytes16_def bit_simps less_diff_conv2 not_less)
qed

lemma length_bytes16 [simp]: "length (bytes16 w) = 2"
  by (simp add: bytes16_def)

text \<open>\<open>n\<close> bytes of a block from offset \<open>off\<close>, and their replacement (\<open>memmove\<close> into a block).\<close>

definition slice :: "nat \<Rightarrow> nat \<Rightarrow> 'a list \<Rightarrow> 'a list" where
  "slice off n xs = take n (drop off xs)"

definition patch :: "nat \<Rightarrow> 'a list \<Rightarrow> 'a list \<Rightarrow> 'a list" where
  "patch off ys xs = take off xs @ ys @ drop (off + length ys) xs"

lemma length_slice [simp]: "off + n \<le> length xs \<Longrightarrow> length (slice off n xs) = n"
  by (simp add: slice_def)

lemma length_patch [simp]: "off + length ys \<le> length xs \<Longrightarrow> length (patch off ys xs) = length xs"
  by (simp add: patch_def)

lemma nth_slice: "off + n \<le> length xs \<Longrightarrow> i < n \<Longrightarrow> slice off n xs ! i = xs ! (off + i)"
  by (simp add: slice_def)

lemma nth_patch:
  "off + length ys \<le> length xs \<Longrightarrow> i < length xs \<Longrightarrow>
   patch off ys xs ! i = (if off \<le> i \<and> i < off + length ys then ys ! (i - off) else xs ! i)"
  by (auto simp: patch_def nth_append)

lemma slice_patch_same [simp]:
  "off + length ys \<le> length xs \<Longrightarrow> n = length ys \<Longrightarrow> slice off n (patch off ys xs) = ys"
  by (simp add: slice_def patch_def)

lemma slice_patch_other:
  assumes "off + length ys \<le> length xs" and "o' + n \<le> length xs"
    and "o' + n \<le> off \<or> off + length ys \<le> o'"
  shows "slice o' n (patch off ys xs) = slice o' n xs"
  using assms by (intro nth_equalityI) (auto simp: nth_slice nth_patch)

lemma patch_patch_same:
  "off + length ys \<le> length xs \<Longrightarrow> length zs = length ys \<Longrightarrow>
   patch off zs (patch off ys xs) = patch off zs xs"
  by (simp add: patch_def)

lemma patch_whole: "length ys = length xs \<Longrightarrow> patch 0 ys xs = ys"
  by (simp add: patch_def)

lemma slice_whole: "slice 0 (length xs) xs = xs"
  by (simp add: slice_def)

text \<open>The words of a block read as \<open>uint*\<close>.\<close>

definition rd32 :: "byte list \<Rightarrow> nat \<Rightarrow> u32" where
  "rd32 bs i = word32 (slice (4 * i) 4 bs)"

definition wr32 :: "byte list \<Rightarrow> nat \<Rightarrow> u32 \<Rightarrow> byte list" where
  "wr32 bs i w = patch (4 * i) (bytes32 w) bs"

lemma length_wr32 [simp]: "4 * i + 4 \<le> length bs \<Longrightarrow> length (wr32 bs i w) = length bs"
  by (simp add: wr32_def)

lemma rd32_wr32_same [simp]: "4 * i + 4 \<le> length bs \<Longrightarrow> rd32 (wr32 bs i w) i = w"
  by (simp add: rd32_def wr32_def)

lemma rd32_wr32_other [simp]:
  "4 * i + 4 \<le> length bs \<Longrightarrow> 4 * j + 4 \<le> length bs \<Longrightarrow> i \<noteq> j \<Longrightarrow> rd32 (wr32 bs i w) j = rd32 bs j"
  unfolding rd32_def wr32_def by (subst slice_patch_other) auto

section \<open>Distances between addresses\<close>

text \<open>\<open>unat (x - a)\<close> is the distance from address \<open>a\<close> up to \<open>x\<close>, modulo the address space.\<close>

lemma unat_offset_Suc: "x \<noteq> a \<Longrightarrow> unat (x - a) = Suc (unat (x - (a + 1)))" for x a :: u32
proof -
  assume "x \<noteq> a"
  then have "unat (x - a - 1) = unat (x - a) - 1" and "unat (x - a) \<noteq> 0"
    by (simp_all add: unat_minus_one unat_eq_0)
  then show ?thesis by (simp add: algebra_simps)
qed

lemma unat_minus_1 [simp]: "unat (- 1 :: u32) = 4294967295"
  by (simp add: unsigned_minus_1_eq_mask mask_eq_exp_minus_1)

lemma unat_u32_less [simp]: "unat (w :: u32) < 4294967296"
  by (rule order_less_le_trans [OF unsigned_less]) simp

lemma unat_offset_max: "unat (a - (a + 1)) = 2 ^ 32 - 1" for a :: u32
  by simp

lemma offset_less_Suc:
  "n < 2 ^ 32 \<Longrightarrow> unat (x - a) < Suc n \<longleftrightarrow> x = a \<or> unat (x - (a + 1)) < n" for x a :: u32
  by (cases "x = a") (simp_all add: unat_offset_Suc)

section \<open>First-match scans\<close>

text \<open>
  \<open>for(p = tab; p < &tab[N]; p++) if(P(p)) goto found;\<close> the index of the first entry that
  satisfies the test.
\<close>

primrec find_idx :: "('a \<Rightarrow> bool) \<Rightarrow> 'a list \<Rightarrow> nat option" where
  "find_idx P [] = None"
| "find_idx P (x # xs) = (if P x then Some 0 else map_option Suc (find_idx P xs))"

lemma find_idx_None: "find_idx P xs = None \<longleftrightarrow> (\<forall>x\<in>set xs. \<not> P x)"
  by (induction xs) auto

lemma find_idx_Some:
  "find_idx P xs = Some i \<longleftrightarrow> i < length xs \<and> P (xs ! i) \<and> (\<forall>j<i. \<not> P (xs ! j))"
proof (induction xs arbitrary: i)
  case Nil
  then show ?case by simp
next
  case (Cons x xs)
  show ?case
    by (cases i) (auto simp: Cons.IH less_Suc_eq_0_disj nth_Cons')
qed

lemma find_idx_SomeD:
  assumes "find_idx P xs = Some i"
  shows "i < length xs" and "P (xs ! i)" and "\<And>j. j < i \<Longrightarrow> \<not> P (xs ! j)"
  using assms by (auto simp: find_idx_Some)

lemma find_idx_ex: "x \<in> set xs \<Longrightarrow> P x \<Longrightarrow> \<exists>i. find_idx P xs = Some i"
  by (metis find_idx_None option.exhaust)

text \<open>
  The tables of the kernel (open files, processes, descriptors, inode cache entries) hand out
  their first free slot. Whatever the slots are, taking one changes that slot only and the
  number of free slots drops by one. The locale is the contract of such a table; \<open>is_free\<close>
  is the test of the scan and \<open>occupy\<close> what the code stores into the slot.
\<close>

locale slot_table =
  fixes is_free :: "'a \<Rightarrow> bool"
    and occupy :: "'a \<Rightarrow> 'a"
  assumes occupied: "is_free x \<Longrightarrow> \<not> is_free (occupy x)"
begin

definition free_slots :: "'a list \<Rightarrow> nat set" where
  "free_slots xs = {i. i < length xs \<and> is_free (xs ! i)}"

lemma free_slots_take:
  assumes "find_idx is_free xs = Some i"
  shows "free_slots (xs[i := occupy (xs ! i)]) = free_slots xs - {i}"
  using assms occupied by (auto simp: free_slots_def find_idx_Some nth_list_update)

lemma card_free_slots_take:
  assumes "find_idx is_free xs = Some i"
  shows "Suc (card (free_slots (xs[i := occupy (xs ! i)]))) = card (free_slots xs)"
proof -
  have "i \<in> free_slots xs" using assms by (auto simp: free_slots_def find_idx_Some)
  moreover have "finite (free_slots xs)" by (simp add: free_slots_def)
  ultimately show ?thesis by (simp only: free_slots_take [OF assms] card_Suc_Diff1)
qed

lemma scan_fails_iff: "find_idx is_free xs = None \<longleftrightarrow> free_slots xs = {}"
  by (auto simp: find_idx_None free_slots_def all_set_conv_all_nth)

end

end
