(* ===== verification/C_String.thy ===== *)
theory C_String
  imports Kernel_Prelude
begin

text \<open>
  Byte-addressed memory and the routines of \<^verbatim>\<open>string.c\<close> over it, with the string
  store instructions of \<^verbatim>\<open>x86.h\<close> they use. Routines that only read take their strings as
  functions from the offset to the byte (\<open>at m p\<close> is the string at address \<open>p\<close>, \<open>cs xs\<close>
  the one held in an array \<open>xs\<close>), so that the same definitions serve memory, directory
  entries and names. Routines that write take and return the memory.
\<close>

section \<open>Memory\<close>

type_synonym mem = "u32 \<Rightarrow> byte"
type_synonym cptr = "nat \<Rightarrow> byte"

definition at :: "mem \<Rightarrow> u32 \<Rightarrow> cptr" where
  "at m p = (\<lambda>i. m (p + of_nat i))"

definition cs :: "byte list \<Rightarrow> cptr" where
  "cs xs = (\<lambda>i. if i < length xs then xs ! i else 0)"

definition ld32 :: "mem \<Rightarrow> u32 \<Rightarrow> u32" where
  "ld32 m a = mk32 (m a) (m (a + 1)) (m (a + 2)) (m (a + 3))"

definition st32 :: "mem \<Rightarrow> u32 \<Rightarrow> u32 \<Rightarrow> mem" where
  "st32 m a w = m(a := ucast w, a + 1 := ucast (drop_bit 8 w),
     a + 2 := ucast (drop_bit 16 w), a + 3 := ucast (drop_bit 24 w))"

section \<open>Store string: \<^verbatim>\<open>stosb\<close> and \<^verbatim>\<open>stosl\<close>\<close>

primrec stosb :: "mem \<Rightarrow> u32 \<Rightarrow> byte \<Rightarrow> nat \<Rightarrow> mem" where
  "stosb m a b 0 = m"
| "stosb m a b (Suc n) = stosb (m(a := b)) (a + 1) b n"

primrec stosl :: "mem \<Rightarrow> u32 \<Rightarrow> u32 \<Rightarrow> nat \<Rightarrow> mem" where
  "stosl m a w 0 = m"
| "stosl m a w (Suc n) = stosl (st32 m a w) (a + 4) w n"

section \<open>\<^verbatim>\<open>string.c\<close>\<close>

definition memset :: "mem \<Rightarrow> u32 \<Rightarrow> u32 \<Rightarrow> u32 \<Rightarrow> mem" where
  "memset m dst c n =
     (if dst mod 4 = 0 \<and> n mod 4 = 0
      then let c = c AND 0xFF
           in stosl m dst (push_bit 24 c OR push_bit 16 c OR push_bit 8 c OR c) (unat (n div 4))
      else stosb m dst (ucast c) (unat n))"

text \<open>\<open>int\<close> results: the difference of the first two bytes that differ, as unsigned chars.\<close>

primrec memcmp :: "cptr \<Rightarrow> cptr \<Rightarrow> nat \<Rightarrow> int" where
  "memcmp s1 s2 0 = 0"
| "memcmp s1 s2 (Suc n) =
     (if s1 0 \<noteq> s2 0 then uint (s1 0) - uint (s2 0)
      else memcmp (\<lambda>i. s1 (Suc i)) (\<lambda>i. s2 (Suc i)) n)"

text \<open>The two copy loops of \<open>memmove\<close>: upwards from the first byte, downwards from the last.\<close>

primrec copy_up :: "mem \<Rightarrow> u32 \<Rightarrow> u32 \<Rightarrow> nat \<Rightarrow> mem" where
  "copy_up m d s 0 = m"
| "copy_up m d s (Suc n) = copy_up (m(d := m s)) (d + 1) (s + 1) n"

primrec copy_down :: "mem \<Rightarrow> u32 \<Rightarrow> u32 \<Rightarrow> nat \<Rightarrow> mem" where
  "copy_down m d s 0 = m"
| "copy_down m d s (Suc n) = copy_down (m(d - 1 := m (s - 1))) (d - 1) (s - 1) n"

definition memmove :: "mem \<Rightarrow> u32 \<Rightarrow> u32 \<Rightarrow> u32 \<Rightarrow> mem" where
  "memmove m dst src n =
     (if src < dst \<and> src + n > dst
      then copy_down m (dst + n) (src + n) (unat n)
      else copy_up m dst src (unat n))"

definition memcpy :: "mem \<Rightarrow> u32 \<Rightarrow> u32 \<Rightarrow> u32 \<Rightarrow> mem" where
  "memcpy m dst src n = memmove m dst src n"

primrec strncmp :: "cptr \<Rightarrow> cptr \<Rightarrow> nat \<Rightarrow> int" where
  "strncmp p q 0 = 0"
| "strncmp p q (Suc n) =
     (if p 0 \<noteq> 0 \<and> p 0 = q 0 then strncmp (\<lambda>i. p (Suc i)) (\<lambda>i. q (Suc i)) n
      else uint (p 0) - uint (q 0))"

text \<open>
  \<open>strncpy\<close> copies at most \<open>n\<close> bytes, stops after a NUL and fills the rest with NULs; the
  second loop is \<open>stosb\<close> of zeros. \<open>safestrcpy\<close> copies at most \<open>n - 1\<close> bytes and always
  stores a NUL after them (on top of the NUL that ended the copy loop, one byte later).
\<close>

primrec strncpy_nat :: "mem \<Rightarrow> u32 \<Rightarrow> u32 \<Rightarrow> nat \<Rightarrow> mem" where
  "strncpy_nat m s t 0 = m"
| "strncpy_nat m s t (Suc n) =
     (if m t \<noteq> 0 then strncpy_nat (m(s := m t)) (s + 1) (t + 1) n
      else stosb (m(s := m t)) (s + 1) 0 n)"

definition strncpy :: "mem \<Rightarrow> u32 \<Rightarrow> u32 \<Rightarrow> int \<Rightarrow> mem" where
  "strncpy m s t n = strncpy_nat m s t (nat n)"

primrec safestrcpy_nat :: "mem \<Rightarrow> u32 \<Rightarrow> u32 \<Rightarrow> nat \<Rightarrow> mem" where
  "safestrcpy_nat m s t 0 = m(s := 0)"
| "safestrcpy_nat m s t (Suc n) =
     (if m t \<noteq> 0 then safestrcpy_nat (m(s := m t)) (s + 1) (t + 1) n
      else m(s := m t, s + 1 := 0))"

definition safestrcpy :: "mem \<Rightarrow> u32 \<Rightarrow> u32 \<Rightarrow> int \<Rightarrow> mem" where
  "safestrcpy m s t n = (if n \<le> 0 then m else safestrcpy_nat m s t (nat (n - 1)))"

text \<open>\<open>strlen\<close> runs to the first NUL; without one it does not return.\<close>

partial_function (option) strlen_from :: "cptr \<Rightarrow> nat \<Rightarrow> nat option" where
  "strlen_from s n = (if s n = 0 then Some n else strlen_from s (Suc n))"

definition strlen :: "cptr \<Rightarrow> nat option" where
  "strlen s = strlen_from s 0"

section \<open>Filling and copying\<close>

text \<open>
  The word-wise fill of \<open>memset\<close> writes what the byte-wise one does, and both copy directions of
  \<open>memmove\<close> read every source byte before it is overwritten.
\<close>

lemma stosb_eq:
  "n \<le> 2 ^ 32 \<Longrightarrow> stosb m a b n = (\<lambda>x. if unat (x - a) < n then b else m x)"
proof (induction n arbitrary: m a)
  case (Suc n)
  then show ?case by (auto simp: offset_less_Suc fun_eq_iff unat_offset_max)
qed simp

lemma stosb_add: "stosb m a b (i + j) = stosb (stosb m a b i) (a + of_nat i) b j"
  by (induction i arbitrary: m a) (simp_all add: algebra_simps)

lemma st32_stosb: "bytes32 w = [c, c, c, c] \<Longrightarrow> st32 m a w = stosb m a c 4"
  by (simp add: st32_def bytes32_def eval_nat_numeral algebra_simps)

lemma stosl_stosb: "bytes32 w = [c, c, c, c] \<Longrightarrow> stosl m a w n = stosb m a c (4 * n)"
proof (induction n arbitrary: m a)
  case (Suc n)
  have "stosb m a c (4 * Suc n) = stosb (stosb m a c 4) (a + of_nat 4) c (4 * n)"
    by (simp only: mult_Suc_right stosb_add)
  with Suc show ?case by (simp add: st32_stosb)
qed simp

lemma bytes32_fill:
  "bytes32 (push_bit 24 (c AND 0xFF) OR push_bit 16 (c AND 0xFF) OR push_bit 8 (c AND 0xFF) OR
     (c AND 0xFF)) = [ucast c, ucast c, ucast c, ucast c]" for c :: u32
proof -
  have m: "0xFF = (mask 8 :: u32)" by (simp add: mask_eq_exp_minus_1)
  show ?thesis unfolding bytes32_def list.inject m
    by (intro conjI; (rule bit_word_eqI)?) (auto simp: bit_simps)
qed

lemma memset_eq:
  "memset m dst c n = (\<lambda>x. if unat (x - dst) < unat n then ucast c else m x)"
proof -
  have n: "unat n \<le> 2 ^ 32" by (simp add: less_imp_le)
  have "4 * unat (n div 4) = unat n" if "n mod 4 = 0"
    using that by (simp add: unat_div unat_mod word_unat_eq_iff) presburger
  then show ?thesis
    by (cases "dst mod 4 = 0 \<and> n mod 4 = 0")
      (simp_all only: memset_def Let_def stosl_stosb [OF bytes32_fill] stosb_eq [OF n] if_True if_False simp_thms)
qed

lemma copy_up_eq:
  "n \<le> 2 ^ 32 \<Longrightarrow> d = s \<or> n \<le> unat (d - s) \<Longrightarrow>
   copy_up m d s n = (\<lambda>x. if unat (x - d) < n then m (s + (x - d)) else m x)"
proof (induction n arbitrary: m d s)
  case (Suc n)
  have nc: "s + (x - d) \<noteq> d" if "unat (x - (d + 1)) < n" for x
  proof
    assume "s + (x - d) = d"
    then have e: "x - d = d - s" by (simp add: algebra_simps)
    have "x \<noteq> d" using that Suc.prems(1) by (auto simp: unat_offset_max)
    with that have "unat (x - d) < Suc n" "unat (x - d) \<noteq> 0"
      by (simp_all add: unat_offset_Suc)
    with e Suc.prems(2) show False by auto
  qed
  have "copy_up (m(d := m s)) (d + 1) (s + 1) n =
      (\<lambda>x. if unat (x - (d + 1)) < n then (m(d := m s)) (s + 1 + (x - (d + 1))) else (m(d := m s)) x)"
    using Suc.prems by (intro Suc.IH) auto
  then show ?case
    using Suc.prems(1) by (auto simp: fun_eq_iff offset_less_Suc nc unat_offset_max)
qed simp

lemma copy_down_eq:
  "n < 2 ^ 32 \<Longrightarrow> d = s \<or> n \<le> unat (s - d) \<Longrightarrow>
   copy_down m (d + of_nat n) (s + of_nat n) n =
     (\<lambda>x. if unat (x - d) < n then m (s + (x - d)) else m x)"
proof (induction n arbitrary: m)
  case (Suc n)
  let ?m = "m(d + of_nat n := m (s + of_nat n))"
  have un: "unat (of_nat n :: u32) = n"
    using Suc.prems(1) by (simp add: unat_of_nat)
  have last: "unat (x - d) < Suc n \<longleftrightarrow> unat (x - d) < n \<or> x = d + of_nat n" for x
  proof -
    have "x = d + of_nat n \<longleftrightarrow> x - d = of_nat n" by (auto simp: algebra_simps)
    then show ?thesis by (auto simp: word_unat_eq_iff un)
  qed
  have nc: "s + (x - d) \<noteq> d + of_nat n" if "unat (x - d) < n" for x
  proof
    assume e: "s + (x - d) = d + of_nat n"
    have "unat (of_nat n - (x - d)) = n - unat (x - d)"
      using that un by (subst unat_sub) (simp_all only: word_le_nat_alt un less_imp_le)
    also have "of_nat n - (x - d) = s - d" using e by (simp add: algebra_simps)
    finally have "unat (s - d) = n - unat (x - d)" .
    with Suc.prems(2) that show False by auto
  qed
  have "copy_down m (d + of_nat (Suc n)) (s + of_nat (Suc n)) (Suc n) =
      copy_down ?m (d + of_nat n) (s + of_nat n) n"
    by simp
  also have "\<dots> = (\<lambda>x. if unat (x - d) < n then ?m (s + (x - d)) else ?m x)"
    using Suc.prems by (intro Suc.IH) auto
  finally show ?case
    using un by (auto simp: fun_eq_iff last nc)
qed simp

lemma memmove_eq:
  assumes src: "unat src + unat n < 2 ^ 32" and dst: "unat dst + unat n \<le> 2 ^ 32"
  shows "memmove m dst src n = (\<lambda>x. if unat (x - dst) < unat n then m (src + (x - dst)) else m x)"
proof (cases "src < dst \<and> src + n > dst")
  case True
  then have "unat n \<le> unat (src - dst)"
    using dst by (simp add: unat_sub_if' word_less_nat_alt; linarith)
  then show ?thesis
    using True copy_down_eq [of "unat n" dst src m] by (simp add: memmove_def)
next
  case False
  have "unat (src + n) = unat src + unat n" using src by (simp add: unat_word_ariths)
  with False have "dst = src \<or> unat n \<le> unat (dst - src)"
    using src by (auto simp: unat_sub_if' word_less_nat_alt word_unat_eq_iff)
  then have "copy_up m dst src (unat n) =
      (\<lambda>x. if unat (x - dst) < unat n then m (src + (x - dst)) else m x)"
    by (intro copy_up_eq) (simp_all add: less_imp_le)
  with False show ?thesis by (auto simp: memmove_def)
qed

section \<open>Strings\<close>

text \<open>\<open>cstr p xs\<close>: the bytes \<open>xs\<close> and a NUL after them stand at \<open>p\<close>. \<open>trunc p n\<close> is the
  string at \<open>p\<close> cut off after \<open>n\<close> bytes.\<close>

definition cstr :: "cptr \<Rightarrow> byte list \<Rightarrow> bool" where
  "cstr p xs \<longleftrightarrow> 0 \<notin> set xs \<and> (\<forall>i<length xs. p i = xs ! i) \<and> p (length xs) = 0"

primrec trunc :: "cptr \<Rightarrow> nat \<Rightarrow> byte list" where
  "trunc p 0 = []"
| "trunc p (Suc n) = (if p 0 = 0 then [] else p 0 # trunc (\<lambda>i. p (Suc i)) n)"

lemma cstr_Nil [simp]: "cstr p [] \<longleftrightarrow> p 0 = 0"
  by (simp add: cstr_def)

lemma cstr_Cons [simp]: "cstr p (x # xs) \<longleftrightarrow> x \<noteq> 0 \<and> p 0 = x \<and> cstr (\<lambda>i. p (Suc i)) xs"
  by (auto simp: cstr_def All_less_Suc2)

lemma length_trunc: "length (trunc p n) \<le> n"
  by (induction n arbitrary: p) auto

lemma trunc_nonzero: "0 \<notin> set (trunc p n)"
  by (induction n arbitrary: p) auto

lemma nth_trunc: "i < length (trunc p n) \<Longrightarrow> trunc p n ! i = p i"
  by (induction n arbitrary: p i) (auto simp: nth_Cons' split: if_splits)

lemma trunc_stop: "length (trunc p n) < n \<Longrightarrow> p (length (trunc p n)) = 0"
  by (induction n arbitrary: p) (auto split: if_splits)

lemma trunc_cstr: "cstr p xs \<Longrightarrow> trunc p n = take n xs"
  by (induction n arbitrary: p xs; case_tac xs) auto

lemma strlen_from_cstr:
  "cstr (\<lambda>i. p (n + i)) xs \<Longrightarrow> strlen_from p n = Some (n + length xs)"
proof (induction xs arbitrary: n)
  case Nil
  then show ?case by (simp add: strlen_from.simps)
next
  case (Cons x xs)
  then have "strlen_from p (Suc n) = Some (Suc n + length xs)" by (intro Cons.IH) simp
  with Cons.prems show ?case by (simp add: strlen_from.simps [of p n])
qed

lemma strlen_cstr: "cstr p xs \<Longrightarrow> strlen p = Some (length xs)"
  using strlen_from_cstr [of p 0 xs] by (simp add: strlen_def)

lemma strncmp_eq_0: "strncmp p q n = 0 \<longleftrightarrow> trunc p n = trunc q n"
  by (induction n arbitrary: p q) (auto simp: uint_0_iff simp flip: word_uint_eq_iff)

lemma memcmp_eq_0: "memcmp p q n = 0 \<longleftrightarrow> (\<forall>i<n. p i = q i)"
  by (induction n arbitrary: p q) (auto simp: All_less_Suc2 simp flip: word_uint_eq_iff)


text \<open>\<open>apart s t n\<close>: the \<open>n\<close> bytes at \<open>s\<close> and the \<open>n\<close> bytes at \<open>t\<close> do not overlap.\<close>

definition apart :: "u32 \<Rightarrow> u32 \<Rightarrow> nat \<Rightarrow> bool" where
  "apart s t n \<longleftrightarrow> (\<forall>i<n. \<forall>j<n. s + of_nat i \<noteq> t + of_nat j)"

lemma at_0 [simp]: "at m p 0 = m p"
  by (simp add: at_def)

lemma at_shift: "(\<lambda>i. at m p (Suc i)) = at m (p + 1)"
  by (simp add: at_def fun_eq_iff algebra_simps)

lemma apart_Suc: "apart s t (Suc n) \<Longrightarrow> apart (s + 1) (t + 1) n"
  unfolding apart_def
proof (intro allI impI)
  fix i j
  assume a: "\<forall>i<Suc n. \<forall>j<Suc n. s + of_nat i \<noteq> t + of_nat j" and "i < n" and "j < n"
  then have "s + of_nat (Suc i) \<noteq> t + of_nat (Suc j)" by blast
  then show "s + 1 + of_nat i \<noteq> t + 1 + of_nat j" by (simp add: algebra_simps)
qed

lemma apart_first: "apart s t (Suc n) \<Longrightarrow> j \<le> n \<Longrightarrow> t + of_nat j \<noteq> s"
proof -
  assume a: "apart s t (Suc n)" and "j \<le> n"
  then have "s + of_nat 0 \<noteq> t + of_nat j" unfolding apart_def by (blast intro: le_imp_less_Suc)
  then show ?thesis by simp
qed

lemma trunc_cong: "(\<And>i. i < n \<Longrightarrow> p i = q i) \<Longrightarrow> trunc p n = trunc q n"
proof (induction n arbitrary: p q)
  case (Suc n)
  have "trunc (\<lambda>i. p (Suc i)) n = trunc (\<lambda>i. q (Suc i)) n"
    using Suc.prems by (intro Suc.IH) auto
  with Suc.prems [of 0] show ?case by simp
qed simp

lemma trunc_at_upd:
  assumes "apart s t (Suc n)"
  shows "trunc (at (m(s := b)) (t + 1)) n = trunc (at m (t + 1)) n"
proof (rule trunc_cong)
  fix i assume "i < n"
  then have "t + of_nat (Suc i) \<noteq> s" using apart_first [OF assms, of "Suc i"] by simp
  then show "at (m(s := b)) (t + 1) i = at m (t + 1) i"
    by (simp add: at_def algebra_simps)
qed

lemma safestrcpy_nat_spec:
  "apart s t (Suc n) \<Longrightarrow> Suc n < 2 ^ 32 \<Longrightarrow>
   cstr (at (safestrcpy_nat m s t n) s) (trunc (at m t) n) \<and>
   (\<forall>x. n < unat (x - s) \<longrightarrow> safestrcpy_nat m s t n x = m x)"
proof (induction n arbitrary: m s t)
  case (Suc n)
  show ?case
  proof (cases "m t = 0")
    case True
    have "s + 1 \<noteq> s" by simp
    with True show ?thesis by (auto simp: at_def)
  next
    case False
    let ?m = "m(s := m t)"
    let ?r = "safestrcpy_nat ?m (s + 1) (t + 1) n"
    have IH: "cstr (at ?r (s + 1)) (trunc (at ?m (t + 1)) n) \<and>
        (\<forall>x. n < unat (x - (s + 1)) \<longrightarrow> ?r x = ?m x)"
      using Suc.prems by (intro Suc.IH apart_Suc) auto
    then have s: "?r s = m t" using Suc.prems(2) by (simp add: unat_offset_max)
    have o: "?r x = m x" if "Suc n < unat (x - s)" for x
    proof -
      have "x \<noteq> s" using that by auto
      moreover from this that have "n < unat (x - (s + 1))" by (simp add: unat_offset_Suc)
      ultimately show ?thesis using IH by simp
    qed
    have "trunc (at ?m (t + 1)) n = trunc (at m (t + 1)) n"
      using Suc.prems by (intro trunc_at_upd) (auto simp: apart_def)
    with IH s o False show ?thesis by (simp add: at_shift)
  qed
qed simp

lemma safestrcpy_spec:
  assumes "0 < n" and "n < 2 ^ 32" and "apart s t (nat n)"
  shows "cstr (at (safestrcpy m s t n) s) (trunc (at m t) (nat n - 1))"
    and "nat n \<le> unat (x - s) \<Longrightarrow> safestrcpy m s t n x = m x"
proof -
  obtain k where k: "nat n = Suc k" using assms(1) by (cases "nat n") auto
  then have n: "nat (n - 1) = k" by simp
  have "cstr (at (safestrcpy_nat m s t k) s) (trunc (at m t) k) \<and>
      (\<forall>x. k < unat (x - s) \<longrightarrow> safestrcpy_nat m s t k x = m x)"
    using assms k by (intro safestrcpy_nat_spec) (auto simp: nat_eq_iff)
  then show "cstr (at (safestrcpy m s t n) s) (trunc (at m t) (nat n - 1))"
    and "nat n \<le> unat (x - s) \<Longrightarrow> safestrcpy m s t n x = m x"
    using assms(1) k n by (simp_all add: safestrcpy_def)
qed

lemma strncpy_nat_eq:
  "apart s t n \<Longrightarrow> n < 2 ^ 32 \<Longrightarrow>
   strncpy_nat m s t n = (\<lambda>x. if unat (x - s) < n
     then (if unat (x - s) < length (trunc (at m t) n) then m (t + (x - s)) else 0) else m x)"
proof (induction n arbitrary: m s t)
  case (Suc n)
  show ?case
  proof (cases "m t = 0")
    case True
    then show ?thesis
      using Suc.prems by (auto simp: fun_eq_iff stosb_eq offset_less_Suc unat_offset_max)
  next
    case False
    let ?m = "m(s := m t)"
    have tr: "trunc (at ?m (t + 1)) n = trunc (at m (t + 1)) n"
      using Suc.prems by (intro trunc_at_upd) simp
    have nc: "t + (x - s) \<noteq> s" if "unat (x - s) < Suc n" for x
      using apart_first [OF Suc.prems(1), of "unat (x - s)"] that by simp
    have e: "t + 1 + (x - (s + 1)) = t + (x - s)" for x by simp
    have IH: "strncpy_nat ?m (s + 1) (t + 1) n = (\<lambda>x. if unat (x - (s + 1)) < n
     then (if unat (x - (s + 1)) < length (trunc (at ?m (t + 1)) n) then ?m (t + 1 + (x - (s + 1))) else 0)
     else ?m x)"
      using Suc.prems by (intro Suc.IH apart_Suc) auto
    show ?thesis
    proof
      fix x
      show "strncpy_nat m s t (Suc n) x = (if unat (x - s) < Suc n
        then (if unat (x - s) < length (trunc (at m t) (Suc n)) then m (t + (x - s)) else 0) else m x)"
      proof (cases "x = s")
        case True
        with False IH Suc.prems(2) show ?thesis by (simp add: unat_offset_max)
      next
        case neq: False
        with False IH nc [of x] show ?thesis
          by (simp add: at_shift tr unat_offset_Suc e)
      qed
    qed
  qed
qed simp

section \<open>Words in memory\<close>

text \<open>Aligned words do not overlap, nor do the blocks of an aligned partition of memory.\<close>

lemma unat_add_aligned:
  assumes "N dvd 2 ^ 32" and "N dvd unat p" and "i < N"
  shows "unat (p + of_nat i :: u32) = unat p + i"
proof -
  from assms(1) obtain k where k: "2 ^ 32 = N * k" unfolding dvd_def by blast
  from assms(2) obtain j where j: "unat p = N * j" unfolding dvd_def by blast
  have "N * j < N * k" using j k unat_u32_less [of p] by simp
  then have "j < k" by simp
  then have "N * Suc j \<le> N * k" by (intro mult_le_mono2) simp
  then have "unat p + i < 2 ^ 32" using j k assms(3) by simp
  moreover have "unat (of_nat i :: u32) = i"
    using calculation by (simp add: unat_of_nat)
  ultimately show ?thesis by (simp add: unat_word_ariths)
qed

lemma aligned_block_inject:
  assumes N: "N dvd 2 ^ 32" and p: "N dvd unat p" and q: "N dvd unat q"
    and ij: "i < N" "j < N" and eq: "p + of_nat i = (q + of_nat j :: u32)"
  shows "p = q \<and> i = j"
proof -
  have e: "unat p + i = unat q + j"
    using unat_add_aligned [OF N p ij(1)] unat_add_aligned [OF N q ij(2)] eq by simp
  have "(unat p + i) div N = unat p div N" and "(unat q + j) div N = unat q div N"
    using p q ij by (auto elim!: dvdE)
  with e have "unat p div N = unat q div N" by simp
  with p q have "unat p = unat q" by (metis dvd_div_mult_self)
  with e show ?thesis by (simp add: word_unat_eq_iff)
qed

lemma ld32_st32_same [simp]: "ld32 (st32 m a w) a = w"
  by (simp add: ld32_def st32_def mk32_bytes)

lemma st32_outside: "4 \<le> unat (x - a) \<Longrightarrow> st32 m a w x = m x"
  by (auto simp: st32_def)

lemma ld32_st32_other:
  assumes "4 dvd unat a" and "4 dvd unat b" and "a \<noteq> b"
  shows "ld32 (st32 m a w) b = ld32 m b"
proof -
  have "4 \<le> unat (b + of_nat j - a)" if "j < 4" for j
  proof (rule ccontr)
    assume "\<not> 4 \<le> unat (b + of_nat j - a)"
    moreover have "a + of_nat (unat (b + of_nat j - a)) = b + of_nat j" by simp
    ultimately show False
      using aligned_block_inject [of 4 a b "unat (b + of_nat j - a)" j] assms that by auto
  qed
  from this [of 0] this [of 1] this [of 2] this [of 3] show ?thesis
    by (simp add: ld32_def st32_outside)
qed

end
