(* ===== verification/Spinlock.thy ===== *)
theory Spinlock
  imports C_String
begin

text \<open>
  The spin locks of \<^verbatim>\<open>spinlock.c\<close> on a machine with several processors. Every routine is a
  definition over the lock and processor it works on; \<open>lock_step\<close> then interleaves the
  processors at the granularity of the shared accesses: the \<open>xchg\<close> of \<open>acquire\<close>, the store
  of the owner after it, the clearing of the owner and the \<open>xchg\<close> of \<open>release\<close>. The lemmas
  show that a lock has at most one owner at any time and that \<open>holding\<close> answers for the
  asking processor only.
\<close>

section \<open>Locks and processors\<close>

record spinlock =
  lk_locked :: u32
  lk_name :: string
  lk_cpu :: "nat option"
  lk_pcs :: "u32 list"

text \<open>The fields of \<^verbatim>\<open>struct cpu\<close> that \<open>pushcli\<close> and \<open>popcli\<close> use, with the interrupt flag of
  the \<open>eflags\<close> register (\<open>FL_IF\<close>).\<close>

record cpu =
  ncli :: int
  intena :: bool
  if_flag :: bool

definition initlock :: "spinlock \<Rightarrow> string \<Rightarrow> spinlock" where
  "initlock lk name = lk\<lparr>lk_name := name, lk_locked := 0, lk_cpu := None\<rparr>"

definition holding :: "nat \<Rightarrow> spinlock \<Rightarrow> bool" where
  "holding me lk \<longleftrightarrow> lk_locked lk \<noteq> 0 \<and> lk_cpu lk = Some me"

definition pushcli :: "cpu \<Rightarrow> cpu" where
  "pushcli c =
     (let eflags = if_flag c;
          c1 = c\<lparr>if_flag := False\<rparr>;
          c2 = (if ncli c1 = 0 then c1\<lparr>intena := eflags\<rparr> else c1)
      in c2\<lparr>ncli := ncli c2 + 1\<rparr>)"

definition popcli :: "cpu \<Rightarrow> string + cpu" where
  "popcli c =
     (if if_flag c then Inl ''popcli - interruptible''
      else let c1 = c\<lparr>ncli := ncli c - 1\<rparr>
           in if ncli c1 < 0 then Inl ''popcli''
              else if ncli c1 = 0 \<and> intena c1 then Inr (c1\<lparr>if_flag := True\<rparr>)
              else Inr c1)"

text \<open>The atomic exchange of \<^verbatim>\<open>x86.h\<close>: the old value and the lock with the new one.\<close>

definition xchg :: "spinlock \<Rightarrow> u32 \<Rightarrow> u32 \<times> spinlock" where
  "xchg lk v = (lk_locked lk, lk\<lparr>lk_locked := v\<rparr>)"

text \<open>Following the chain of saved frame pointers, at most ten frames.\<close>

primrec walk_frames :: "mem \<Rightarrow> nat \<Rightarrow> u32 \<Rightarrow> u32 list" where
  "walk_frames m 0 ebp = []"
| "walk_frames m (Suc n) ebp =
     (if ebp = 0 \<or> ebp < KERNBASE \<or> ebp = 0xffffffff then []
      else ld32 m (ebp + 4) # walk_frames m n (ld32 m ebp))"

definition getcallerpcs :: "mem \<Rightarrow> u32 \<Rightarrow> u32 list" where
  "getcallerpcs m v = (let pcs = walk_frames m 10 (v - 8) in pcs @ replicate (10 - length pcs) 0)"

lemma length_walk_frames: "length (walk_frames m n ebp) \<le> n"
  by (induction n arbitrary: ebp) auto

lemma length_getcallerpcs: "length (getcallerpcs m v) = 10"
  using length_walk_frames [of m 10 "v - 8"] by (simp add: getcallerpcs_def Let_def)

text \<open>
  \<open>acquire\<close> before its loop, the part after the exchange that got the lock, and \<open>release\<close>
  before and after its exchange. Between these parts other processors may run.
\<close>

definition acquire_enter :: "nat \<Rightarrow> spinlock \<Rightarrow> cpu \<Rightarrow> string + cpu" where
  "acquire_enter me lk c =
     (let c1 = pushcli c in if holding me lk then Inl ''acquire'' else Inr c1)"

definition acquire_record :: "nat \<Rightarrow> u32 list \<Rightarrow> spinlock \<Rightarrow> spinlock" where
  "acquire_record me pcs lk = lk\<lparr>lk_cpu := Some me, lk_pcs := pcs\<rparr>"

definition release_enter :: "nat \<Rightarrow> spinlock \<Rightarrow> string + spinlock" where
  "release_enter me lk =
     (if \<not> holding me lk then Inl ''release''
      else Inr (lk\<lparr>lk_pcs := (lk_pcs lk)[0 := 0], lk_cpu := None\<rparr>))"

text \<open>
  The whole routines when no other processor interferes: the loop of \<open>acquire\<close> leaves at once
  when the lock is free and does not leave at all when it is taken (\<open>None\<close>).
\<close>

definition acquire_alone :: "nat \<Rightarrow> u32 list \<Rightarrow> spinlock \<Rightarrow> cpu \<Rightarrow> (string + spinlock \<times> cpu) option" where
  "acquire_alone me pcs lk c =
     (case acquire_enter me lk c of
        Inl e \<Rightarrow> Some (Inl e)
      | Inr c1 \<Rightarrow> (case xchg lk 1 of (old, lk1) \<Rightarrow>
          if old \<noteq> 0 then None else Some (Inr (acquire_record me pcs lk1, c1))))"

definition release_alone :: "nat \<Rightarrow> spinlock \<Rightarrow> cpu \<Rightarrow> string + spinlock \<times> cpu" where
  "release_alone me lk c =
     (case release_enter me lk of
        Inl e \<Rightarrow> Inl e
      | Inr lk1 \<Rightarrow> (case popcli c of Inl e \<Rightarrow> Inl e | Inr c1 \<Rightarrow> Inr (snd (xchg lk1 0), c1)))"

section \<open>Processors side by side\<close>

text \<open>
  Where a processor is: in code that is not in the middle of a lock operation, in the loop
  of \<open>acquire\<close>, between the exchange and the store of the owner, between the clearing of the
  owner and the exchange of \<open>release\<close>, between that exchange and the \<open>popcli\<close> that ends
  \<open>release\<close>, or stopped in \<open>panic\<close>.
\<close>

datatype lock_pc = Running | Spinning lock | Taken lock | Dropping lock | Popping | Panicked string

record smp =
  locks :: "lock \<Rightarrow> spinlock"
  cpus :: "nat \<Rightarrow> cpu"
  pcs :: "nat \<Rightarrow> lock_pc"

inductive lock_step :: "smp \<Rightarrow> smp \<Rightarrow> bool" where
  acq_enter: "pcs s c = Running \<Longrightarrow> acquire_enter c (locks s l) (cpus s c) = Inr k \<Longrightarrow>
     lock_step s (s\<lparr>cpus := (cpus s)(c := k), pcs := (pcs s)(c := Spinning l)\<rparr>)"
| acq_panic: "pcs s c = Running \<Longrightarrow> acquire_enter c (locks s l) (cpus s c) = Inl e \<Longrightarrow>
     lock_step s (s\<lparr>pcs := (pcs s)(c := Panicked e)\<rparr>)"
| acq_spin: "pcs s c = Spinning l \<Longrightarrow> xchg (locks s l) 1 = (old, lk) \<Longrightarrow> old \<noteq> 0 \<Longrightarrow>
     lock_step s (s\<lparr>locks := (locks s)(l := lk)\<rparr>)"
| acq_take: "pcs s c = Spinning l \<Longrightarrow> xchg (locks s l) 1 = (0, lk) \<Longrightarrow>
     lock_step s (s\<lparr>locks := (locks s)(l := lk), pcs := (pcs s)(c := Taken l)\<rparr>)"
| acq_record: "pcs s c = Taken l \<Longrightarrow>
     lock_step s (s\<lparr>locks := (locks s)(l := acquire_record c ps (locks s l)),
       pcs := (pcs s)(c := Running)\<rparr>)"
| rel_enter: "pcs s c = Running \<Longrightarrow> release_enter c (locks s l) = Inr lk \<Longrightarrow>
     lock_step s (s\<lparr>locks := (locks s)(l := lk), pcs := (pcs s)(c := Dropping l)\<rparr>)"
| rel_panic: "pcs s c = Running \<Longrightarrow> release_enter c (locks s l) = Inl e \<Longrightarrow>
     lock_step s (s\<lparr>pcs := (pcs s)(c := Panicked e)\<rparr>)"
| rel_drop: "pcs s c = Dropping l \<Longrightarrow>
     lock_step s (s\<lparr>locks := (locks s)(l := snd (xchg (locks s l) 0)), pcs := (pcs s)(c := Popping)\<rparr>)"
| rel_pop: "pcs s c = Popping \<Longrightarrow> popcli (cpus s c) = Inr k \<Longrightarrow>
     lock_step s (s\<lparr>cpus := (cpus s)(c := k), pcs := (pcs s)(c := Running)\<rparr>)"
| rel_pop_panic: "pcs s c = Popping \<Longrightarrow> popcli (cpus s c) = Inl e \<Longrightarrow>
     lock_step s (s\<lparr>pcs := (pcs s)(c := Panicked e)\<rparr>)"
| set_if: "pcs s c = Running \<Longrightarrow> ncli (cpus s c) = 0 \<Longrightarrow>
     lock_step s (s\<lparr>cpus := (cpus s)(c := (cpus s c)\<lparr>if_flag := b\<rparr>)\<rparr>)"

definition boot_locks :: "smp \<Rightarrow> bool" where
  "boot_locks s \<longleftrightarrow> (\<forall>l. lk_locked (locks s l) = 0 \<and> lk_cpu (locks s l) = None) \<and>
     (\<forall>c. pcs s c = Running \<and> ncli (cpus s c) = 0)"

inductive smp_reachable :: "smp \<Rightarrow> bool" where
  boot: "boot_locks s \<Longrightarrow> smp_reachable s"
| step: "smp_reachable s \<Longrightarrow> lock_step s t \<Longrightarrow> smp_reachable t"
section \<open>Ownership\<close>

definition owns :: "smp \<Rightarrow> nat \<Rightarrow> lock \<Rightarrow> bool" where
  "owns s c l \<longleftrightarrow> pcs s c = Taken l \<or> pcs s c = Dropping l \<or> lk_cpu (locks s l) = Some c"

definition lock_inv :: "smp \<Rightarrow> bool" where
  "lock_inv s \<longleftrightarrow>
     (\<forall>l. lk_locked (locks s l) \<noteq> 0 \<longleftrightarrow> (\<exists>c. owns s c l)) \<and>
     (\<forall>l c d. owns s c l \<longrightarrow> owns s d l \<longrightarrow> c = d) \<and>
     (\<forall>l c. pcs s c = Taken l \<or> pcs s c = Dropping l \<longrightarrow> lk_cpu (locks s l) = None)"

lemmas lock_ops = acquire_enter_def acquire_record_def release_enter_def xchg_def holding_def

lemma lock_inv_boot: "boot_locks s \<Longrightarrow> lock_inv s"
  by (auto simp: boot_locks_def lock_inv_def owns_def)

text \<open>What a step does to the ownership relation: nothing, add one owner to a free lock, or take
  the owner of a lock away.\<close>

lemma lock_inv_same:
  assumes "lock_inv s" and "\<And>d l. owns t d l = owns s d l"
    and "\<And>l. lk_locked (locks t l) = 0 \<longleftrightarrow> lk_locked (locks s l) = 0"
    and "\<And>l d. pcs t d = Taken l \<or> pcs t d = Dropping l \<Longrightarrow> lk_cpu (locks t l) = None"
  shows "lock_inv t"
  using assms unfolding lock_inv_def by simp

lemma lock_inv_add:
  assumes inv: "lock_inv s" and free: "lk_locked (locks s l) = 0"
    and o: "\<And>d m. owns t d m \<longleftrightarrow> owns s d m \<or> d = c \<and> m = l"
    and lk: "\<And>m. lk_locked (locks t m) = 0 \<longleftrightarrow> lk_locked (locks s m) = 0 \<and> m \<noteq> l"
    and n: "\<And>m d. pcs t d = Taken m \<or> pcs t d = Dropping m \<Longrightarrow> lk_cpu (locks t m) = None"
  shows "lock_inv t"
proof -
  have no: "\<not> owns s d l" for d using inv free unfolding lock_inv_def by blast
  show ?thesis
    unfolding lock_inv_def o lk
  proof (intro conjI allI impI)
    fix m show "(\<not> (lk_locked (locks s m) = 0 \<and> m \<noteq> l)) = (\<exists>d. owns s d m \<or> d = c \<and> m = l)"
      using inv unfolding lock_inv_def by (cases "m = l") auto
  next
    fix m d e assume "owns s d m \<or> d = c \<and> m = l" "owns s e m \<or> e = c \<and> m = l"
    then show "d = e" using no inv unfolding lock_inv_def by (cases "m = l") auto
  next
    fix m d assume "pcs t d = Taken m \<or> pcs t d = Dropping m"
    then show "lk_cpu (locks t m) = None" by (rule n)
  qed
qed

lemma lock_inv_del:
  assumes inv: "lock_inv s" and own: "owns s c l"
    and o: "\<And>d m. owns t d m \<longleftrightarrow> owns s d m \<and> m \<noteq> l"
    and lk: "\<And>m. lk_locked (locks t m) = 0 \<longleftrightarrow> lk_locked (locks s m) = 0 \<or> m = l"
    and n: "\<And>m d. pcs t d = Taken m \<or> pcs t d = Dropping m \<Longrightarrow> lk_cpu (locks t m) = None"
  shows "lock_inv t"
  unfolding lock_inv_def o lk
proof (intro conjI allI impI)
  fix m show "(\<not> (lk_locked (locks s m) = 0 \<or> m = l)) = (\<exists>d. owns s d m \<and> m \<noteq> l)"
    using inv unfolding lock_inv_def by auto
next
  fix m d e assume "owns s d m \<and> m \<noteq> l" "owns s e m \<and> m \<noteq> l"
  then show "d = e" using inv unfolding lock_inv_def by blast
next
  fix m d assume "pcs t d = Taken m \<or> pcs t d = Dropping m"
  then show "lk_cpu (locks t m) = None" by (rule n)
qed

lemma lock_inv_taken: "lock_inv s \<Longrightarrow> pcs s c = Taken l \<Longrightarrow> lk_cpu (locks s l) = None"
  unfolding lock_inv_def by blast

lemma lock_inv_dropping: "lock_inv s \<Longrightarrow> pcs s c = Dropping l \<Longrightarrow> lk_cpu (locks s l) = None"
  unfolding lock_inv_def by blast

lemma lock_inv_unique: "lock_inv s \<Longrightarrow> owns s c l \<Longrightarrow> owns s d l \<Longrightarrow> c = d"
  unfolding lock_inv_def by blast

lemma lock_inv_locked: "lock_inv s \<Longrightarrow> owns s c l \<Longrightarrow> lk_locked (locks s l) \<noteq> 0"
  unfolding lock_inv_def by blast

lemma lock_inv_mid:
  assumes "lock_inv s" and "pcs s c = Taken l \<or> pcs s c = Dropping l"
  shows "owns s c l" and "lk_cpu (locks s l) = None"
    and "pcs s d = Taken l \<or> pcs s d = Dropping l \<Longrightarrow> d = c"
proof -
  show o: "owns s c l" using assms(2) by (auto simp: owns_def)
  show "lk_cpu (locks s l) = None"
    using assms by (auto dest: lock_inv_taken lock_inv_dropping)
  show "d = c" if "pcs s d = Taken l \<or> pcs s d = Dropping l"
    using lock_inv_unique [OF assms(1) _ o] that by (auto simp: owns_def)
qed

lemma lock_inv_free_owner: "lock_inv s \<Longrightarrow> lk_locked (locks s l) = 0 \<Longrightarrow> lk_cpu (locks s l) = None"
  using lock_inv_locked [of s _ l] by (cases "lk_cpu (locks s l)") (auto simp: owns_def)

lemmas lock_inv_dests = lock_inv_taken lock_inv_dropping

lemma lock_inv_local:
  assumes "lock_inv s" and "\<And>l. lk_locked (locks t l) = 0 \<longleftrightarrow> lk_locked (locks s l) = 0"
    and "\<And>l. lk_cpu (locks t l) = lk_cpu (locks s l)"
    and "\<And>d l. pcs t d = Taken l \<longleftrightarrow> pcs s d = Taken l"
    and "\<And>d l. pcs t d = Dropping l \<longleftrightarrow> pcs s d = Dropping l"
  shows "lock_inv t"
  using assms(2-5) by (intro lock_inv_same [OF assms(1)])
    (auto simp: owns_def dest: lock_inv_dests [OF assms(1)])

lemma lock_inv_step: "lock_step s t \<Longrightarrow> lock_inv s \<Longrightarrow> lock_inv t"
proof (induction rule: lock_step.induct)
  case (acq_take s c l lk)
  note inv = acq_take.prems
  from acq_take.hyps have free: "lk_locked (locks s l) = 0"
    and lk: "lk = (locks s l)\<lparr>lk_locked := 1\<rparr>" by (simp_all add: xchg_def)
  show ?case
    using acq_take.hyps(1) lk lock_inv_free_owner [OF inv free]
    by (intro lock_inv_add [OF inv free, of _ c])
      (auto simp: owns_def dest: lock_inv_dests [OF inv] split: if_splits)
next
  case (acq_record s c l ps)
  note inv = acq_record.prems
  show ?case
    using acq_record.hyps lock_inv_mid [OF inv, of c l]
    by (intro lock_inv_same [OF inv])
      (auto simp: owns_def acquire_record_def dest: lock_inv_dests [OF inv] split: if_splits)
next
  case (rel_enter s c l lk)
  note inv = rel_enter.prems
  from rel_enter.hyps(2) have "lk_cpu (locks s l) = Some c"
    and lk: "lk = (locks s l)\<lparr>lk_pcs := (lk_pcs (locks s l))[0 := 0], lk_cpu := None\<rparr>"
    by (auto simp: release_enter_def holding_def split: if_splits)
  then show ?case
    using rel_enter.hyps(1) by (intro lock_inv_same [OF inv])
      (auto simp: owns_def lk dest: lock_inv_dests [OF inv] split: if_splits)
next
  case (rel_drop s c l)
  note inv = rel_drop.prems
  show ?case
    using rel_drop.hyps lock_inv_mid [OF inv, of c l]
    by (intro lock_inv_del [OF inv lock_inv_mid(1) [OF inv, of c l]])
      (auto simp: owns_def xchg_def dest: lock_inv_dests [OF inv] split: if_splits)
qed (rule lock_inv_local; auto simp: xchg_def)+

text \<open>
  Interrupts: a processor has pushed \<open>cli\<close> once for each lock that it owns, once more in the
  loop of \<open>acquire\<close>, where the lock is not its own yet, and once more before the \<open>popcli\<close> of
  \<open>release\<close>, where the lock is not its own any more. While that number is positive its
  interrupt flag is off.
\<close>

lemma finite_locks: "finite (A :: lock set)"
proof -
  have "(UNIV :: lock set) \<subseteq> {LK_ptable, LK_kmem, LK_ide, LK_bcache, LK_log, LK_icache, LK_ftable,
      LK_ticks, LK_cons, LK_input, LK_buffer, LK_transfer} \<union> range LK_pipe"
  proof
    fix x :: lock
    show "x \<in> {LK_ptable, LK_kmem, LK_ide, LK_bcache, LK_log, LK_icache, LK_ftable,
      LK_ticks, LK_cons, LK_input, LK_buffer, LK_transfer} \<union> range LK_pipe" by (cases x) auto
  qed
  then have "finite (UNIV :: lock set)" by (rule finite_subset) simp
  then show ?thesis by (rule finite_subset [OF subset_UNIV])
qed

definition owned :: "smp \<Rightarrow> nat \<Rightarrow> lock set" where
  "owned s c = {l. owns s c l}"

definition between :: "lock_pc \<Rightarrow> bool" where
  "between p \<longleftrightarrow> (case p of Spinning l \<Rightarrow> True | Popping \<Rightarrow> True | _ \<Rightarrow> False)"

lemma between_simps [simp]:
  "between (Spinning l)" "between Popping" "\<not> between Running" "\<not> between (Taken l)"
  "\<not> between (Dropping l)" "\<not> between (Panicked e)"
  by (simp_all add: between_def)

definition depth :: "smp \<Rightarrow> nat \<Rightarrow> nat" where
  "depth s c = card (owned s c) + (if between (pcs s c) then 1 else 0)"

definition cli_ok :: "smp \<Rightarrow> nat \<Rightarrow> bool" where
  "cli_ok s c \<longleftrightarrow> (\<forall>e. pcs s c \<noteq> Panicked e) \<longrightarrow>
     ncli (cpus s c) = int (depth s c) \<and> (0 < depth s c \<longrightarrow> \<not> if_flag (cpus s c))"

lemma cli_ok_cong:
  "owned t d = owned s d \<Longrightarrow> pcs t d = pcs s d \<Longrightarrow> cpus t d = cpus s d \<Longrightarrow> cli_ok t d = cli_ok s d"
  by (simp add: cli_ok_def depth_def)

lemma owned_take:
  assumes "lock_inv s" and "pcs s c = Spinning l" and "lk_locked (locks s l) = 0"
  shows "l \<notin> owned s c"
  using assms by (auto simp: owned_def dest: lock_inv_locked)

lemma owned_drop: "lock_inv s \<Longrightarrow> pcs s c = Dropping l \<Longrightarrow> l \<in> owned s c"
  by (simp add: owned_def owns_def)

lemma depth_drop:
  assumes "lock_inv s" and "pcs s c = Dropping l" and "owned t c = owned s c - {l}" and "pcs t c = Popping"
  shows "depth s c = depth t c"
  using assms owned_drop [OF assms(1,2)] finite_locks [of "owned s c"]
  by (simp add: depth_def card_Suc_Diff1 del: card_Diff_insert)

lemma pushcli_simps [simp]: "ncli (pushcli c) = ncli c + 1" "if_flag (pushcli c) = False"
  by (simp_all add: pushcli_def Let_def)

lemma popcli_Inr:
  "popcli c = Inr k \<Longrightarrow> ncli k = ncli c - 1 \<and> 0 \<le> ncli k \<and> \<not> if_flag c \<and> (0 < ncli k \<longrightarrow> \<not> if_flag k)"
  by (auto simp: popcli_def Let_def split: if_splits)

text \<open>A step moves one processor; the others keep their depth.\<close>

lemma cli_ok_others:
  assumes "\<And>d. d \<noteq> c \<Longrightarrow> owned t d = owned s d \<and> pcs t d = pcs s d \<and> cpus t d = cpus s d"
    and "\<And>d. cli_ok s d" and "cli_ok t c"
  shows "cli_ok t d"
  using assms by (cases "d = c") (auto simp: cli_ok_cong [of t d s])

lemma cli_ok_same:
  assumes "\<And>d. owned t d = owned s d" and "\<And>d. cli_ok s d"
    and "\<And>d. d \<noteq> c \<Longrightarrow> pcs t d = pcs s d \<and> cpus t d = cpus s d"
    and "(\<exists>e. pcs t c = Panicked e) \<or> between (pcs t c) = between (pcs s c) \<and>
        cpus t c = cpus s c \<and> (\<forall>e. pcs s c \<noteq> Panicked e)"
  shows "cli_ok t d"
  using assms(1,2,3) assms(2) [of c] assms(4)
  by (rule_tac cli_ok_others [of c t s d]) (auto simp: cli_ok_def depth_def)

lemma cli_ok_enter:
  assumes "pcs s c = Running" and "cli_ok s c" and "owned t c = owned s c"
    and "pcs t c = Spinning l" and "cpus t c = pushcli (cpus s c)"
  shows "cli_ok t c"
  using assms by (auto simp: cli_ok_def depth_def)

lemma cli_ok_drop:
  assumes inv: "lock_inv s" and "pcs s c = Dropping l" and "cli_ok s c" and "owned t c = owned s c - {l}"
    and "pcs t c = Popping" and "cpus t c = cpus s c"
  shows "cli_ok t c"
  using depth_drop [OF inv assms(2,4,5)] assms(2,3,5,6) by (auto simp: cli_ok_def)

lemma cli_ok_pop:
  assumes "pcs s c = Popping" and "cli_ok s c" and "owned t c = owned s c"
    and "pcs t c = Running" and "popcli (cpus s c) = Inr (cpus t c)"
  shows "cli_ok t c"
  using popcli_Inr [OF assms(5)] assms(1-4) by (auto simp: cli_ok_def depth_def)

lemma cli_ok_step: "lock_step s t \<Longrightarrow> lock_inv s \<Longrightarrow> (\<And>d. cli_ok s d) \<Longrightarrow> cli_ok t d"
proof (induction rule: lock_step.induct)
  case (acq_enter s c l k)
  then have "k = pushcli (cpus s c)"
    by (auto simp: acquire_enter_def Let_def split: if_splits)
  then have "cli_ok (s\<lparr>cpus := (cpus s)(c := k), pcs := (pcs s)(c := Spinning l)\<rparr>) c"
    using acq_enter.hyps(1) acq_enter.prems(2)
    by (rule_tac cli_ok_enter [of s c _ l]) (auto simp: owned_def owns_def)
  then show ?case
    using acq_enter.hyps(1) acq_enter.prems(2)
    by (rule_tac cli_ok_others [of c _ s d]) (auto simp: owned_def owns_def)
next
  case (acq_take s c l lk)
  then have free: "lk_locked (locks s l) = 0" and lk: "lk = (locks s l)\<lparr>lk_locked := 1\<rparr>"
    by (simp_all add: xchg_def)
  let ?t = "s\<lparr>locks := (locks s)(l := lk), pcs := (pcs s)(c := Taken l)\<rparr>"
  have o: "owned ?t d = (if d = c then insert l (owned s d) else owned s d)" for d
    using acq_take.hyps(1) lk by (auto simp: owned_def owns_def split: if_splits)
  have "depth ?t c = depth s c"
    using acq_take.hyps(1) owned_take [OF acq_take.prems(1) acq_take.hyps(1) free]
    by (simp add: depth_def o finite_locks)
  then have "cli_ok ?t c" using acq_take.prems(2) [of c] acq_take.hyps(1) by (simp add: cli_ok_def)
  then show ?case using acq_take.prems(2) by (rule_tac cli_ok_others [of c ?t s d]) (auto simp: o)
next
  case (acq_record s c l ps)
  then show ?case
    using lock_inv_mid [OF acq_record.prems(1), of c l]
    by (rule_tac cli_ok_same [of _ s c]) (auto simp: owned_def owns_def acquire_record_def split: if_splits)
next
  case (rel_enter s c l lk)
  then have "lk_cpu (locks s l) = Some c" "lk_cpu lk = None"
    by (auto simp: release_enter_def holding_def split: if_splits)
  then show ?case
    using rel_enter by (rule_tac cli_ok_same [of _ s c]) (auto simp: owned_def owns_def split: if_splits)
next
  case (rel_drop s c l)
  let ?t = "s\<lparr>locks := (locks s)(l := snd (xchg (locks s l) 0)), pcs := (pcs s)(c := Popping)\<rparr>"
  have o: "owned ?t d = (if d = c then owned s d - {l} else owned s d)" for d
    using rel_drop.hyps(1) lock_inv_mid [OF rel_drop.prems(1), of c l]
    by (auto simp: owned_def owns_def xchg_def split: if_splits)
  have "cli_ok ?t c"
    using rel_drop.hyps rel_drop.prems by (rule_tac cli_ok_drop [of s c l]) (auto simp: o)
  then show ?case
    using rel_drop.prems by (rule_tac cli_ok_others [of c _ s d]) (auto simp: o)
next
  case (rel_pop s c k)
  let ?t = "s\<lparr>cpus := (cpus s)(c := k), pcs := (pcs s)(c := Running)\<rparr>"
  have o: "owned ?t d = owned s d" for d
    using rel_pop.hyps(1) by (auto simp: owned_def owns_def)
  have "cli_ok ?t c"
    using rel_pop.hyps rel_pop.prems by (rule_tac cli_ok_pop [of s c]) (auto simp: o)
  then show ?case
    using rel_pop.prems by (rule_tac cli_ok_others [of c _ s d]) (auto simp: o)
next
  case (rel_pop_panic s c e)
  then show ?case by (rule_tac cli_ok_same [of _ s c]) (auto simp: owned_def owns_def)
next
  case (acq_spin s c l old lk)
  then show ?case
    by (subst cli_ok_cong [of _ d s]) (auto simp: owned_def owns_def xchg_def split: if_splits)
next
  case (set_if s c b)
  then show ?case
    by (cases "d = c") (auto simp: cli_ok_def depth_def owned_def owns_def)
next
  case (acq_panic s c l e)
  then show ?case by (rule_tac cli_ok_same [of _ s c]) (auto simp: owned_def owns_def)
next
  case (rel_panic s c l e)
  then show ?case by (rule_tac cli_ok_same [of _ s c]) (auto simp: owned_def owns_def)
qed

lemma smp_reachable_inv: "smp_reachable s \<Longrightarrow> lock_inv s \<and> (\<forall>c. cli_ok s c)"
proof (induction rule: smp_reachable.induct)
  case (boot s)
  then show ?case
    by (auto simp: lock_inv_boot cli_ok_def depth_def owned_def owns_def boot_locks_def)
next
  case (step s t)
  then show ?case by (blast intro: lock_inv_step cli_ok_step)
qed

text \<open>Properties and their witnesses: a machine where processor 0 has just taken the lock of the
  process table and one where it is about to drop it.\<close>

definition smp_boot :: smp where
  "smp_boot = \<lparr>locks = (\<lambda>_. \<lparr>lk_locked = 0, lk_name = [], lk_cpu = None, lk_pcs = replicate 10 0\<rparr>),
     cpus = (\<lambda>_. \<lparr>ncli = 0, intena = False, if_flag = True\<rparr>), pcs = (\<lambda>_. Running)\<rparr>"

definition smp_taken :: smp where
  "smp_taken = smp_boot
     \<lparr>cpus := (cpus smp_boot)(0 := pushcli (cpus smp_boot 0)), pcs := (pcs smp_boot)(0 := Spinning LK_ptable)\<rparr>
     \<lparr>locks := (locks smp_boot)(LK_ptable := (locks smp_boot LK_ptable)\<lparr>lk_locked := 1\<rparr>),
      pcs := (pcs smp_boot)(0 := Taken LK_ptable)\<rparr>"

lemma smp_taken_reachable: "smp_reachable smp_taken"
proof -
  let ?s1 = "smp_boot\<lparr>cpus := (cpus smp_boot)(0 := pushcli (cpus smp_boot 0)),
      pcs := (pcs smp_boot)(0 := Spinning LK_ptable)\<rparr>"
  have "smp_reachable smp_boot"
    by (rule smp_reachable.boot) (simp add: boot_locks_def smp_boot_def)
  moreover have "lock_step smp_boot ?s1"
    by (rule lock_step.acq_enter) (simp_all add: smp_boot_def acquire_enter_def holding_def Let_def)
  ultimately have "smp_reachable ?s1" by (rule smp_reachable.step)
  moreover have "lock_step ?s1 (?s1\<lparr>locks := (locks ?s1)(LK_ptable := (locks smp_boot LK_ptable)\<lparr>lk_locked := 1\<rparr>),
      pcs := (pcs ?s1)(0 := Taken LK_ptable)\<rparr>)"
    by (rule lock_step.acq_take) (simp_all add: smp_boot_def xchg_def)
  ultimately have "smp_reachable (?s1\<lparr>locks := (locks ?s1)(LK_ptable := (locks smp_boot LK_ptable)\<lparr>lk_locked := 1\<rparr>),
      pcs := (pcs ?s1)(0 := Taken LK_ptable)\<rparr>)" by (rule smp_reachable.step)
  then show ?thesis by (simp add: smp_taken_def smp_boot_def)
qed

text \<open>
  C1. Mutual exclusion. On any number of processors that interleave their shared accesses, no
  two processors are ever both inside a critical section of the same lock (from the successful
  exchange in \<open>acquire\<close> up to the exchange in \<open>release\<close>), and \<open>holding\<close> says yes exactly to the
  processor whose critical section it is.
\<close>

theorem spinlock_mutual_exclusion:
  assumes "smp_reachable s"
  shows "(owns s c l \<and> owns s d l \<longrightarrow> c = d) \<and>
     (holding c (locks s l) \<longleftrightarrow> owns s c l \<and> pcs s c \<noteq> Taken l \<and> pcs s c \<noteq> Dropping l)"
proof -
  have inv: "lock_inv s" using smp_reachable_inv [OF assms] by blast
  show ?thesis
    using lock_inv_unique [OF inv, of c l d] lock_inv_locked [OF inv, of c l]
      lock_inv_mid(2) [OF inv, of c l]
    by (auto simp: holding_def owns_def)
qed

theorem spinlock_mutual_exclusion_witness:
  "owns smp_taken 0 LK_ptable \<and> \<not> owns smp_taken 1 LK_ptable"
  using spinlock_mutual_exclusion [OF smp_taken_reachable, of 0 LK_ptable 1]
  by (auto simp: smp_taken_def owns_def)

text \<open>
  C2. Interrupts are off and counted while locks are held. In every reachable state a processor
  that has not panicked has \<open>ncli\<close> equal to the number of locks it owns, plus one while it is
  in the loop of \<open>acquire\<close> (not yet the owner) or between the exchange of \<open>release\<close> and its
  \<open>popcli\<close> (no longer the owner). Its interrupt flag is off whenever \<open>ncli\<close> is positive, so
  in particular while it owns a lock, and the \<open>popcli\<close> of a \<open>release\<close> never panics.
\<close>

theorem spinlock_interrupts_off:
  assumes "smp_reachable s" and "\<forall>e. pcs s c \<noteq> Panicked e"
  shows "ncli (cpus s c) = int (card (owned s c)) +
       (if (\<exists>l. pcs s c = Spinning l) \<or> pcs s c = Popping then 1 else 0) \<and>
     (0 < ncli (cpus s c) \<longrightarrow> \<not> if_flag (cpus s c)) \<and>
     (owned s c \<noteq> {} \<longrightarrow> \<not> if_flag (cpus s c)) \<and>
     (pcs s c = Dropping l \<or> pcs s c = Popping \<longrightarrow> (\<exists>k. popcli (cpus s c) = Inr k))"
proof -
  have ok: "ncli (cpus s c) = int (depth s c)" "0 < depth s c \<longrightarrow> \<not> if_flag (cpus s c)"
    using smp_reachable_inv [OF assms(1)] assms(2) by (auto simp: cli_ok_def)
  have d: "depth s c = card (owned s c) + (if (\<exists>l. pcs s c = Spinning l) \<or> pcs s c = Popping then 1 else 0)"
    by (cases "pcs s c") (auto simp: depth_def)
  have pos: "0 < depth s c" if "owned s c \<noteq> {}"
    using that finite_locks [of "owned s c"] by (simp add: depth_def card_gt_0_iff)
  have "\<exists>k. popcli (cpus s c) = Inr k" if "pcs s c = Dropping l \<or> pcs s c = Popping"
  proof -
    have "owned s c \<noteq> {}" if "pcs s c = Dropping l" using that by (auto simp: owned_def owns_def)
    moreover have "0 < depth s c" if "pcs s c = Popping" using that by (simp add: depth_def)
    ultimately have "0 < depth s c" using that pos by blast
    with ok show ?thesis by (auto simp: popcli_def Let_def)
  qed
  moreover have "\<not> if_flag (cpus s c)" if "owned s c \<noteq> {}" using pos [OF that] ok(2) by blast
  moreover have "\<not> if_flag (cpus s c)" if "0 < ncli (cpus s c)" using that ok by simp
  ultimately show ?thesis using ok(1) d by simp
qed

theorem spinlock_interrupts_off_witness:
  "ncli (cpus smp_taken 0) = 1 \<and> \<not> if_flag (cpus smp_taken 0)"
proof -
  have p: "\<forall>e. pcs smp_taken 0 \<noteq> Panicked e" by (simp add: smp_taken_def)
  have "owned smp_taken 0 = {LK_ptable}"
    by (auto simp: owned_def owns_def smp_taken_def smp_boot_def split: if_splits)
  moreover have "pcs smp_taken 0 = Taken LK_ptable" by (simp add: smp_taken_def)
  ultimately show ?thesis
    using spinlock_interrupts_off [OF smp_taken_reachable p, of LK_ptable] by simp
qed

end
