(* ===== verification/Proc_Sched.thy ===== *)
theory Proc_Sched
  imports Spinlock
begin

text \<open>
  The process table of \<^verbatim>\<open>proc.h\<close> and the part of \<^verbatim>\<open>proc.c\<close> that only changes it: the scheduler,
  \<open>sched\<close>, \<open>yield\<close>, \<open>sleep\<close>, \<open>wakeup\<close>, \<open>kill\<close> and the slot allocation of \<open>allocproc\<close>. It
  also opens the chain of state records: \<open>kcore\<close> is extended by every later component with
  its own variables, so that a routine defined here works on the state of the whole kernel.

  A routine runs on one processor. The locks this processor holds are the list \<open>held\<close>;
  \<open>acquire\<close> and \<open>release\<close> here are the lock operations of \<^verbatim>\<open>spinlock.c\<close> as that processor
  sees them (see the refinement at the end of the section on locks).
\<close>

section \<open>Process table\<close>

datatype procstate = UNUSED | EMBRYO | SLEEPING | RUNNABLE | RUNNING | ZOMBIE

record trapframe =
  tf_edi :: u32
  tf_esi :: u32
  tf_ebp :: u32
  tf_oesp :: u32
  tf_ebx :: u32
  tf_edx :: u32
  tf_ecx :: u32
  tf_eax :: u32
  tf_gs :: u16
  tf_fs :: u16
  tf_es :: u16
  tf_ds :: u16
  tf_trapno :: u32
  tf_err :: u32
  tf_eip :: u32
  tf_cs :: u16
  tf_eflags :: u32
  tf_esp :: u32
  tf_ss :: u16

record pcontext =
  cx_edi :: u32
  cx_esi :: u32
  cx_ebx :: u32
  cx_ebp :: u32
  cx_eip :: u32

text \<open>
  \<^verbatim>\<open>struct proc\<close>. Pointers into other tables (parent, open files, current directory) are
  indices, \<open>None\<close> for the null pointer; the trap frame and the context, which the code keeps on
  the kernel stack of the process, are stored by value; \<open>p_name\<close> is the string up to its NUL.
\<close>

record proc =
  p_sz :: u32
  p_pgdir :: u32
  p_kstack :: u32
  p_state :: procstate
  p_pid :: u32
  p_parent :: "nat option"
  p_tf :: trapframe
  p_context :: pcontext
  p_chan :: "chan option"
  p_killed :: bool
  p_ofile :: "nat option list"
  p_cwd :: "nat option"
  p_name :: "byte list"
  p_type :: int

record kcore =
  held :: "lock list"
  ptable :: "proc list"
  curproc :: "nat option"
  initproc :: "nat option"
  nextpid :: u32
  ticks :: u32
  klog :: "string list"

type_synonym ('z, 'a) core = "('z kcore_scheme, 'a) kfun"

section \<open>Locks as a processor sees them\<close>

definition acquire :: "lock \<Rightarrow> ('z, unit) core" where
  "acquire l s = (if l \<in> set (held s) then Panic ''acquire'' else Ok () (s\<lparr>held := l # held s\<rparr>))"

definition release :: "lock \<Rightarrow> ('z, unit) core" where
  "release l s = (if l \<notin> set (held s) then Panic ''release''
     else Ok () (s\<lparr>held := remove1 l (held s)\<rparr>))"

definition cprintf :: "string \<Rightarrow> ('z, unit) core" where
  "cprintf msg = modify (\<lambda>s. s\<lparr>klog := klog s @ [msg]\<rparr>)"

text \<open>The current process: \<open>proc->field\<close> is undefined when \<open>proc\<close> is null.\<close>

definition myproc :: "('z, nat) core" where
  "myproc s = (case curproc s of None \<Rightarrow> Fault ''proc'' | Some i \<Rightarrow>
     if i < length (ptable s) then Ok i s else Fault ''proc'')"

definition upd_proc :: "nat \<Rightarrow> (proc \<Rightarrow> proc) \<Rightarrow> ('z, unit) core" where
  "upd_proc i f = modify (\<lambda>s. s\<lparr>ptable := (ptable s)[i := f (ptable s ! i)]\<rparr>)"

lemma acquire_Ok: "l \<notin> set (held s) \<Longrightarrow> acquire l s = Ok () (s\<lparr>held := l # held s\<rparr>)"
  by (simp add: acquire_def)

lemma release_Ok: "held s = l # hs \<Longrightarrow> release l s = Ok () (s\<lparr>held := hs\<rparr>)"
  by (simp add: release_def)

section \<open>Scheduling\<close>

text \<open>
  \<open>sched\<close> checks that the process table is locked, that it is the only lock held (\<open>ncli\<close> is
  the number of locks), that the process has left the running state and that interrupts are
  off, which they are exactly while a lock is held; then the context switch goes to the
  scheduler, which clears \<open>proc\<close>.
\<close>

definition sched :: "('z, unit) core" where
  "sched =
     bnd (gets held) (\<lambda>hs.
     if LK_ptable \<notin> set hs then panic ''sched ptable.lock''
     else if length hs \<noteq> 1 then panic ''sched locks''
     else bnd myproc (\<lambda>i.
       bnd (gets (\<lambda>s. p_state (ptable s ! i))) (\<lambda>st.
       if st = RUNNING then panic ''sched running''
       else if hs = [] then panic ''sched interruptible''
       else modify (\<lambda>s. s\<lparr>curproc := None\<rparr>))))"

text \<open>\<open>yield\<close> up to the context switch, and what it does when the process runs again.\<close>

definition yield :: "('z, unit) core" where
  "yield =
     thn (acquire LK_ptable)
     (bnd myproc (\<lambda>i.
      thn (upd_proc i (\<lambda>p. p\<lparr>p_state := RUNNABLE\<rparr>)) sched))"

definition yield_resume :: "('z, unit) core" where
  "yield_resume = release LK_ptable"

text \<open>
  \<open>sleep\<close> up to the context switch is the outcome \<open>Sleep\<close>; \<open>sleep_resume\<close> is what it does
  when the process is scheduled again.
\<close>

definition sleep :: "chan \<Rightarrow> lock \<Rightarrow> ('z, 'a) core" where
  "sleep ch lk =
     bnd (gets curproc) (\<lambda>cp.
     if cp = None then panic ''sleep''
     else
       thn (whenk (lk \<noteq> LK_ptable) (thn (acquire LK_ptable) (release lk)))
       (bnd myproc (\<lambda>i.
        thn (upd_proc i (\<lambda>p. p\<lparr>p_chan := Some ch, p_state := SLEEPING\<rparr>))
        (thn sched (\<lambda>s. Sleep ch s)))))"

definition sleep_resume :: "lock \<Rightarrow> ('z, unit) core" where
  "sleep_resume lk =
     bnd myproc (\<lambda>i.
     thn (upd_proc i (\<lambda>p. p\<lparr>p_chan := None\<rparr>))
     (whenk (lk \<noteq> LK_ptable) (thn (release LK_ptable) (acquire lk))))"

definition wakeup1 :: "chan option \<Rightarrow> ('z, unit) core" where
  "wakeup1 ch = modify (\<lambda>s. s\<lparr>ptable := map (\<lambda>p.
     if p_state p = SLEEPING \<and> p_chan p = ch then p\<lparr>p_state := RUNNABLE\<rparr> else p) (ptable s)\<rparr>)"

definition wakeup :: "chan \<Rightarrow> ('z, unit) core" where
  "wakeup ch = thn (acquire LK_ptable) (thn (wakeup1 (Some ch)) (release LK_ptable))"

text \<open>\<open>kill\<close> marks the first slot with the given pid, whatever its state, and wakes it.\<close>

definition kill :: "u32 \<Rightarrow> ('z, int) core" where
  "kill pid =
     thn (acquire LK_ptable)
     (bnd (gets ptable) (\<lambda>ps.
      case find_idx (\<lambda>p. p_pid p = pid) ps of
        None \<Rightarrow> thn (release LK_ptable) (ret (-1))
      | Some i \<Rightarrow>
          thn (upd_proc i (\<lambda>p. p\<lparr>p_killed := True\<rparr>))
          (thn (upd_proc i (\<lambda>p. if p_state p = SLEEPING then p\<lparr>p_state := RUNNABLE\<rparr> else p))
          (thn (release LK_ptable) (ret 0)))))"

text \<open>
  One turn of the scheduler's inner loop at slot \<open>i\<close>, up to the switch to the process.
  \<open>switchuvm\<close> panics when the process has no page table. The switch comes back in \<open>sched\<close>.
\<close>

definition scheduler_pick :: "nat \<Rightarrow> ('z, bool) core" where
  "scheduler_pick i =
     bnd (gets ptable) (\<lambda>ps.
     if p_state (ps ! i) \<noteq> RUNNABLE then ret False
     else
       thn (modify (\<lambda>s. s\<lparr>curproc := Some i\<rparr>))
       (if p_pgdir (ps ! i) = 0 then panic ''switchuvm: no pgdir''
        else thn (upd_proc i (\<lambda>p. p\<lparr>p_state := RUNNING\<rparr>)) (ret True)))"

text \<open>
  The inner loop: the slots of the list are offered the processor until one takes it; \<open>None\<close>
  when the pass ends without a switch, and then the lock is released. \<open>scheduler\<close> is the
  start of a pass of the outer loop. \<open>scheduler_back i\<close> is what the scheduler does when
  slot \<open>i\<close> switches back to it, with the lock held: it clears \<open>proc\<close> and goes on with the
  slot after \<open>i\<close>. The page tables that \<open>switchuvm\<close> and \<open>switchkvm\<close> load are not part of this
  state.
\<close>

primrec scheduler_scan :: "nat list \<Rightarrow> ('z, nat option) core" where
  "scheduler_scan [] = ret None"
| "scheduler_scan (i # is) =
     bnd (scheduler_pick i) (\<lambda>b. if b then ret (Some i) else scheduler_scan is)"

definition scheduler_rest :: "nat list \<Rightarrow> ('z, nat option) core" where
  "scheduler_rest is =
     bnd (scheduler_scan is) (\<lambda>r.
     case r of None \<Rightarrow> thn (release LK_ptable) (ret None) | Some i \<Rightarrow> ret (Some i))"

definition scheduler :: "('z, nat option) core" where
  "scheduler =
     thn (acquire LK_ptable)
     (bnd (gets (\<lambda>s. length (ptable s))) (\<lambda>n. scheduler_rest [0..<n]))"

definition scheduler_back :: "nat \<Rightarrow> ('z, nat option) core" where
  "scheduler_back i =
     thn (modify (\<lambda>s. s\<lparr>curproc := None\<rparr>))
     (bnd (gets (\<lambda>s. length (ptable s))) (\<lambda>n. scheduler_rest [Suc i..<n]))"

text \<open>The slot part of \<open>allocproc\<close>: the first unused entry becomes an embryo with a new pid.\<close>

definition alloc_slot :: "('z, nat option) core" where
  "alloc_slot =
     thn (acquire LK_ptable)
     (bnd (gets ptable) (\<lambda>ps.
      case find_idx (\<lambda>p. p_state p = UNUSED) ps of
        None \<Rightarrow> thn (release LK_ptable) (ret None)
      | Some i \<Rightarrow>
          bnd (gets nextpid) (\<lambda>n.
          thn (upd_proc i (\<lambda>p. p\<lparr>p_state := EMBRYO, p_pid := n\<rparr>))
          (thn (modify (\<lambda>s. s\<lparr>nextpid := n + 1\<rparr>))
          (thn (release LK_ptable) (ret (Some i)))))))"

text \<open>
  The other places where \<^verbatim>\<open>proc.c\<close> changes the state of a slot: \<open>allocproc\<close> gives an embryo
  up, \<open>fork\<close> makes one runnable, \<open>exit\<close> leaves a zombie (the part of \<open>exit\<close> under the
  lock of the table; the switch does not come back), and \<open>wait\<close> frees the slot of a zombie.
\<close>

definition drop_slot :: "nat \<Rightarrow> ('z, unit) core" where
  "drop_slot i = upd_proc i (\<lambda>p. p\<lparr>p_state := UNUSED\<rparr>)"

definition ready_slot :: "nat \<Rightarrow> ('z, unit) core" where
  "ready_slot i =
     thn (acquire LK_ptable)
     (thn (upd_proc i (\<lambda>p. p\<lparr>p_state := RUNNABLE\<rparr>))
      (release LK_ptable))"

definition reparent :: "nat \<Rightarrow> nat \<Rightarrow> ('z, unit) core" where
  "reparent i j =
     bnd (gets ptable) (\<lambda>ps.
     whenk (p_parent (ps ! j) = Some i)
       (bnd (gets initproc) (\<lambda>ini.
        thn (upd_proc j (\<lambda>p. p\<lparr>p_parent := ini\<rparr>))
        (whenk (p_state (ps ! j) = ZOMBIE) (wakeup1 (map_option CH_proc ini))))))"

definition exit_slot :: "('z, unit) core" where
  "exit_slot =
     thn (acquire LK_ptable)
     (bnd myproc (\<lambda>i.
      bnd (gets (\<lambda>s. p_parent (ptable s ! i))) (\<lambda>par.
      thn (wakeup1 (map_option CH_proc par))
      (bnd (gets (\<lambda>s. length (ptable s))) (\<lambda>n.
       thn (for_each [0..<n] (reparent i))
       (thn (upd_proc i (\<lambda>p. p\<lparr>p_state := ZOMBIE\<rparr>)) sched))))))"

definition reap_slot :: "nat \<Rightarrow> ('z, unit) core" where
  "reap_slot j = upd_proc j (\<lambda>p. p\<lparr>p_state := UNUSED, p_pid := 0, p_parent := None,
     p_name := [], p_killed := False\<rparr>)"

section \<open>What the operations do\<close>

named_theorems proc_ops \<open>unfolding the operations on the process table\<close>

declare acquire_def [proc_ops] release_def [proc_ops] myproc_def [proc_ops] upd_proc_def [proc_ops]
  sched_def [proc_ops]

lemma sched_Ok:
  assumes "held s = [LK_ptable]" and "curproc s = Some i" and "i < length (ptable s)"
    and "p_state (ptable s ! i) \<noteq> RUNNING"
  shows "sched s = Ok () (s\<lparr>curproc := None\<rparr>)"
  using assms by (simp add: proc_ops)

lemma yield_Ok:
  assumes "held s = []" and "curproc s = Some i" and "i < length (ptable s)"
  shows "yield s = Ok () (s\<lparr>held := [LK_ptable], curproc := None,
     ptable := (ptable s)[i := (ptable s ! i)\<lparr>p_state := RUNNABLE\<rparr>]\<rparr>)"
  using assms by (simp add: yield_def proc_ops)

lemma sleep_Sleep:
  assumes "held s = [lk]" and "curproc s = Some i" and "i < length (ptable s)"
  shows "sleep ch lk s = Sleep ch (s\<lparr>held := [LK_ptable], curproc := None,
     ptable := (ptable s)[i := (ptable s ! i)\<lparr>p_chan := Some ch, p_state := SLEEPING\<rparr>]\<rparr>)"
  using assms by (cases "lk = LK_ptable") (simp_all add: sleep_def proc_ops)

lemma wakeup_Ok:
  assumes "LK_ptable \<notin> set (held s)"
  shows "wakeup ch s = Ok () (s\<lparr>ptable := map (\<lambda>p.
     if p_state p = SLEEPING \<and> p_chan p = Some ch then p\<lparr>p_state := RUNNABLE\<rparr> else p) (ptable s)\<rparr>)"
  using assms by (simp add: wakeup_def wakeup1_def proc_ops)

lemma kill_Ok:
  assumes "LK_ptable \<notin> set (held s)"
  shows "kill pid s = (case find_idx (\<lambda>p. p_pid p = pid) (ptable s) of
       None \<Rightarrow> Ok (-1) s
     | Some i \<Rightarrow> Ok 0 (s\<lparr>ptable := (ptable s)[i := (ptable s ! i)\<lparr>p_killed := True,
         p_state := (if p_state (ptable s ! i) = SLEEPING then RUNNABLE
                     else p_state (ptable s ! i))\<rparr>]\<rparr>))"
  using assms find_idx_SomeD(1) [of "\<lambda>p. p_pid p = pid" "ptable s"]
  by (cases "find_idx (\<lambda>p. p_pid p = pid) (ptable s)") (simp_all add: kill_def proc_ops)

lemma alloc_slot_Ok:
  assumes "LK_ptable \<notin> set (held s)"
  shows "alloc_slot s = (case find_idx (\<lambda>p. p_state p = UNUSED) (ptable s) of
       None \<Rightarrow> Ok None s
     | Some i \<Rightarrow> Ok (Some i) (s\<lparr>ptable := (ptable s)[i := (ptable s ! i)\<lparr>p_state := EMBRYO,
         p_pid := nextpid s\<rparr>], nextpid := nextpid s + 1\<rparr>))"
  using assms by (auto simp: alloc_slot_def proc_ops split: option.split)

text \<open>The scan takes the first runnable slot.\<close>

lemma scheduler_scan_eq:
  assumes "set is \<subseteq> {..<length (ptable s)}"
    and "\<And>p. p \<in> set (ptable s) \<Longrightarrow> p_state p = RUNNABLE \<Longrightarrow> p_pgdir p \<noteq> 0"
  shows "scheduler_scan is s = (case find (\<lambda>i. p_state (ptable s ! i) = RUNNABLE) is of
       None \<Rightarrow> Ok None s
     | Some i \<Rightarrow> Ok (Some i) (s\<lparr>curproc := Some i,
         ptable := (ptable s)[i := (ptable s ! i)\<lparr>p_state := RUNNING\<rparr>]\<rparr>))"
  using assms by (induction "is") (auto simp: scheduler_pick_def upd_proc_def)

lemma scheduler_eq:
  assumes "LK_ptable \<notin> set (held s)"
    and "\<And>p. p \<in> set (ptable s) \<Longrightarrow> p_state p = RUNNABLE \<Longrightarrow> p_pgdir p \<noteq> 0"
  shows "scheduler s = (case find (\<lambda>i. p_state (ptable s ! i) = RUNNABLE) [0..<length (ptable s)] of
       None \<Rightarrow> Ok None s
     | Some i \<Rightarrow> Ok (Some i) (s\<lparr>held := LK_ptable # held s, curproc := Some i,
         ptable := (ptable s)[i := (ptable s ! i)\<lparr>p_state := RUNNING\<rparr>]\<rparr>))"
proof -
  let ?s = "s\<lparr>held := LK_ptable # held s\<rparr>"
  have "scheduler_scan [0..<length (ptable ?s)] ?s =
      (case find (\<lambda>i. p_state (ptable ?s ! i) = RUNNABLE) [0..<length (ptable ?s)] of
         None \<Rightarrow> Ok None ?s
       | Some i \<Rightarrow> Ok (Some i) (?s\<lparr>curproc := Some i,
           ptable := (ptable ?s)[i := (ptable ?s ! i)\<lparr>p_state := RUNNING\<rparr>]\<rparr>))"
    by (rule scheduler_scan_eq) (use assms(2) in auto)
  then show ?thesis using assms(1) by (simp add: scheduler_def scheduler_rest_def proc_ops split: option.split)
qed

lemma scheduler_scan_SomeD:
  assumes "scheduler_scan is s = Ok (Some i) k"
  shows "i \<in> set is" and "p_state (ptable s ! i) = RUNNABLE"
    and "k = s\<lparr>curproc := Some i, ptable := (ptable s)[i := (ptable s ! i)\<lparr>p_state := RUNNING\<rparr>]\<rparr>"
  using assms by (induction "is") (auto simp: scheduler_pick_def upd_proc_def split: if_splits)

lemma scheduler_SomeD:
  assumes "scheduler s = Ok (Some i) k"
  shows "i < length (ptable s)" and "p_state (ptable s ! i) = RUNNABLE"
    and "k = s\<lparr>held := LK_ptable # held s, curproc := Some i,
      ptable := (ptable s)[i := (ptable s ! i)\<lparr>p_state := RUNNING\<rparr>]\<rparr>"
proof -
  from assms have "scheduler_scan [0..<length (ptable s)] (s\<lparr>held := LK_ptable # held s\<rparr>) = Ok (Some i) k"
    by (auto simp: scheduler_def scheduler_rest_def proc_ops split: if_splits outcome.splits option.splits)
  from scheduler_scan_SomeD [OF this]
  show "i < length (ptable s)" and "p_state (ptable s ! i) = RUNNABLE"
    and "k = s\<lparr>held := LK_ptable # held s, curproc := Some i,
      ptable := (ptable s)[i := (ptable s ! i)\<lparr>p_state := RUNNING\<rparr>]\<rparr>" by auto
qed

lemma scheduler_scan_NoneD: "scheduler_scan is s = Ok None k \<Longrightarrow> k = s"
  by (induction "is") (auto simp: scheduler_pick_def upd_proc_def split: if_splits)

lemma scheduler_back_SomeD:
  assumes "scheduler_back j s = Ok (Some i) k"
  shows "j < i" and "i < length (ptable s)" and "p_state (ptable s ! i) = RUNNABLE"
    and "k = s\<lparr>curproc := Some i, ptable := (ptable s)[i := (ptable s ! i)\<lparr>p_state := RUNNING\<rparr>]\<rparr>"
proof -
  from assms have "scheduler_scan [Suc j..<length (ptable s)] (s\<lparr>curproc := None\<rparr>) = Ok (Some i) k"
    by (auto simp: scheduler_back_def scheduler_rest_def proc_ops split: if_splits outcome.splits option.splits)
  from scheduler_scan_SomeD [OF this]
  show "j < i" and "i < length (ptable s)" and "p_state (ptable s ! i) = RUNNABLE"
    and "k = s\<lparr>curproc := Some i, ptable := (ptable s)[i := (ptable s ! i)\<lparr>p_state := RUNNING\<rparr>]\<rparr>" by auto
qed

lemma scheduler_back_NoneD:
  assumes "scheduler_back j s = Ok None k"
  shows "k = s\<lparr>curproc := None, held := remove1 LK_ptable (held s)\<rparr>"
proof -
  from assms obtain t where "scheduler_scan [Suc j..<length (ptable s)] (s\<lparr>curproc := None\<rparr>) = Ok None t"
      and "thn (release LK_ptable) (ret None) t = Ok (None :: nat option) k"
    by (auto simp: scheduler_back_def scheduler_rest_def split: outcome.splits option.splits)
  with scheduler_scan_NoneD [OF this(1)] show ?thesis
    by (auto simp: proc_ops split: if_splits)
qed

lemma find_upt_Some:
  "find P [0..<n] = Some i \<longleftrightarrow> i < n \<and> P i \<and> (\<forall>j<i. \<not> P j)"
  by (auto simp: find_Some_iff)

section \<open>Several processors\<close>

text \<open>
  The table is shared by all processors, the variable \<open>proc\<close> is private to each. Every
  change of the table happens under its lock, so the sections under the lock are the steps.
  A step of processor \<open>c\<close> runs the routine with \<open>curproc\<close> set to what \<open>c\<close> runs. A process
  leaves the processor in \<open>yield\<close>, \<open>sleep\<close> or \<open>exit\<close> with the lock held; the scheduler
  goes on with the slot after it and either switches to another process, which releases the
  lock where it resumes (\<open>yield_resume\<close>, \<open>sleep_resume\<close>, \<open>forkret\<close>), or ends its pass and
  releases the lock itself. A processor without a process starts a pass at slot 0.
\<close>

record sysm =
  table :: kcore
  running :: "nat \<Rightarrow> nat option"

definition on_cpu :: "sysm \<Rightarrow> nat option \<Rightarrow> lock list \<Rightarrow> kcore" where
  "on_cpu m p hs = (table m)\<lparr>curproc := p, held := hs\<rparr>"

definition idle :: "kcore \<Rightarrow> kcore" where
  "idle k = k\<lparr>curproc := None, held := []\<rparr>"

inductive leaves :: "sysm \<Rightarrow> nat \<Rightarrow> kcore \<Rightarrow> bool" where
  leave_yield: "yield (on_cpu m (Some i) []) = Ok () k \<Longrightarrow> leaves m i k"
| leave_sleep: "sleep ch lk (on_cpu m (Some i) [lk]) = (Sleep ch' k :: (kcore, unit) outcome) \<Longrightarrow> leaves m i k"
| leave_exit: "exit_slot (on_cpu m (Some i) []) = Ok () k \<Longrightarrow> leaves m i k"

inductive resumes :: "kcore \<Rightarrow> kcore \<Rightarrow> bool" where
  resume_yield: "yield_resume k = Ok () k' \<Longrightarrow> resumes k k'"
| resume_sleep: "sleep_resume lk k = Ok () k' \<Longrightarrow> resumes k k'"

inductive sched_step :: "sysm \<Rightarrow> sysm \<Rightarrow> bool" where
  dispatch: "running m c = None \<Longrightarrow> scheduler (on_cpu m None []) = Ok (Some i) k \<Longrightarrow> resumes k k' \<Longrightarrow>
     sched_step m (m\<lparr>table := idle k', running := (running m)(c := curproc k')\<rparr>)"
| cpu_switch: "running m c = Some i \<Longrightarrow> leaves m i k \<Longrightarrow> scheduler_back i k = Ok (Some j) l \<Longrightarrow>
     resumes l k' \<Longrightarrow>
     sched_step m (m\<lparr>table := idle k', running := (running m)(c := curproc k')\<rparr>)"
| cpu_idle: "running m c = Some i \<Longrightarrow> leaves m i k \<Longrightarrow> scheduler_back i k = Ok None k' \<Longrightarrow>
     sched_step m (m\<lparr>table := idle k', running := (running m)(c := curproc k')\<rparr>)"
| cpu_wakeup: "wakeup ch (on_cpu m (running m c) []) = Ok () k \<Longrightarrow>
     sched_step m (m\<lparr>table := idle k\<rparr>)"
| cpu_kill: "kill pid (on_cpu m (running m c) []) = Ok r k \<Longrightarrow>
     sched_step m (m\<lparr>table := idle k\<rparr>)"
| cpu_alloc: "alloc_slot (on_cpu m (running m c) []) = Ok r k \<Longrightarrow>
     sched_step m (m\<lparr>table := idle k\<rparr>)"
| cpu_drop: "j < length (ptable (table m)) \<Longrightarrow> p_state (ptable (table m) ! j) = EMBRYO \<Longrightarrow>
     drop_slot j (on_cpu m (running m c) []) = Ok () k \<Longrightarrow>
     sched_step m (m\<lparr>table := idle k\<rparr>)"
| cpu_ready: "j < length (ptable (table m)) \<Longrightarrow> p_state (ptable (table m) ! j) = EMBRYO \<Longrightarrow>
     ready_slot j (on_cpu m (running m c) []) = Ok () k \<Longrightarrow>
     sched_step m (m\<lparr>table := idle k\<rparr>)"
| cpu_reap: "running m c = Some i \<Longrightarrow> j < length (ptable (table m)) \<Longrightarrow>
     p_parent (ptable (table m) ! j) = Some i \<Longrightarrow> p_state (ptable (table m) ! j) = ZOMBIE \<Longrightarrow>
     reap_slot j (on_cpu m (Some i) [LK_ptable]) = Ok () k \<Longrightarrow>
     sched_step m (m\<lparr>table := idle k\<rparr>)"

definition boot_table :: "sysm \<Rightarrow> bool" where
  "boot_table m \<longleftrightarrow> (\<forall>p\<in>set (ptable (table m)). p_state p = UNUSED) \<and> running m = (\<lambda>_. None)"

inductive sched_reachable :: "sysm \<Rightarrow> bool" where
  boot: "boot_table m \<Longrightarrow> sched_reachable m"
| step: "sched_reachable m \<Longrightarrow> sched_step m m' \<Longrightarrow> sched_reachable m'"

text \<open>
  A slot is in state \<open>RUNNING\<close> exactly when one processor runs it, no two processors run the
  same slot, and a sleeping slot has a channel.
\<close>

definition runs_ok :: "(nat \<Rightarrow> nat option) \<Rightarrow> proc list \<Rightarrow> bool" where
  "runs_ok r ps \<longleftrightarrow>
     (\<forall>c i. r c = Some i \<longrightarrow> i < length ps \<and> p_state (ps ! i) = RUNNING) \<and>
     (\<forall>i<length ps. p_state (ps ! i) = RUNNING \<longrightarrow> (\<exists>c. r c = Some i)) \<and>
     (\<forall>c d i. r c = Some i \<longrightarrow> r d = Some i \<longrightarrow> c = d) \<and>
     (\<forall>p\<in>set ps. p_state p = SLEEPING \<longrightarrow> p_chan p \<noteq> None)"

lemma runs_okI:
  assumes "\<And>c i. r c = Some i \<Longrightarrow> i < length ps \<and> p_state (ps ! i) = RUNNING"
    and "\<And>i. i < length ps \<Longrightarrow> p_state (ps ! i) = RUNNING \<Longrightarrow> \<exists>c. r c = Some i"
    and "\<And>c d i. r c = Some i \<Longrightarrow> r d = Some i \<Longrightarrow> c = d"
    and "\<And>i. i < length ps \<Longrightarrow> p_state (ps ! i) = SLEEPING \<Longrightarrow> p_chan (ps ! i) \<noteq> None"
  shows "runs_ok r ps"
  using assms by (simp add: runs_ok_def all_set_conv_all_nth)

lemma runs_okD:
  assumes "runs_ok r ps"
  shows "r c = Some i \<Longrightarrow> i < length ps" and "r c = Some i \<Longrightarrow> p_state (ps ! i) = RUNNING"
    and "i < length ps \<Longrightarrow> p_state (ps ! i) = RUNNING \<Longrightarrow> \<exists>c. r c = Some i"
    and "r c = Some i \<Longrightarrow> r d = Some i \<Longrightarrow> c = d"
    and "i < length ps \<Longrightarrow> p_state (ps ! i) = SLEEPING \<Longrightarrow> p_chan (ps ! i) \<noteq> None"
  using assms by (simp_all add: runs_ok_def all_set_conv_all_nth)

lemma runs_ok_pointwise:
  assumes "runs_ok r ps" and "length ps' = length ps"
    and "\<And>i. i < length ps \<Longrightarrow> p_state (ps' ! i) = RUNNING \<longleftrightarrow> p_state (ps ! i) = RUNNING"
    and "\<And>i. i < length ps \<Longrightarrow> p_state (ps' ! i) = SLEEPING \<Longrightarrow> p_chan (ps' ! i) \<noteq> None"
  shows "runs_ok r ps'"
  using assms by (intro runs_okI) (auto dest: runs_okD)

lemma runs_ok_stop:
  assumes ok: "runs_ok r ps" and c: "r c = Some i" and len: "length ps' = length ps"
    and i: "p_state (ps' ! i) \<noteq> RUNNING"
    and j: "\<And>j. j < length ps \<Longrightarrow> j \<noteq> i \<Longrightarrow> p_state (ps' ! j) = RUNNING \<longleftrightarrow> p_state (ps ! j) = RUNNING"
    and ch: "\<And>j. j < length ps \<Longrightarrow> p_state (ps' ! j) = SLEEPING \<Longrightarrow> p_chan (ps' ! j) \<noteq> None"
  shows "runs_ok (r(c := None)) ps'"
proof (rule runs_okI)
  fix d k assume d: "(r(c := None)) d = Some k"
  then have "d \<noteq> c" "r d = Some k" by (auto split: if_splits)
  then show "k < length ps' \<and> p_state (ps' ! k) = RUNNING"
    using runs_okD [OF ok] j [of k] c len by metis
next
  fix k assume "k < length ps'" "p_state (ps' ! k) = RUNNING"
  then show "\<exists>d. (r(c := None)) d = Some k"
    using runs_okD(3) [OF ok, of k] i j [of k] c len by (metis fun_upd_other option.inject)
qed (use runs_okD(4) [OF ok] ch len in \<open>auto split: if_splits\<close>)

lemma runs_ok_start:
  assumes ok: "runs_ok r ps" and c: "r c = None" and len: "length ps' = length ps" and i: "i < length ps"
    and st: "p_state (ps ! i) \<noteq> RUNNING" "p_state (ps' ! i) = RUNNING"
    and j: "\<And>j. j < length ps \<Longrightarrow> j \<noteq> i \<Longrightarrow> ps' ! j = ps ! j"
  shows "runs_ok (r(c := Some i)) ps'"
proof (rule runs_okI)
  fix d k assume "(r(c := Some i)) d = Some k"
  then show "k < length ps' \<and> p_state (ps' ! k) = RUNNING"
    using runs_okD(1,2) [OF ok, of d k] j [of k] i len st by (auto split: if_splits) (metis)
next
  fix k assume "k < length ps'" "p_state (ps' ! k) = RUNNING"
  then show "\<exists>d. (r(c := Some i)) d = Some k"
    using runs_okD(3) [OF ok, of k] j [of k] c len by (metis fun_upd_apply option.distinct(1))
next
  fix d e k assume "(r(c := Some i)) d = Some k" "(r(c := Some i)) e = Some k"
  then show "d = e"
    using runs_okD(2,4) [OF ok] st by (auto split: if_splits)
next
  fix k assume "k < length ps'" "p_state (ps' ! k) = SLEEPING"
  then show "p_chan (ps' ! k) \<noteq> None"
    using runs_okD(5) [OF ok, of k] j [of k] len st by (cases "k = i") auto
qed

text \<open>The loop of \<open>exit\<close> changes parents and wakes sleepers; no slot starts or stops running.\<close>

definition same_runs :: "proc list \<Rightarrow> proc list \<Rightarrow> bool" where
  "same_runs ps ps' \<longleftrightarrow> length ps' = length ps \<and>
     (\<forall>i<length ps. (p_state (ps' ! i) = RUNNING \<longleftrightarrow> p_state (ps ! i) = RUNNING) \<and>
        (p_state (ps' ! i) = SLEEPING \<longrightarrow> p_state (ps ! i) = SLEEPING) \<and>
        p_chan (ps' ! i) = p_chan (ps ! i))"

lemma same_runs_refl: "same_runs ps ps"
  by (simp add: same_runs_def)

lemma same_runs_trans: "same_runs ps qs \<Longrightarrow> same_runs qs rs \<Longrightarrow> same_runs ps rs"
  by (simp add: same_runs_def)

lemma same_runs_wake:
  "same_runs ps (map (\<lambda>p. if p_state p = SLEEPING \<and> p_chan p = ch then p\<lparr>p_state := RUNNABLE\<rparr> else p) ps)"
  by (simp add: same_runs_def)

lemma same_runs_parent: "same_runs ps (ps[j := (ps ! j)\<lparr>p_parent := q\<rparr>])"
  by (cases "j < length ps") (auto simp: same_runs_def nth_list_update)

definition table_only :: "(proc list \<Rightarrow> proc list \<Rightarrow> bool) \<Rightarrow> 'z kcore_scheme \<Rightarrow> 'z kcore_scheme \<Rightarrow> bool" where
  "table_only R s t \<longleftrightarrow> R (ptable s) (ptable t) \<and> t = s\<lparr>ptable := ptable t\<rparr>"

lemma reparent_Ok: "\<exists>t. reparent i j s = Ok () t \<and> table_only same_runs s t"
proof (cases "p_parent (ptable s ! j) = Some i")
  case True
  have "same_runs (ptable s) (map (\<lambda>p. if p_state p = SLEEPING \<and> p_chan p = map_option CH_proc (initproc s)
      then p\<lparr>p_state := RUNNABLE\<rparr> else p) ((ptable s)[j := (ptable s ! j)\<lparr>p_parent := initproc s\<rparr>]))"
    by (rule same_runs_trans [OF same_runs_parent same_runs_wake])
  with True show ?thesis
    by (simp add: reparent_def upd_proc_def wakeup1_def table_only_def same_runs_parent)
next
  case False
  then show ?thesis by (simp add: reparent_def table_only_def same_runs_refl)
qed

lemma reparent_all: "\<exists>t. for_each js (reparent i) s = Ok () t \<and> table_only same_runs s t"
proof (induction js arbitrary: s)
  case Nil
  then show ?case by (simp add: table_only_def same_runs_refl)
next
  case (Cons j js)
  obtain t where t: "reparent i j s = Ok () t" "table_only same_runs s t" using reparent_Ok by blast
  obtain u where u: "for_each js (reparent i) t = Ok () u" "table_only same_runs t u" using Cons.IH by blast
  have "table_only same_runs s u"
    using t(2) u(2) unfolding table_only_def by (metis kcore.surjective kcore.update_convs(2) same_runs_trans)
  with t(1) u(1) show ?case by simp
qed

lemma exit_slot_Ok:
  assumes "held s = []" and "curproc s = Some i" and "i < length (ptable s)"
  shows "\<exists>ps. same_runs (ptable s) ps \<and> exit_slot s = Ok () (s\<lparr>held := [LK_ptable], curproc := None,
     ptable := ps[i := (ps ! i)\<lparr>p_state := ZOMBIE\<rparr>]\<rparr>)"
proof -
  let ?w = "map (\<lambda>p. if p_state p = SLEEPING \<and> p_chan p = map_option CH_proc (p_parent (ptable s ! i))
      then p\<lparr>p_state := RUNNABLE\<rparr> else p) (ptable s)"
  let ?s = "s\<lparr>held := [LK_ptable], ptable := ?w\<rparr>"
  obtain t where t: "for_each [0..<length (ptable s)] (reparent i) ?s = Ok () t"
      and r: "table_only same_runs ?s t"
    using reparent_all by blast
  define ps where "ps = ptable t"
  from r have tt: "t = ?s\<lparr>ptable := ps\<rparr>" and ps: "same_runs ?w ps"
    by (simp_all add: table_only_def ps_def)
  from ps have "same_runs (ptable s) ps" by (rule same_runs_trans [OF same_runs_wake])
  moreover from this have "length ps = length (ptable s)" by (simp add: same_runs_def)
  ultimately show ?thesis
    using assms t tt by (intro exI [of _ ps]) (simp add: exit_slot_def wakeup1_def proc_ops)
qed

lemma runs_ok_same:
  assumes "runs_ok r ps" and "same_runs ps qs"
  shows "runs_ok r qs"
  using assms by (intro runs_ok_pointwise [OF assms(1)]) (auto simp: same_runs_def dest: runs_okD(5))

lemma runs_ok_update:
  assumes "runs_ok r ps" and "j < length ps"
    and "p_state p = RUNNING \<longleftrightarrow> p_state (ps ! j) = RUNNING" and "p_state p \<noteq> SLEEPING \<or> p_chan p \<noteq> None"
  shows "runs_ok r (ps[j := p])"
  using assms by (intro runs_ok_pointwise [OF assms(1)])
    (auto simp: nth_list_update dest: runs_okD(5) split: if_splits)

lemma runs_ok_leave:
  assumes "runs_ok r ps" and "r c = Some i" and "same_runs ps qs"
    and "p_state p \<noteq> RUNNING" and "p_state p \<noteq> SLEEPING \<or> p_chan p \<noteq> None"
  shows "runs_ok (r(c := None)) (qs[i := p])"
proof (rule runs_ok_stop [OF assms(1,2)])
  have i: "i < length ps" by (rule runs_okD(1) [OF assms(1,2)])
  then show "p_state (qs[i := p] ! i) \<noteq> RUNNING" using assms(3,4) by (simp add: same_runs_def)
  show "p_chan (qs[i := p] ! j) \<noteq> None" if "j < length ps" "p_state (qs[i := p] ! j) = SLEEPING" for j
    using that assms(3,5) i runs_okD(5) [OF assms(1), of j]
    by (auto simp: same_runs_def nth_list_update split: if_splits)
qed (use assms(3) in \<open>auto simp: same_runs_def\<close>)

lemma runs_ok_enter:
  assumes "runs_ok r ps" and "r c = None" and "i < length ps" and "p_state (ps ! i) \<noteq> RUNNING"
    and "p_state p = RUNNING"
  shows "runs_ok (r(c := Some i)) (ps[i := p])"
  by (rule runs_ok_start [OF assms(1,2)]) (use assms(3-5) in auto)

lemma sleep_resume_Ok:
  assumes "held s = [LK_ptable]" and "curproc s = Some i" and "i < length (ptable s)"
  shows "sleep_resume lk s = Ok () (s\<lparr>held := [lk],
     ptable := (ptable s)[i := (ptable s ! i)\<lparr>p_chan := None\<rparr>]\<rparr>)"
  using assms by (cases "lk = LK_ptable") (simp_all add: sleep_resume_def proc_ops)

definition sysm_ok :: "sysm \<Rightarrow> bool" where
  "sysm_ok m \<longleftrightarrow> runs_ok (running m) (ptable (table m))"

lemmas sysm_simps = sysm_ok_def on_cpu_def idle_def

lemma resumes_Ok:
  assumes "resumes k k'" and "held k = [LK_ptable]" and "curproc k = Some i" and "i < length (ptable k)"
  shows "curproc k' = Some i" and
    "ptable k' = ptable k \<or> ptable k' = (ptable k)[i := (ptable k ! i)\<lparr>p_chan := None\<rparr>]"
  using assms by (auto simp: yield_resume_def release_def sleep_resume_Ok elim!: resumes.cases)

lemma runs_ok_resumes:
  assumes "runs_ok r ps" and "r c = None" and "i < length ps" and "p_state (ps ! i) = RUNNABLE"
    and "resumes k k'" and "held k = [LK_ptable]" and "curproc k = Some i"
    and "ptable k = ps[i := (ps ! i)\<lparr>p_state := RUNNING\<rparr>]"
  shows "runs_ok (r(c := curproc k')) (ptable k')"
  using resumes_Ok [OF assms(5-7)] assms(1-4,8) by (auto intro!: runs_ok_enter)

lemma leaves_Ok:
  assumes "runs_ok (running m) (ptable (table m))" and "running m c = Some i" and "leaves m i k"
  shows "runs_ok ((running m)(c := None)) (ptable k)" and "held k = [LK_ptable]"
proof -
  have i: "i < length (ptable (table m))" using assms(1,2) by (auto dest: runs_okD(1))
  from assms(3) have "runs_ok ((running m)(c := None)) (ptable k) \<and> held k = [LK_ptable]"
  proof cases
    case leave_yield
    with i assms(1,2) show ?thesis
      by (auto simp: on_cpu_def yield_Ok intro!: runs_ok_leave same_runs_refl)
  next
    case (leave_sleep ch lk ch')
    with i assms(1,2) show ?thesis
      by (auto simp: on_cpu_def sleep_Sleep intro!: runs_ok_leave same_runs_refl)
  next
    case leave_exit
    with i assms(1,2) exit_slot_Ok [of "on_cpu m (Some i) []" i] show ?thesis
      by (auto simp: on_cpu_def intro!: runs_ok_leave)
  qed
  then show "runs_ok ((running m)(c := None)) (ptable k)" and "held k = [LK_ptable]" by auto
qed

lemma sysm_ok_step: "sched_step m m' \<Longrightarrow> sysm_ok m \<Longrightarrow> sysm_ok m'"
proof (induction rule: sched_step.induct)
  case (dispatch m c i k k')
  note D = scheduler_SomeD [OF dispatch.hyps(2)]
  have "runs_ok ((running m)(c := curproc k')) (ptable k')"
    using dispatch.prems dispatch.hyps(1,3) D
    by (intro runs_ok_resumes [of "running m" "ptable (table m)" c i k k'])
      (auto simp: sysm_simps)
  then show ?case by (simp add: sysm_simps)
next
  case (cpu_switch m c i k j l k')
  note L = leaves_Ok [OF cpu_switch.prems [unfolded sysm_ok_def] cpu_switch.hyps(1,2)]
  note D = scheduler_back_SomeD [OF cpu_switch.hyps(3)]
  have "runs_ok ((running m)(c := None, c := curproc k')) (ptable k')"
    using L D cpu_switch.hyps(4) by (intro runs_ok_resumes [of _ "ptable k" c j l k']) auto
  then show ?case by (simp add: sysm_simps)
next
  case (cpu_idle m c i k k')
  with leaves_Ok [OF cpu_idle.prems [unfolded sysm_ok_def] cpu_idle.hyps(1,2)]
    scheduler_back_NoneD [OF cpu_idle.hyps(3)]
  show ?case by (simp add: sysm_simps)
next
  case (cpu_wakeup ch m c k)
  then show ?case by (auto simp: sysm_simps wakeup_Ok intro!: runs_ok_same [OF _ same_runs_wake])
next
  case (cpu_kill pid m c r k)
  then show ?case
    by (auto simp: sysm_simps kill_Ok find_idx_Some intro!: runs_ok_update split: option.splits)
next
  case (cpu_alloc m c r k)
  then show ?case
    by (auto simp: sysm_simps alloc_slot_Ok find_idx_Some intro!: runs_ok_update split: option.splits)
next
  case (cpu_drop j m c k)
  then show ?case by (auto simp: sysm_simps drop_slot_def upd_proc_def intro!: runs_ok_update)
next
  case (cpu_ready j m c k)
  then show ?case by (auto simp: sysm_simps ready_slot_def proc_ops intro!: runs_ok_update)
next
  case (cpu_reap m c i j k)
  then show ?case by (auto simp: sysm_simps reap_slot_def upd_proc_def intro!: runs_ok_update)
qed

lemma sched_reachable_ok: "sched_reachable m \<Longrightarrow> sysm_ok m"
proof (induction rule: sched_reachable.induct)
  case (boot m)
  then show ?case by (auto simp: sysm_ok_def boot_table_def runs_ok_def all_set_conv_all_nth)
qed (blast intro: sysm_ok_step)

section \<open>Locks: from all processors to one\<close>

text \<open>
  \<open>views c m hs\<close>: processor \<open>c\<close>, which is not in the middle of a lock operation of the
  system \<open>m\<close> of \<^verbatim>\<open>spinlock.c\<close>, owns exactly the locks in the list \<open>hs\<close>.
\<close>

definition views :: "nat \<Rightarrow> smp \<Rightarrow> lock list \<Rightarrow> bool" where
  "views c m hs \<longleftrightarrow> pcs m c = Running \<and> distinct hs \<and> set hs = owned m c"

lemma views_holding:
  assumes "lock_inv m" and "views c m hs"
  shows "holding c (locks m l) \<longleftrightarrow> l \<in> set hs"
  using assms by (auto simp: views_def holding_def owned_def owns_def dest: lock_inv_locked)

lemma owned_locks_upd:
  assumes "pcs m c = Running"
  shows "owned (m\<lparr>locks := (locks m)(l := lk), cpus := k\<rparr>) c =
     (if lk_cpu lk = Some c then insert l (owned m c) else owned m c - {l})"
  using assms by (auto simp: owned_def owns_def)

lemma acquire_refines:
  assumes "lock_inv m" and "views c m (held s)"
  shows "(case acquire l s of
      Panic e \<Rightarrow> acquire_alone c ps (locks m l) (cpus m c) = Some (Inl e)
    | Ok a t \<Rightarrow> \<forall>r. acquire_alone c ps (locks m l) (cpus m c) = Some r \<longrightarrow>
        (\<exists>lk k. r = Inr (lk, k) \<and> views c (m\<lparr>locks := (locks m)(l := lk), cpus := (cpus m)(c := k)\<rparr>) (held t))
    | _ \<Rightarrow> False)"
proof (cases "l \<in> set (held s)")
  case True
  with views_holding [OF assms] show ?thesis by (simp add: acquire_def acquire_alone_def acquire_enter_def Let_def)
next
  case False
  then have "\<not> holding c (locks m l)" by (simp add: views_holding [OF assms])
  with False assms(2) show ?thesis
    by (auto simp: acquire_def acquire_alone_def acquire_enter_def Let_def xchg_def views_def
      owned_locks_upd acquire_record_def split: if_splits)
qed

lemma release_refines:
  assumes "lock_inv m" and "cli_ok m c" and "views c m (held s)"
  shows "(case release l s of
      Panic e \<Rightarrow> release_alone c (locks m l) (cpus m c) = Inl e
    | Ok a t \<Rightarrow> \<exists>lk k. release_alone c (locks m l) (cpus m c) = Inr (lk, k) \<and>
        views c (m\<lparr>locks := (locks m)(l := lk), cpus := (cpus m)(c := k)\<rparr>) (held t)
    | _ \<Rightarrow> False)"
proof (cases "l \<in> set (held s)")
  case False
  with views_holding [OF assms(1,3)] show ?thesis
    by (simp add: release_def release_alone_def release_enter_def)
next
  case True
  then have h: "holding c (locks m l)" by (simp add: views_holding [OF assms(1,3)])
  from True assms(3) have "0 < card (owned m c)" and r: "pcs m c = Running"
    by (auto simp: views_def card_gt_0_iff finite_locks)
  with assms(2) have "\<not> if_flag (cpus m c)" and "0 < ncli (cpus m c)"
    by (auto simp: cli_ok_def depth_def)
  then have "\<exists>k. popcli (cpus m c) = Inr k" by (auto simp: popcli_def Let_def)
  then obtain k where k: "popcli (cpus m c) = Inr k" ..
  from True h k r assms(3) show ?thesis
    by (auto simp: release_def release_alone_def release_enter_def xchg_def views_def owned_locks_upd
      set_remove1_eq)
qed

section \<open>A run of the system\<close>

text \<open>A table of two slots, of which the first becomes a process that the processor 0 runs.\<close>

definition proc0 :: proc where
  "proc0 = \<lparr>p_sz = 0, p_pgdir = 0x80100000, p_kstack = 0, p_state = UNUSED, p_pid = 0, p_parent = None,
     p_tf = \<lparr>tf_edi = 0, tf_esi = 0, tf_ebp = 0, tf_oesp = 0, tf_ebx = 0, tf_edx = 0, tf_ecx = 0,
       tf_eax = 0, tf_gs = 0, tf_fs = 0, tf_es = 0, tf_ds = 0, tf_trapno = 0, tf_err = 0,
       tf_eip = 0, tf_cs = 0, tf_eflags = 0, tf_esp = 0, tf_ss = 0\<rparr>,
     p_context = \<lparr>cx_edi = 0, cx_esi = 0, cx_ebx = 0, cx_ebp = 0, cx_eip = 0\<rparr>,
     p_chan = None, p_killed = False, p_ofile = replicate NOFILE None, p_cwd = None, p_name = [],
     p_type = 0\<rparr>"

lemma proc0_simps [simp]:
  "p_state proc0 = UNUSED" "p_pgdir proc0 = 0x80100000" "p_pid proc0 = 0" "p_chan proc0 = None"
  "p_parent proc0 = None" "p_killed proc0 = False" "p_ofile proc0 = replicate 16 None"
  "p_sz proc0 = 0" "p_cwd proc0 = None" "p_type proc0 = 0"
  by (simp_all add: proc0_def)

lemma proc_update_order: "p\<lparr>p_state := a, p_pid := b\<rparr> = p\<lparr>p_pid := b, p_state := a\<rparr>"
  by simp

definition kcore0 :: "proc list \<Rightarrow> kcore" where
  "kcore0 ps = \<lparr>held = [], ptable = ps, curproc = None, initproc = Some 0, nextpid = 1, ticks = 0, klog = []\<rparr>"

definition demo_run :: sysm where
  "demo_run = \<lparr>table = (kcore0 [proc0\<lparr>p_state := RUNNING, p_pid := 1\<rparr>, proc0])\<lparr>nextpid := 2\<rparr>,
     running = (\<lambda>_. None)(0 := Some 0)\<rparr>"

lemma demo_reachable: "sched_reachable demo_run"
proof -
  let ?m = "\<lambda>p n. \<lparr>table = (kcore0 [p, proc0])\<lparr>nextpid := n\<rparr>, running = (\<lambda>_. None)\<rparr>"
  note defs = kcore0_def on_cpu_def idle_def proc_update_order
  have "sched_reachable (?m proc0 1)"
    by (rule sched_reachable.boot) (simp add: boot_table_def defs)
  moreover have "sched_step (?m proc0 1) (?m (proc0\<lparr>p_state := EMBRYO, p_pid := 1\<rparr>) 2)"
    using cpu_alloc [of "?m proc0 1" 0] by (simp add: alloc_slot_Ok defs)
  ultimately have "sched_reachable (?m (proc0\<lparr>p_state := EMBRYO, p_pid := 1\<rparr>) 2)"
    by (rule sched_reachable.step)
  moreover have "sched_step (?m (proc0\<lparr>p_state := EMBRYO, p_pid := 1\<rparr>) 2)
      (?m (proc0\<lparr>p_state := RUNNABLE, p_pid := 1\<rparr>) 2)"
    using cpu_ready [of 0 "?m (proc0\<lparr>p_state := EMBRYO, p_pid := 1\<rparr>) 2" 0]
    by (simp add: ready_slot_def proc_ops defs)
  ultimately have "sched_reachable (?m (proc0\<lparr>p_state := RUNNABLE, p_pid := 1\<rparr>) 2)"
    by (rule sched_reachable.step)
  moreover have "sched_step (?m (proc0\<lparr>p_state := RUNNABLE, p_pid := 1\<rparr>) 2) demo_run"
  proof -
    let ?p = "kcore0 [proc0\<lparr>p_state := RUNNING, p_pid := 1\<rparr>, proc0]"
    have sch: "scheduler (on_cpu (?m (proc0\<lparr>p_state := RUNNABLE, p_pid := 1\<rparr>) 2) None []) =
        Ok (Some 0) (?p\<lparr>nextpid := 2, held := [LK_ptable], curproc := Some 0\<rparr>)"
      by (simp add: scheduler_def scheduler_rest_def scheduler_pick_def proc_ops defs)
    have res: "yield_resume (?p\<lparr>nextpid := 2, held := [LK_ptable], curproc := Some 0\<rparr>) =
        Ok () (?p\<lparr>nextpid := 2, curproc := Some 0\<rparr>)"
      by (simp add: yield_resume_def release_def defs)
    have "sched_step (?m (proc0\<lparr>p_state := RUNNABLE, p_pid := 1\<rparr>) 2)
        ((?m (proc0\<lparr>p_state := RUNNABLE, p_pid := 1\<rparr>) 2)
          \<lparr>table := idle (?p\<lparr>nextpid := 2, curproc := Some 0\<rparr>),
           running := (\<lambda>_. None)(0 := curproc (?p\<lparr>nextpid := 2, curproc := Some 0\<rparr>))\<rparr>)"
      using dispatch [OF _ sch resume_yield [OF res], of 0] by (simp only: sysm.simps refl simp_thms)
    then show ?thesis by (simp add: defs demo_run_def)
  qed
  ultimately show ?thesis by (rule sched_reachable.step)
qed

section \<open>Properties\<close>

text \<open>
  C3. The lock operations of one processor refine those of \<^verbatim>\<open>spinlock.c\<close>. When the list of
  held locks is what the processor owns, then \<open>acquire\<close> panics only where the routine of
  \<^verbatim>\<open>spinlock.c\<close> does, and whenever that one gets the lock the list is again what the
  processor owns. A \<open>release\<close> of a held lock always completes (its \<open>popcli\<close> never panics)
  and leaves the list right; of any other lock it panics on both levels.
\<close>

theorem acquire_release_refine:
  assumes "smp_reachable m" and "views c m (held s)"
  shows "(case acquire l s of
      Panic e \<Rightarrow> acquire_alone c ps (locks m l) (cpus m c) = Some (Inl e)
    | Ok a t \<Rightarrow> \<forall>r. acquire_alone c ps (locks m l) (cpus m c) = Some r \<longrightarrow>
        (\<exists>lk k. r = Inr (lk, k) \<and> views c (m\<lparr>locks := (locks m)(l := lk), cpus := (cpus m)(c := k)\<rparr>) (held t))
    | _ \<Rightarrow> False) \<and>
    (case release l s of
      Panic e \<Rightarrow> release_alone c (locks m l) (cpus m c) = Inl e
    | Ok a t \<Rightarrow> \<exists>lk k. release_alone c (locks m l) (cpus m c) = Inr (lk, k) \<and>
        views c (m\<lparr>locks := (locks m)(l := lk), cpus := (cpus m)(c := k)\<rparr>) (held t)
    | _ \<Rightarrow> False)"
  using smp_reachable_inv [OF assms(1)] assms(2)
  by (intro conjI acquire_refines release_refines) auto

theorem acquire_release_refine_witness:
  "acquire LK_ide (kcore0 []) = Ok () ((kcore0 [])\<lparr>held := [LK_ide]\<rparr>) \<and>
   views 0 smp_boot (held (kcore0 [])) \<and>
   (\<exists>lk k. acquire_alone 0 [] (locks smp_boot LK_ide) (cpus smp_boot 0) = Some (Inr (lk, k)) \<and>
      views 0 (smp_boot\<lparr>locks := (locks smp_boot)(LK_ide := lk), cpus := (cpus smp_boot)(0 := k)\<rparr>) [LK_ide])"
proof -
  have r: "smp_reachable smp_boot"
    by (rule smp_reachable.boot) (simp add: boot_locks_def smp_boot_def)
  have v: "views 0 smp_boot (held (kcore0 []))"
    by (simp add: views_def kcore0_def owned_def owns_def smp_boot_def)
  have a: "acquire LK_ide (kcore0 []) = Ok () ((kcore0 [])\<lparr>held := [LK_ide]\<rparr>)"
    by (simp add: acquire_def kcore0_def)
  have "\<exists>x. acquire_alone 0 [] (locks smp_boot LK_ide) (cpus smp_boot 0) = Some x"
    by (simp add: acquire_alone_def acquire_enter_def holding_def xchg_def smp_boot_def Let_def)
  with acquire_release_refine [OF r v, where l = LK_ide and ps = "[]"] a v show ?thesis by auto
qed

text \<open>
  C4. A process runs on one processor. In every state that the processors reach by dispatching,
  yielding, sleeping, exiting, waking, killing, allocating, starting and reaping in any order,
  a slot is in state \<open>RUNNING\<close> exactly when a processor runs it, that processor is unique, and
  every sleeping slot has the channel that a wakeup can find it by.
\<close>

theorem one_processor_per_process:
  assumes "sched_reachable m"
  shows "(\<forall>i<length (ptable (table m)). p_state (ptable (table m) ! i) = RUNNING \<longleftrightarrow> (\<exists>!c. running m c = Some i)) \<and>
     (\<forall>c i. running m c = Some i \<longrightarrow> i < length (ptable (table m))) \<and>
     (\<forall>p\<in>set (ptable (table m)). p_state p = SLEEPING \<longrightarrow> p_chan p \<noteq> None)"
proof -
  have ok: "runs_ok (running m) (ptable (table m))"
    using sched_reachable_ok [OF assms] by (simp add: sysm_ok_def)
  have "p_state (ptable (table m) ! i) = RUNNING \<longleftrightarrow> (\<exists>!c. running m c = Some i)"
    if "i < length (ptable (table m))" for i
    using that runs_okD(2) [OF ok, of _ i] runs_okD(3) [OF ok, of i] runs_okD(4) [OF ok, of _ i] by metis
  moreover have "\<forall>p\<in>set (ptable (table m)). p_state p = SLEEPING \<longrightarrow> p_chan p \<noteq> None"
    using ok by (simp add: runs_ok_def)
  ultimately show ?thesis using runs_okD(1) [OF ok] by blast
qed

theorem one_processor_per_process_witness:
  "\<exists>!c. running demo_run c = Some 0"
  using one_processor_per_process [OF demo_reachable] by (auto simp: demo_run_def kcore0_def)

text \<open>
  C5. Sleep and wakeup. A process that goes to sleep on a channel with the lock \<open>lk\<close> held leaves
  the processor with the lock of the table held and \<open>lk\<close> released; a later wakeup on the channel
  makes it runnable, changes no process that does not sleep on that channel, and when the
  scheduler runs it again \<open>sleep\<close> returns with exactly \<open>lk\<close> held, running and off the channel.
\<close>

theorem sleep_wakeup_roundtrip:
  assumes "held s = [lk]" and "curproc s = Some i" and "i < length (ptable s)"
    and "sleep ch lk s = (Sleep ch t :: ('z kcore_scheme, unit) outcome)" and "wakeup ch (t\<lparr>held := []\<rparr>) = Ok () u"
    and "scheduler_pick i (u\<lparr>held := [LK_ptable]\<rparr>) = Ok b v" and "sleep_resume lk v = Ok () w"
  shows "held t = [LK_ptable] \<and> p_state (ptable t ! i) = SLEEPING \<and> p_state (ptable u ! i) = RUNNABLE \<and>
     (\<forall>j<length (ptable s). j \<noteq> i \<longrightarrow> p_state (ptable s ! j) = SLEEPING \<and> p_chan (ptable s ! j) = Some ch \<or>
        ptable u ! j = ptable s ! j) \<and>
     held w = [lk] \<and> curproc w = Some i \<and> p_state (ptable w ! i) = RUNNING \<and> p_chan (ptable w ! i) = None"
proof -
  have t: "t = s\<lparr>held := [LK_ptable], curproc := None,
      ptable := (ptable s)[i := (ptable s ! i)\<lparr>p_chan := Some ch, p_state := SLEEPING\<rparr>]\<rparr>"
    using assms(4) unfolding sleep_Sleep [OF assms(1-3)] by simp
  have u: "u = t\<lparr>held := [], ptable := map (\<lambda>p.
      if p_state p = SLEEPING \<and> p_chan p = Some ch then p\<lparr>p_state := RUNNABLE\<rparr> else p) (ptable t)\<rparr>"
    using wakeup_Ok [of "t\<lparr>held := []\<rparr>" ch] assms(5) by simp
  have v: "v = u\<lparr>held := [LK_ptable], curproc := Some i,
      ptable := (ptable u)[i := (ptable u ! i)\<lparr>p_state := RUNNING\<rparr>]\<rparr>"
    using assms(3,6) t u by (auto simp: scheduler_pick_def upd_proc_def split: if_splits)
  then have "sleep_resume lk v = Ok () (v\<lparr>held := [lk],
      ptable := (ptable v)[i := (ptable v ! i)\<lparr>p_chan := None\<rparr>]\<rparr>)"
    using assms(3) t u by (intro sleep_resume_Ok) auto
  then show ?thesis using assms(3,7) t u v by auto
qed

theorem sleep_wakeup_roundtrip_witness:
  "\<exists>t u v w. let s = (kcore0 [proc0\<lparr>p_state := RUNNING, p_pid := 1\<rparr>])\<lparr>held := [LK_ide], curproc := Some 0\<rparr> in
     sleep (CH_buf 3) LK_ide s = (Sleep (CH_buf 3) t :: (kcore, unit) outcome) \<and>
     wakeup (CH_buf 3) (t\<lparr>held := []\<rparr>) = Ok () u \<and>
     scheduler_pick 0 (u\<lparr>held := [LK_ptable]\<rparr>) = Ok True v \<and> sleep_resume LK_ide v = Ok () w \<and>
     p_state (ptable u ! 0) = RUNNABLE \<and> held w = [LK_ide]"
proof -
  let ?s = "(kcore0 [proc0\<lparr>p_state := RUNNING, p_pid := 1\<rparr>])\<lparr>held := [LK_ide], curproc := Some 0\<rparr>"
  let ?t = "?s\<lparr>held := [LK_ptable], curproc := None,
      ptable := [proc0\<lparr>p_chan := Some (CH_buf 3), p_state := SLEEPING, p_pid := 1\<rparr>]\<rparr>"
  let ?u = "?t\<lparr>held := [], ptable := [proc0\<lparr>p_chan := Some (CH_buf 3), p_state := RUNNABLE, p_pid := 1\<rparr>]\<rparr>"
  let ?v = "?u\<lparr>held := [LK_ptable], curproc := Some 0,
      ptable := [proc0\<lparr>p_chan := Some (CH_buf 3), p_state := RUNNING, p_pid := 1\<rparr>]\<rparr>"
  let ?w = "?v\<lparr>held := [LK_ide], ptable := [proc0\<lparr>p_chan := None, p_state := RUNNING, p_pid := 1\<rparr>]\<rparr>"
  note defs = kcore0_def proc_update_order
  have t: "sleep (CH_buf 3) LK_ide ?s = (Sleep (CH_buf 3) ?t :: (kcore, unit) outcome)"
    by (simp add: sleep_Sleep defs)
  have u: "wakeup (CH_buf 3) (?t\<lparr>held := []\<rparr>) = Ok () ?u" by (simp add: wakeup_Ok defs)
  have v: "scheduler_pick 0 (?u\<lparr>held := [LK_ptable]\<rparr>) = Ok True ?v"
    by (simp add: scheduler_pick_def upd_proc_def defs)
  have w: "sleep_resume LK_ide ?v = Ok () ?w" by (simp add: sleep_resume_Ok defs)
  have "p_state (ptable ?u ! 0) = RUNNABLE \<and> held ?w = [LK_ide]"
    using sleep_wakeup_roundtrip [OF _ _ _ t u v w] by (simp add: kcore0_def)
  with t u v w show ?thesis unfolding Let_def by blast
qed

interpretation procs: slot_table "\<lambda>p. p_state p = UNUSED" "\<lambda>p. p\<lparr>p_state := EMBRYO, p_pid := n\<rparr>" for n
  by unfold_locales simp

text \<open>
  C6. Slot allocation. \<open>alloc_slot\<close>, the locked part of \<open>allocproc\<close>, gives out the first unused
  slot with the next pid, uses up exactly one unused slot, leaves all other slots alone, and
  fails exactly when no slot is unused; the table's lock is free again in every case.
\<close>

theorem alloc_slot_first_unused:
  assumes "LK_ptable \<notin> set (held s)"
  shows "\<exists>r t. alloc_slot s = Ok r t \<and> held t = held s \<and>
     (case r of
        None \<Rightarrow> t = s \<and> (\<forall>p\<in>set (ptable s). p_state p \<noteq> UNUSED)
      | Some i \<Rightarrow> i < length (ptable s) \<and> p_state (ptable s ! i) = UNUSED \<and>
          (\<forall>j<i. p_state (ptable s ! j) \<noteq> UNUSED) \<and>
          p_state (ptable t ! i) = EMBRYO \<and> p_pid (ptable t ! i) = nextpid s \<and> nextpid t = nextpid s + 1 \<and>
          (\<forall>j. j \<noteq> i \<longrightarrow> ptable t ! j = ptable s ! j) \<and>
          Suc (length (filter (\<lambda>p. p_state p = UNUSED) (ptable t))) =
            length (filter (\<lambda>p. p_state p = UNUSED) (ptable s)))"
proof (cases "find_idx (\<lambda>p. p_state p = UNUSED) (ptable s)")
  case None
  have "alloc_slot s = Ok None s" by (simp add: alloc_slot_Ok [OF assms] None)
  moreover have "\<forall>p\<in>set (ptable s). p_state p \<noteq> UNUSED" using None by (simp add: find_idx_None)
  ultimately show ?thesis by simp
next
  case (Some i)
  note D = find_idx_SomeD [OF Some]
  let ?t = "s\<lparr>ptable := (ptable s)[i := (ptable s ! i)\<lparr>p_state := EMBRYO, p_pid := nextpid s\<rparr>],
      nextpid := nextpid s + 1\<rparr>"
  have "alloc_slot s = Ok (Some i) ?t" by (simp add: alloc_slot_Ok [OF assms] Some)
  moreover have "Suc (length (filter (\<lambda>p. p_state p = UNUSED) (ptable ?t))) =
      length (filter (\<lambda>p. p_state p = UNUSED) (ptable s))"
    using procs.card_free_slots_take [OF Some, of "nextpid s"]
    by (simp add: procs.free_slots_def length_filter_conv_card)
  ultimately show ?thesis using D by (intro exI [of _ "Some i"] exI [of _ ?t]) simp
qed

theorem alloc_slot_first_unused_witness:
  "\<exists>t. alloc_slot (kcore0 [proc0\<lparr>p_state := ZOMBIE\<rparr>, proc0]) = Ok (Some 1) t \<and> p_pid (ptable t ! 1) = 1"
proof -
  have "LK_ptable \<notin> set (held (kcore0 [proc0\<lparr>p_state := ZOMBIE\<rparr>, proc0]))" by (simp add: kcore0_def)
  from alloc_slot_first_unused [OF this] obtain r t where
      r: "alloc_slot (kcore0 [proc0\<lparr>p_state := ZOMBIE\<rparr>, proc0]) = Ok r t"
      "case r of None \<Rightarrow> False | Some i \<Rightarrow> i < 2 \<and> p_state ([proc0\<lparr>p_state := ZOMBIE\<rparr>, proc0] ! i) = UNUSED \<and>
         p_pid (ptable t ! i) = 1"
    by (auto simp: kcore0_def split: option.splits)
  then have "r = Some 1" by (auto simp: less_2_cases_iff split: option.splits)
  with r show ?thesis by simp
qed

text \<open>
  C7. Killing pid 0. A slot that was never used or has been reaped has pid 0, so \<open>kill(0)\<close>
  succeeds on it and marks the unused slot; since \<open>allocproc\<close> does not clear \<open>killed\<close>, the next
  process that gets this slot is born killed.
\<close>

theorem kill_zero_marks_next_process:
  assumes "LK_ptable \<notin> set (held s)" and "\<forall>p\<in>set (ptable s). p_pid p = 0 \<longleftrightarrow> p_state p = UNUSED"
    and "\<exists>p\<in>set (ptable s). p_state p = UNUSED"
  shows "\<exists>t u i. kill 0 s = Ok 0 t \<and> alloc_slot t = Ok (Some i) u \<and> p_killed (ptable u ! i)"
proof -
  obtain i where i: "find_idx (\<lambda>p. p_state p = UNUSED) (ptable s) = Some i"
    using assms(3) find_idx_None [of "\<lambda>p. p_state p = UNUSED" "ptable s"] by auto
  note D = find_idx_SomeD [OF i]
  have k: "find_idx (\<lambda>p. p_pid p = 0) (ptable s) = Some i"
    using D assms(2) by (auto simp: find_idx_Some)
  let ?t = "s\<lparr>ptable := (ptable s)[i := (ptable s ! i)\<lparr>p_killed := True, p_state := UNUSED\<rparr>]\<rparr>"
  have t: "kill 0 s = Ok 0 ?t" using D by (simp add: kill_Ok [OF assms(1)] k)
  have "find_idx (\<lambda>p. p_state p = UNUSED) (ptable ?t) = Some i"
    using D by (simp add: find_idx_Some nth_list_update)
  then have "alloc_slot ?t = Ok (Some i) (?t\<lparr>ptable := (ptable ?t)[i := (ptable ?t ! i)\<lparr>p_state := EMBRYO,
      p_pid := nextpid s\<rparr>], nextpid := nextpid s + 1\<rparr>)"
    using assms(1) by (simp add: alloc_slot_Ok)
  with t D(1) show ?thesis by auto
qed

theorem kill_zero_marks_next_process_witness:
  "\<exists>t u i. kill 0 (kcore0 [proc0]) = Ok 0 t \<and> alloc_slot t = Ok (Some i) u \<and> p_killed (ptable u ! i)"
  by (rule kill_zero_marks_next_process) (simp_all add: kcore0_def)

end
