(* ===== verification/Kalloc.thy ===== *)
theory Kalloc
  imports Proc_Sched
begin

unbundle bit_operations_syntax

text \<open>
  The physical page allocator \<^verbatim>\<open>kalloc.c\<close>: the free list is threaded through the first word of
  every free page, in the byte-addressed memory of the kernel. The exokernel's list of frames
  that processes took by name (\<open>allocadd\<close>) is an array of four-word entries in the same memory.
\<close>

section \<open>Pages\<close>

definition PGROUNDUP :: "u32 \<Rightarrow> u32" where
  "PGROUNDUP sz = (sz + 4096 - 1) AND NOT (4096 - 1)"

definition PGROUNDDOWN :: "u32 \<Rightarrow> u32" where
  "PGROUNDDOWN a = a AND NOT (4096 - 1)"

definition v2p :: "u32 \<Rightarrow> u32" where
  "v2p a = a - KERNBASE"

definition p2v :: "u32 \<Rightarrow> u32" where
  "p2v a = a + KERNBASE"

lemma p2v_v2p [simp]: "p2v (v2p a) = a"
  by (simp add: p2v_def v2p_def)

lemma v2p_p2v [simp]: "v2p (p2v a) = a"
  by (simp add: p2v_def v2p_def)

lemma v2p_inject [simp]: "v2p a = v2p b \<longleftrightarrow> a = b"
  by (simp add: v2p_def)

lemma PGROUNDDOWN_bits: "PGROUNDDOWN a = push_bit 12 (drop_bit 12 a)"
proof -
  have m: "4096 - 1 = (mask 12 :: u32)" by (simp add: mask_eq_exp_minus_1)
  show ?thesis unfolding PGROUNDDOWN_def m by (rule bit_word_eqI) (auto simp: bit_simps)
qed

lemma unat_PGROUNDDOWN: "unat (PGROUNDDOWN a) = unat a div 4096 * 4096"
proof -
  have "unat a div 4096 * 4096 < 2 ^ 32"
    using unat_u32_less [of a] by (simp add: le_less_trans [OF div_times_less_eq_dividend])
  then show ?thesis
    by (simp add: PGROUNDDOWN_bits push_bit_eq_mult drop_bit_eq_div unat_word_ariths unat_div)
qed

lemma PGROUNDDOWN_dvd [simp]: "4096 dvd unat (PGROUNDDOWN a)"
  by (simp add: unat_PGROUNDDOWN)

lemma PGROUNDDOWN_aligned: "4096 dvd unat p \<Longrightarrow> PGROUNDDOWN p = p"
  by (simp add: word_unat_eq_iff unat_PGROUNDDOWN)

lemma PGROUNDDOWN_idem [simp]: "PGROUNDDOWN (PGROUNDDOWN a) = PGROUNDDOWN a"
  by (simp add: PGROUNDDOWN_aligned)

lemma PGROUNDDOWN_offset:
  assumes "4096 dvd unat p" and "i < 4096"
  shows "PGROUNDDOWN (p + of_nat i) = p"
proof -
  have "unat (p + of_nat i) = unat p + i" by (rule unat_add_aligned [of 4096]) (use assms in auto)
  then show ?thesis using assms by (auto simp: word_unat_eq_iff unat_PGROUNDDOWN elim!: dvdE)
qed

text \<open>The byte \<open>x\<close> lies in the page at \<open>p\<close> exactly when \<open>x\<close> rounds down to \<open>p\<close>.\<close>

lemma in_page_iff:
  assumes "4096 dvd unat p"
  shows "unat (x - p) < 4096 \<longleftrightarrow> PGROUNDDOWN x = p"
proof
  assume "unat (x - p) < 4096"
  then have "PGROUNDDOWN (p + of_nat (unat (x - p))) = p" by (rule PGROUNDDOWN_offset [OF assms])
  then show "PGROUNDDOWN x = p" by simp
next
  assume p: "PGROUNDDOWN x = p"
  then have "unat p \<le> unat x" by (auto simp: unat_PGROUNDDOWN)
  then have "unat (x - p) = unat x - unat p" by (simp add: unat_sub_if')
  with p show "unat (x - p) < 4096" by (auto simp: unat_PGROUNDDOWN minus_div_mult_eq_mod)
qed

lemma page_word:
  assumes "4 dvd unat a" and "i < 4"
  shows "PGROUNDDOWN (a + of_nat i) = PGROUNDDOWN a"
proof -
  have "unat (a + of_nat i) = unat a + i" by (rule unat_add_aligned [of 4]) (use assms in auto)
  moreover have "(unat a + i) div 4096 = unat a div 4096"
    using assms div_mult2_eq [of "unat a + i" 4 1024] div_mult2_eq [of "unat a" 4 1024]
    by (auto elim!: dvdE)
  ultimately show ?thesis by (simp add: word_unat_eq_iff unat_PGROUNDDOWN)
qed

lemma ld32_page_cong:
  assumes "4 dvd unat a" and "\<And>x. PGROUNDDOWN x = PGROUNDDOWN a \<Longrightarrow> m x = m' x"
  shows "ld32 m a = ld32 m' a"
proof -
  have "m (a + of_nat i) = m' (a + of_nat i)" if "i < 4" for i
    using assms(2) page_word [OF assms(1) that] by blast
  from this [of 0] this [of 1] this [of 2] this [of 3] show ?thesis by (simp add: ld32_def)
qed

lemma st32_page:
  assumes "4 dvd unat a" and "PGROUNDDOWN x \<noteq> PGROUNDDOWN a"
  shows "st32 m a w x = m x"
proof (rule st32_outside, rule ccontr)
  assume "\<not> 4 \<le> unat (x - a)"
  then have "PGROUNDDOWN (a + of_nat (unat (x - a))) = PGROUNDDOWN a" by (intro page_word [OF assms(1)]) simp
  with assms(2) show False by simp
qed

lemma memset_page:
  assumes "4096 dvd unat p"
  shows "memset m p c 4096 = (\<lambda>x. if PGROUNDDOWN x = p then ucast c else m x)"
  by (simp add: memset_eq in_page_iff [OF assms])

section \<open>State and operations\<close>

text \<open>
  \<open>mem\<close> is the memory as the kernel addresses it; \<open>freelist\<close> and \<open>use_lock\<close> are the fields of
  \<open>kmem\<close>; \<open>kend\<close> (the symbol \<open>end\<close>) and \<open>start_at\<close> (the address of the variable \<open>start\<close>)
  are chosen by the linker.
\<close>

record kmems = kcore +
  mem :: mem
  freelist :: u32
  use_lock :: bool
  frames :: int
  kend :: u32
  start_at :: u32

type_synonym ('z, 'a) kmemf = "('z kmems_scheme, 'a) kfun"

definition lock_kmem :: "('z, unit) kmemf" where
  "lock_kmem = bnd (gets use_lock) (\<lambda>b. whenk b (acquire LK_kmem))"

definition unlock_kmem :: "('z, unit) kmemf" where
  "unlock_kmem = bnd (gets use_lock) (\<lambda>b. whenk b (release LK_kmem))"

definition kfree :: "u32 \<Rightarrow> ('z, unit) kmemf" where
  "kfree v =
     bnd (gets kend) (\<lambda>e.
     if v mod PGSIZE \<noteq> 0 \<or> v < e \<or> v2p v \<ge> PHYSTOP then panic ''kfree''
     else
       thn (modify (\<lambda>s. s\<lparr>mem := memset (mem s) v 1 PGSIZE\<rparr>))
       (thn lock_kmem
       (thn (modify (\<lambda>s. s\<lparr>mem := st32 (mem s) v (freelist s)\<rparr>))
       (thn (modify (\<lambda>s. s\<lparr>freelist := v\<rparr>))
        unlock_kmem))))"

definition kalloc :: "('z, u32) kmemf" where
  "kalloc =
     thn lock_kmem
     (bnd (gets freelist) (\<lambda>r.
      thn (whenk (r \<noteq> 0) (modify (\<lambda>s. s\<lparr>freelist := ld32 (mem s) r\<rparr>)))
      (thn unlock_kmem (ret r))))"

text \<open>\<open>freerange\<close>: a range of addresses holds at most \<open>2^20\<close> pages.\<close>

primrec freerange_from :: "nat \<Rightarrow> u32 \<Rightarrow> u32 \<Rightarrow> ('z, unit) kmemf" where
  "freerange_from 0 p vend = diverge"
| "freerange_from (Suc n) p vend =
     (if p + PGSIZE \<le> vend then thn (kfree p) (freerange_from n (p + PGSIZE) vend) else ret ())"

definition freerange :: "u32 \<Rightarrow> u32 \<Rightarrow> ('z, unit) kmemf" where
  "freerange vstart vend = freerange_from (2 ^ 20 + 1) (PGROUNDUP vstart) vend"

definition kinit1 :: "u32 \<Rightarrow> u32 \<Rightarrow> ('z, unit) kmemf" where
  "kinit1 vstart vend = thn (modify (\<lambda>s. s\<lparr>use_lock := False\<rparr>)) (freerange vstart vend)"

definition kinit2 :: "u32 \<Rightarrow> u32 \<Rightarrow> ('z, unit) kmemf" where
  "kinit2 vstart vend = thn (freerange vstart vend) (modify (\<lambda>s. s\<lparr>use_lock := True\<rparr>))"

text \<open>
  The frame list: an entry \<open>f\<close> has its pid at \<open>f\<close>, the frame at \<open>f + 4\<close>, the next entry at
  \<open>f + 8\<close> and is 16 bytes long.
\<close>

definition initframes :: "('z, unit) kmemf" where
  "initframes =
     thn (modify (\<lambda>s. s\<lparr>frames := 0\<rparr>))
     (thn (modify (\<lambda>s. s\<lparr>mem := st32 (mem s) (start_at s + 8) (p2v PHYSTOP)\<rparr>))
     (thn (modify (\<lambda>s. s\<lparr>mem := st32 (mem s) (ld32 (mem s) (start_at s + 8) + 8) 0\<rparr>))
     (thn (modify (\<lambda>s. s\<lparr>mem := st32 (mem s) (start_at s + 4) 0\<rparr>))
      (modify (\<lambda>s. s\<lparr>mem := st32 (mem s) (start_at s) (- 1)\<rparr>)))))"

text \<open>
  The search of \<open>allocadd\<close>: at the node that is the frame, \<open>*freelist = *freelist->next\<close>
  copies the link of the following node (a null dereference when there is none).
\<close>

primrec unlink_frame :: "nat \<Rightarrow> u32 \<Rightarrow> u32 \<Rightarrow> ('z, bool) kmemf" where
  "unlink_frame 0 frame node = diverge"
| "unlink_frame (Suc n) frame node =
     (if node = 0 then ret False
      else bnd (gets (\<lambda>s. ld32 (mem s) node)) (\<lambda>nx.
        if node = frame then
          (if nx = 0 then fault ''*freelist->next''
           else thn (modify (\<lambda>s. s\<lparr>mem := st32 (mem s) node (ld32 (mem s) nx)\<rparr>)) (ret True))
        else unlink_frame n frame nx))"

primrec last_slot :: "nat \<Rightarrow> u32 \<Rightarrow> ('z, u32) kmemf" where
  "last_slot 0 f = diverge"
| "last_slot (Suc n) f =
     bnd (gets (\<lambda>s. ld32 (mem s) (f + 8))) (\<lambda>nx. if nx \<noteq> 0 then last_slot n nx else ret f)"

definition allocadd :: "u32 \<Rightarrow> u32 \<Rightarrow> ('z, int) kmemf" where
  "allocadd pid frame =
     (if frame = 0 then ret 0
      else bnd (gets freelist) (\<lambda>fl.
        if fl = 0 then ret 0
        else bnd (unlink_frame (2 ^ 20 + 1) frame fl) (\<lambda>found.
          if \<not> found then thn (cprintf ''Not found!'') (ret 0)
          else bnd (gets start_at) (\<lambda>st.
            bnd (last_slot (2 ^ 28 + 1) st) (\<lambda>f.
            thn (modify (\<lambda>s. s\<lparr>mem := st32 (mem s) f pid\<rparr>))
            (thn (modify (\<lambda>s. s\<lparr>mem := st32 (mem s) (f + 4) frame\<rparr>))
            (thn (modify (\<lambda>s. s\<lparr>mem := st32 (mem s) (f + 16 + 8) 0\<rparr>))
            (thn (modify (\<lambda>s. s\<lparr>mem := st32 (mem s) (f + 8) (f + 16)\<rparr>))
             (ret 1)))))))))"

definition getfreelist :: "('z, u32) kmemf" where
  "getfreelist = gets freelist"

section \<open>The free list\<close>

primrec fchain :: "mem \<Rightarrow> u32 \<Rightarrow> u32 list \<Rightarrow> bool" where
  "fchain m p [] = (p = 0)"
| "fchain m p (x # xs) = (p = x \<and> x \<noteq> 0 \<and> fchain m (ld32 m x) xs)"

definition valid_page :: "'z kmems_scheme \<Rightarrow> u32 \<Rightarrow> bool" where
  "valid_page s v \<longleftrightarrow> 4096 dvd unat v \<and> kend s \<le> v \<and> v2p v < PHYSTOP"

text \<open>The invariant of the allocator: the free list is the list \<open>xs\<close> of distinct pages.\<close>

definition kmem_ok :: "'z kmems_scheme \<Rightarrow> u32 list \<Rightarrow> bool" where
  "kmem_ok s xs \<longleftrightarrow> fchain (mem s) (freelist s) xs \<and> distinct xs \<and> (\<forall>x\<in>set xs. valid_page s x) \<and>
     (use_lock s \<longrightarrow> LK_kmem \<notin> set (held s))"

lemma valid_page_nonzero: "valid_page s v \<Longrightarrow> v \<noteq> 0"
  by (auto simp: valid_page_def v2p_def)

lemma valid_page_simps [simp]:
  "valid_page (s\<lparr>mem := m\<rparr>) v = valid_page s v" "valid_page (s\<lparr>freelist := p\<rparr>) v = valid_page s v"
  "valid_page (s\<lparr>held := hs\<rparr>) v = valid_page s v" "valid_page (s\<lparr>use_lock := b\<rparr>) v = valid_page s v"
  "valid_page (s\<lparr>klog := l\<rparr>) v = valid_page s v" "valid_page (s\<lparr>ptable := ps\<rparr>) v = valid_page s v"
  by (simp_all add: valid_page_def)

lemma mod_4096_iff: "v mod 4096 = 0 \<longleftrightarrow> 4096 dvd unat v" for v :: u32
  by (simp add: word_unat_eq_iff unat_mod dvd_eq_mod_eq_0)

lemma fchain_cong:
  assumes "\<And>x. x \<in> set xs \<Longrightarrow> ld32 m x = ld32 m' x"
  shows "fchain m p xs = fchain m' p xs"
  using assms by (induction xs arbitrary: p) auto

lemma fchain_unique: "fchain m p xs \<Longrightarrow> fchain m p ys \<Longrightarrow> xs = ys"
proof (induction xs arbitrary: p ys)
  case Nil
  then show ?case by (cases ys) auto
next
  case (Cons x xs)
  then show ?case by (cases ys) auto
qed

lemma dvd_4096_4: "4096 dvd n \<Longrightarrow> 4 dvd (n::nat)"
  by (erule dvd_trans [rotated]) simp

lemma kmem_ok_frame:
  assumes "kmem_ok s xs" and "freelist t = freelist s" and "held t = held s" and "use_lock t = use_lock s"
    and "kend t = kend s" and "\<And>x. PGROUNDDOWN x \<in> set xs \<Longrightarrow> mem t x = mem s x"
  shows "kmem_ok t xs"
proof -
  have "ld32 (mem t) x = ld32 (mem s) x" if "x \<in> set xs" for x
  proof (rule ld32_page_cong)
    have x: "4096 dvd unat x" using assms(1) that by (auto simp: kmem_ok_def valid_page_def)
    then show "4 dvd unat x" by (rule dvd_4096_4)
    show "mem t y = mem s y" if "PGROUNDDOWN y = PGROUNDDOWN x" for y
      using that assms(6) \<open>x \<in> set xs\<close> x by (simp add: PGROUNDDOWN_aligned)
  qed
  then have "fchain (mem t) p xs = fchain (mem s) p xs" for p by (rule fchain_cong)
  with assms show ?thesis by (auto simp: kmem_ok_def valid_page_def)
qed

lemma kalloc_Nil: "kmem_ok s [] \<Longrightarrow> kalloc s = Ok 0 s"
  by (simp add: kmem_ok_def kalloc_def lock_kmem_def unlock_kmem_def acquire_def release_def)

lemma kalloc_Cons:
  assumes "kmem_ok s (x # xs)"
  shows "kalloc s = Ok x (s\<lparr>freelist := ld32 (mem s) x\<rparr>)" and "kmem_ok (s\<lparr>freelist := ld32 (mem s) x\<rparr>) xs"
  using assms
  by (auto simp: kmem_ok_def kalloc_def lock_kmem_def unlock_kmem_def acquire_def release_def)

definition freed :: "u32 \<Rightarrow> 'z kmems_scheme \<Rightarrow> 'z kmems_scheme" where
  "freed v s = s\<lparr>mem := st32 (memset (mem s) v 1 4096) v (freelist s), freelist := v\<rparr>"

lemma kfree_eq:
  assumes "use_lock s \<longrightarrow> LK_kmem \<notin> set (held s)"
  shows "kfree v s = (if valid_page s v then Ok () (freed v s) else Panic ''kfree'')"
  using assms
  by (auto simp: kfree_def lock_kmem_def unlock_kmem_def acquire_def release_def valid_page_def freed_def
    mod_4096_iff not_le)

lemma freed_mem:
  assumes "4096 dvd unat v" and "PGROUNDDOWN x \<noteq> v"
  shows "mem (freed v s) x = mem s x"
  using assms by (simp add: freed_def st32_page dvd_4096_4 PGROUNDDOWN_aligned memset_page)

lemma freed_simps [simp]:
  "freelist (freed v s) = v" "held (freed v s) = held s" "use_lock (freed v s) = use_lock s"
  "kend (freed v s) = kend s" "ptable (freed v s) = ptable s" "curproc (freed v s) = curproc s"
  "valid_page (freed v s) p = valid_page s p"
  by (simp_all add: freed_def)

lemma kmem_ok_freed:
  assumes ok: "kmem_ok s xs" and v: "valid_page s v" "v \<notin> set xs"
  shows "kmem_ok (freed v s) (v # xs)"
proof -
  have al: "4096 dvd unat v" using v(1) by (simp add: valid_page_def)
  let ?t = "s\<lparr>mem := mem (freed v s)\<rparr>"
  have "mem (freed v s) x = mem s x" if "PGROUNDDOWN x \<in> set xs" for x
    using freed_mem [OF al, of x] that v(2) by metis
  then have "kmem_ok ?t xs" by (intro kmem_ok_frame [OF ok]) simp_all
  moreover have "ld32 (mem (freed v s)) v = freelist s" by (simp add: freed_def)
  ultimately show ?thesis
    using v valid_page_nonzero [OF v(1)] by (auto simp: kmem_ok_def)
qed

text \<open>The free list is never longer than the memory has pages.\<close>

lemma kmem_ok_length:
  assumes "kmem_ok s xs"
  shows "length xs \<le> 0xE000"
proof -
  let ?f = "\<lambda>x. unat (v2p x) div 4096"
  have pg: "4096 dvd unat (v2p x) \<and> ?f x < 0xE000" if "valid_page s x" for x
  proof -
    have "4096 dvd unat x" using that by (simp add: valid_page_def)
    then have "4096 dvd unat x - 0x80000000" "4096 dvd unat x + 4294967296 - 0x80000000"
      by (intro dvd_diff_nat dvd_add; simp)+
    then have "unat (v2p x) mod 4096 = 0"
      by (simp add: v2p_def unat_sub_if' dvd_eq_mod_eq_0 split: if_splits)
    moreover have "unat (v2p x) < 0xE000000" using that by (simp add: valid_page_def word_less_nat_alt)
    ultimately show ?thesis by (auto simp: dvd_eq_mod_eq_0)
  qed
  have "inj_on ?f (set xs)"
  proof (rule inj_onI)
    fix x y assume "x \<in> set xs" "y \<in> set xs" and e: "?f x = ?f y"
    then have "valid_page s x" "valid_page s y" using assms by (auto simp: kmem_ok_def)
    then have "unat (v2p x) = unat (v2p y)" using pg e by (metis dvd_div_mult_self)
    then show "x = y" by (simp flip: word_unat_eq_iff)
  qed
  moreover have "?f ` set xs \<subseteq> {..<0xE000}" using assms pg by (auto simp: kmem_ok_def)
  ultimately have "card (set xs) \<le> card {..<0xE000::nat}" by (rule card_inj_on_le) simp
  moreover have "distinct xs" using assms by (simp add: kmem_ok_def)
  ultimately show ?thesis by (simp add: distinct_card)
qed

section \<open>Filling the free list\<close>

definition pages_in :: "u32 \<Rightarrow> u32 \<Rightarrow> u32 list" where
  "pages_in p vend = map (\<lambda>i. p + of_nat (4096 * i)) [0..<(unat vend - unat p) div 4096]"

lemma PGROUNDUP_DOWN: "PGROUNDUP a = PGROUNDDOWN (a + 4095)"
  by (simp add: PGROUNDUP_def PGROUNDDOWN_def add.commute)

lemma unat_PGROUNDUP:
  assumes "unat a + 4095 < 2 ^ 32"
  shows "unat (PGROUNDUP a) = (unat a + 4095) div 4096 * 4096"
proof -
  have "unat (a + 4095) = unat a + 4095" using assms by (simp add: unat_word_ariths)
  then show ?thesis by (simp add: PGROUNDUP_DOWN unat_PGROUNDDOWN)
qed

lemma PGROUNDUP_dvd [simp]: "4096 dvd unat (PGROUNDUP a)"
  by (simp add: PGROUNDUP_DOWN)

lemma pages_in_Nil: "unat vend < unat p + 4096 \<Longrightarrow> pages_in p vend = []"
  by (simp add: pages_in_def)

lemma pages_in_Cons:
  assumes "unat p + 4096 \<le> unat vend"
  shows "pages_in p vend = p # pages_in (p + 4096) vend"
proof -
  have p: "unat (p + 4096) = unat p + 4096"
    using le_less_trans [OF assms unat_u32_less] by (simp add: unat_word_ariths)
  have "(unat vend - unat p) div 4096 = Suc ((unat vend - unat (p + 4096)) div 4096)"
    using assms p by (simp add: le_div_geq)
  then show ?thesis
    by (simp add: pages_in_def upt_conv_Cons map_Suc_upt [symmetric] del: upt_Suc)
qed

lemma set_pages_in:
  assumes "4096 dvd unat p"
  shows "set (pages_in p vend) = {v. 4096 dvd unat v \<and> p \<le> v \<and> unat v + 4096 \<le> unat vend}"
proof -
  obtain a where a: "unat p = 4096 * a" using assms unfolding dvd_def by blast
  let ?n = "(unat vend - unat p) div 4096"
  have n: "i < ?n \<longleftrightarrow> 4096 * (a + i) + 4096 \<le> unat vend" for i
    using a by (simp add: Suc_le_eq [symmetric] less_eq_div_iff_mult_less_eq) arith
  have u: "unat (p + of_nat (4096 * i)) = 4096 * (a + i)" if "i < ?n" for i
  proof -
    have "4096 * (a + i) < 4294967296" using that [unfolded n] unat_u32_less [of vend] by linarith
    then have "4096 * (a + i) < 2 ^ 32" by simp
    moreover have "p + of_nat (4096 * i) = of_nat (4096 * (a + i))"
    proof -
      have "p = of_nat (4096 * a)" by (simp only: a [symmetric] word_of_nat_eq_iff) simp
      then show ?thesis by (simp add: algebra_simps)
    qed
    ultimately show ?thesis by (simp only: unat_of_nat) simp
  qed
  have "v \<in> (\<lambda>i. p + of_nat (4096 * i)) ` {0..<?n}"
    if v: "4096 dvd unat v" "p \<le> v" "unat v + 4096 \<le> unat vend" for v
  proof -
    obtain c where c: "unat v = 4096 * c" using v(1) unfolding dvd_def by blast
    have "a \<le> c" using v(2) a c by (auto simp: word_le_nat_alt)
    then have i: "c - a < ?n" using v(3) c unfolding n by simp
    then have "unat v = unat (p + of_nat (4096 * (c - a)))" using u [of "c - a"] c \<open>a \<le> c\<close> by simp
    with i show ?thesis by (intro image_eqI [of _ _ "c - a"]) (auto simp: word_unat_eq_iff)
  qed
  moreover have "4096 dvd unat (p + of_nat (4096 * i)) \<and> p \<le> p + of_nat (4096 * i) \<and>
      unat (p + of_nat (4096 * i)) + 4096 \<le> unat vend" if "i < ?n" for i
    using u [OF that] a that [unfolded n] by (simp add: word_le_nat_alt)
  ultimately show ?thesis unfolding pages_in_def by auto
qed

lemma freerange_from_Ok:
  assumes "4096 dvd unat p" and "kend s \<le> p" and "KERNBASE \<le> p" and "p \<le> 0x8E000000" and "vend \<le> 0x8E000000"
    and "kmem_ok s xs" and "set xs \<inter> set (pages_in p vend) = {}" and "(unat vend - unat p) div 4096 < n"
  shows "\<exists>t. freerange_from n p vend s = Ok () t \<and> kmem_ok t (rev (pages_in p vend) @ xs) \<and>
     kend t = kend s \<and> use_lock t = use_lock s \<and> held t = held s"
  using assms
proof (induction n arbitrary: p s xs)
  case 0
  then show ?case by simp
next
  case (Suc n)
  have up: "unat (p + 4096) = unat p + 4096"
    using Suc.prems(4) by (simp add: unat_word_ariths word_le_nat_alt)
  show ?case
  proof (cases "p + 4096 \<le> vend")
    case False
    then have "pages_in p vend = []" using up by (intro pages_in_Nil) (simp add: word_le_nat_alt)
    with False Suc.prems(6) show ?thesis by simp
  next
    case True
    then have le: "unat p + 4096 \<le> unat vend" using up by (simp add: word_le_nat_alt)
    have ok: "use_lock s \<longrightarrow> LK_kmem \<notin> set (held s)" using Suc.prems(6) by (simp add: kmem_ok_def)
    have v: "valid_page s p"
      using Suc.prems(1-5) le by (auto simp: valid_page_def v2p_def word_less_nat_alt word_le_nat_alt unat_sub_if')
    note C = pages_in_Cons [OF le]
    have "kmem_ok (freed p s) (p # xs)"
      using kmem_ok_freed [OF Suc.prems(6) v] Suc.prems(7) C by auto
    moreover have d: "4096 dvd unat (p + 4096)" using Suc.prems(1) up by simp
    moreover have "set (p # xs) \<inter> set (pages_in (p + 4096) vend) = {}"
      using Suc.prems(7) C set_pages_in [OF d] up by (auto simp: word_le_nat_alt)
    moreover have "kend (freed p s) \<le> p + 4096" "KERNBASE \<le> p + 4096" "p + 4096 \<le> 0x8E000000"
      using Suc.prems(2,3,5) le up by (auto simp: word_le_nat_alt)
    moreover have "(unat vend - unat (p + 4096)) div 4096 < n"
      using Suc.prems(8) le up by (simp add: le_div_geq)
    ultimately obtain t where t: "freerange_from n (p + 4096) vend (freed p s) = Ok () t"
        "kmem_ok t (rev (pages_in (p + 4096) vend) @ p # xs)"
        "kend t = kend s" "use_lock t = use_lock s" "held t = held s"
      using Suc.IH [of "p + 4096" "freed p s" "p # xs"] Suc.prems(5) by auto
    with True v ok show ?thesis by (simp add: kfree_eq C)
  qed
qed

section \<open>The list of taken frames\<close>

lemma unlink_frame_absent:
  "fchain (mem s) p xs \<Longrightarrow> frame \<notin> set xs \<Longrightarrow> length xs < n \<Longrightarrow> unlink_frame n frame p s = Ok False s"
proof (induction n arbitrary: p xs)
  case (Suc n)
  then show ?case by (cases xs) auto
qed simp

lemma unlink_frame_found:
  "fchain (mem s) p (ys @ frame # z # zs) \<Longrightarrow> frame \<notin> set ys \<Longrightarrow> length ys < n \<Longrightarrow>
   unlink_frame n frame p s = Ok True (s\<lparr>mem := st32 (mem s) frame (ld32 (mem s) z)\<rparr>)"
proof (induction n arbitrary: p ys)
  case (Suc n)
  then show ?case by (cases ys) auto
qed simp

lemma unlink_frame_last:
  "fchain (mem s) p (ys @ [frame]) \<Longrightarrow> frame \<notin> set ys \<Longrightarrow> length ys < n \<Longrightarrow>
   unlink_frame n frame p s = Fault ''*freelist->next''"
proof (induction n arbitrary: p ys)
  case (Suc n)
  then show ?case by (cases ys) auto
qed simp

lemma fchain_unlink:
  assumes "fchain m p (ys @ frame # z # zs)" and "distinct (ys @ frame # z # zs)"
    and "\<forall>x\<in>set (ys @ frame # z # zs). 4 dvd unat x"
  shows "fchain (st32 m frame (ld32 m z)) p (ys @ frame # zs)"
  using assms
proof (induction ys arbitrary: p)
  case Nil
  have "fchain (st32 m frame (ld32 m z)) q zs = fchain m q zs" for q
    using Nil.prems by (intro fchain_cong ld32_st32_other) auto
  with Nil.prems show ?case by auto
next
  case (Cons y ys)
  have "ld32 (st32 m frame (ld32 m z)) y = ld32 m y"
    using Cons.prems by (intro ld32_st32_other) auto
  with Cons show ?case by auto
qed

definition slot :: "nat \<Rightarrow> u32" where
  "slot i = 0x8E000000 + of_nat (16 * i)"

text \<open>
  \<open>slots_ok s k\<close>: the list that begins at \<open>start\<close> has \<open>k\<close> filled entries, in the array
  above the allocatable memory, and one empty entry at its end.
\<close>

definition slots_ok :: "'z kmems_scheme \<Rightarrow> nat \<Rightarrow> bool" where
  "slots_ok s k \<longleftrightarrow> 4 dvd unat (start_at s) \<and> KERNBASE \<le> start_at s \<and> unat (start_at s) + 16 \<le> unat (kend s) \<and>
     kend s \<le> 0x8E000000 \<and> k < 2048 \<and> ld32 (mem s) (start_at s + 8) = slot 0 \<and>
     (\<forall>i<k. ld32 (mem s) (slot i + 8) = slot (Suc i)) \<and> ld32 (mem s) (slot k + 8) = 0"

definition taken_frames :: "'z kmems_scheme \<Rightarrow> nat \<Rightarrow> (u32 \<times> u32) list" where
  "taken_frames s k = map (\<lambda>i. (ld32 (mem s) (slot i), ld32 (mem s) (slot i + 4))) [0..<k]"

lemma unat_slot: "i \<le> 2048 \<Longrightarrow> j < 16 \<Longrightarrow> unat (slot i + of_nat j) = 0x8E000000 + 16 * i + j"
proof -
  assume "i \<le> 2048" "j < 16"
  have "slot i + of_nat j = of_nat (0x8E000000 + 16 * i + j)" by (simp add: slot_def algebra_simps)
  then have "unat (slot i + of_nat j) = unat (of_nat (0x8E000000 + 16 * i + j) :: u32)" by simp
  also have "\<dots> = 0x8E000000 + 16 * i + j"
    unfolding unat_of_nat using \<open>i \<le> 2048\<close> \<open>j < 16\<close> by (intro mod_less) simp
  finally show ?thesis .
qed

lemmas unat_slot_fields = unat_slot [of _ 0, simplified] unat_slot [of _ 4, simplified] unat_slot [of _ 8, simplified]

lemma slot_Suc: "slot (Suc i) = slot i + 16"
  by (simp add: slot_def)

lemma last_slot_Ok:
  assumes "\<forall>i<k. ld32 (mem s) (slot i + 8) = slot (Suc i)" and "ld32 (mem s) (slot k + 8) = 0"
    and "j \<le> k" and "k \<le> 2048" and "k - j < n"
  shows "last_slot n (slot j) s = Ok (slot k) s"
  using assms
proof (induction n arbitrary: j)
  case (Suc n)
  show ?case
  proof (cases "j = k")
    case False
    have "slot (Suc j) \<noteq> 0"
      using Suc.prems(3,4) False unat_slot_fields(1) [of "Suc j"] by (auto simp: word_unat_eq_iff)
    with Suc False show ?thesis by simp
  qed (use Suc.prems in simp)
qed simp

lemma unat_below:
  assumes "unat a + 16 \<le> unat (e::u32)" and "j < 16"
  shows "unat (a + of_nat j :: u32) = unat a + j"
proof -
  have "unat a + j < 4294967296" using assms unat_u32_less [of e] by linarith
  then show ?thesis by (simp add: unat_word_ariths unat_of_nat)
qed

lemma unat_start:
  assumes "slots_ok s k" and "j < 16"
  shows "unat (start_at s + of_nat j) = unat (start_at s) + j"
  using assms by (auto simp: slots_ok_def intro: unat_below)

text \<open>The words of the frame list lie outside every allocatable page.\<close>

lemma slot_not_page:
  assumes "valid_page s x" and "i \<le> 2048" and "j < 16"
  shows "slot i + of_nat j \<noteq> x"
proof
  assume "slot i + of_nat j = x"
  then have "unat x = 0x8E000000 + 16 * i + j" using unat_slot [OF assms(2,3)] by simp
  moreover have "unat (v2p x) < 0xE000000" using assms(1) by (simp add: valid_page_def word_less_nat_alt)
  ultimately show False by (simp add: v2p_def unat_sub_if')
qed

lemma start_not_page:
  assumes "valid_page s x" and "slots_ok s k" and "j < 16"
  shows "start_at s + of_nat j \<noteq> x"
proof
  assume "start_at s + of_nat j = x"
  then have "unat x = unat (start_at s) + j" using unat_start [OF assms(2,3)] by simp
  moreover have "unat (kend s) \<le> unat x" using assms(1) by (simp add: valid_page_def word_le_nat_alt)
  ultimately show False using assms(2,3) by (simp add: slots_ok_def)
qed

lemma slot_dvd: "i \<le> 2048 \<Longrightarrow> 4 dvd unat (slot i)" "i \<le> 2048 \<Longrightarrow> 4 dvd unat (slot i + 4)"
  "i \<le> 2048 \<Longrightarrow> 4 dvd unat (slot i + 8)"
  by (simp_all add: unat_slot_fields)

lemma start_dvd: "slots_ok s k \<Longrightarrow> 4 dvd unat (start_at s + 8)"
  using unat_start [of s k 8] by (simp add: slots_ok_def)

lemma slot_field_inject:
  assumes "i \<le> 2048" "j \<le> 2048" "a < 16" "b < 16" "slot i + of_nat a = slot j + of_nat b"
  shows "i = j \<and> a = b"
proof -
  have e: "16 * i + a = 16 * j + b"
    using assms unat_slot [of i a] unat_slot [of j b] by simp
  have "i = (16 * i + a) div 16" "j = (16 * j + b) div 16" using assms(3,4) by simp_all
  with e show ?thesis by auto
qed

definition fld :: "nat \<Rightarrow> nat \<Rightarrow> u32" where
  "fld i a = slot i + of_nat a"

lemma fld_fields: "fld i 0 = slot i" "fld i 4 = slot i + 4" "fld i 8 = slot i + 8"
  by (simp_all add: fld_def)

lemma fld_dvd: "i \<le> 2048 \<Longrightarrow> a \<in> {0, 4, 8} \<Longrightarrow> 4 dvd unat (fld i a)"
  using slot_dvd [of i] by (auto simp: fld_def)

lemma ld32_st32_fld:
  assumes "i \<le> 2048" "j \<le> 2048" "a \<in> {0, 4, 8}" "b \<in> {0, 4, 8}"
  shows "ld32 (st32 m (fld i a) w) (fld j b) = (if i = j \<and> a = b then w else ld32 m (fld j b))"
proof (cases "i = j \<and> a = b")
  case False
  then have "fld i a \<noteq> fld j b"
    using slot_field_inject [of i j a b] assms unfolding fld_def by fastforce
  then have "ld32 (st32 m (fld i a) w) (fld j b) = ld32 m (fld j b)"
    using assms by (intro ld32_st32_other fld_dvd)
  with False show ?thesis by auto
qed auto

lemma ld32_st32_fld_page:
  assumes "valid_page s x" "i \<le> 2048" "a \<in> {0, 4, 8}"
  shows "ld32 (st32 m (fld i a) w) x = ld32 m x" and "ld32 (st32 m x w) (fld i a) = ld32 m (fld i a)"
proof -
  have "fld i a \<noteq> x" using slot_not_page [OF assms(1,2), of a] assms(3) by (auto simp: fld_def)
  moreover have "4 dvd unat x" using assms(1) by (simp add: valid_page_def dvd_4096_4)
  ultimately show "ld32 (st32 m (fld i a) w) x = ld32 m x" "ld32 (st32 m x w) (fld i a) = ld32 m (fld i a)"
    using fld_dvd [OF assms(2,3)] by (auto intro!: ld32_st32_other)
qed

lemma ld32_st32_start:
  assumes "slots_ok s k" "i \<le> 2048" "a \<in> {0, 4, 8}"
  shows "ld32 (st32 m (fld i a) w) (start_at s + 8) = ld32 m (start_at s + 8)"
proof (rule ld32_st32_other)
  have "unat (start_at s + 8) < 0x8E000000"
    using unat_start [OF assms(1), of 8] assms(1) by (simp add: slots_ok_def word_le_nat_alt)
  moreover have "unat (fld i a) \<ge> 0x8E000000"
    using unat_slot [of i a] assms(2,3) by (auto simp: fld_def)
  ultimately show "fld i a \<noteq> start_at s + 8" by (metis not_le)
qed (use assms start_dvd [OF assms(1)] fld_dvd in auto)

definition took :: "nat \<Rightarrow> u32 \<Rightarrow> u32 \<Rightarrow> 'z kmems_scheme \<Rightarrow> 'z kmems_scheme" where
  "took k pid frame s = s\<lparr>mem := st32 (st32 (st32 (st32 (mem s) (fld k 0) pid) (fld k 4) frame)
     (fld (Suc k) 8) 0) (fld k 8) (slot (Suc k))\<rparr>"

lemma took_simps [simp]:
  "start_at (took k pid frame s) = start_at s" "kend (took k pid frame s) = kend s"
  "freelist (took k pid frame s) = freelist s" "held (took k pid frame s) = held s"
  "use_lock (took k pid frame s) = use_lock s" "valid_page (took k pid frame s) x = valid_page s x"
  by (simp_all add: took_def)

lemma took_fld:
  assumes "k < 2048" "i \<le> 2048" "b \<in> {0, 4, 8}"
  shows "ld32 (mem (took k pid frame s)) (fld i b) =
    (if i = k \<and> b = 8 then slot (Suc k) else if i = Suc k \<and> b = 8 then 0
     else if i = k \<and> b = 4 then frame else if i = k \<and> b = 0 then pid else ld32 (mem s) (fld i b))"
  using assms by (auto simp: took_def ld32_st32_fld)

lemma took_ok:
  assumes "slots_ok s k" and "Suc k < 2048"
  shows "slots_ok (took k pid frame s) (Suc k)"
    and "taken_frames (took k pid frame s) (Suc k) = taken_frames s k @ [(pid, frame)]"
proof -
  let ?m = "mem (took k pid frame s)"
  have k: "k < 2048" using assms(2) by auto
  have st: "ld32 ?m (start_at s + 8) = slot 0"
    using assms by (simp add: took_def ld32_st32_start [OF assms(1)]) (simp add: slots_ok_def)
  have "ld32 ?m (fld i 8) = slot (Suc i)" if "i < Suc k" for i
    using that took_fld [OF k, of i 8 pid frame s] assms by (auto simp: slots_ok_def fld_fields)
  moreover have "ld32 ?m (fld (Suc k) 8) = 0"
    using took_fld [OF k, of "Suc k" 8 pid frame s] assms by auto
  ultimately show "slots_ok (took k pid frame s) (Suc k)"
    using assms st by (simp add: slots_ok_def fld_fields)
  have "ld32 ?m (fld i 0) = (if i = k then pid else ld32 (mem s) (fld i 0))"
    "ld32 ?m (fld i 4) = (if i = k then frame else ld32 (mem s) (fld i 4))" if "i < Suc k" for i
    using that took_fld [OF k, of i 0 pid frame s] took_fld [OF k, of i 4 pid frame s] assms by auto
  then show "taken_frames (took k pid frame s) (Suc k) = taken_frames s k @ [(pid, frame)]"
    by (auto simp: taken_frames_def fld_fields)
qed

lemma kmem_ok_took:
  assumes "kmem_ok s xs" and "Suc k < 2048"
  shows "kmem_ok (took k pid frame s) xs"
proof -
  have "ld32 (mem (took k pid frame s)) x = ld32 (mem s) x" if "x \<in> set xs" for x
    using assms that ld32_st32_fld_page(1) [of s x] by (auto simp: took_def kmem_ok_def)
  then have "fchain (mem (took k pid frame s)) p xs = fchain (mem s) p xs" for p by (rule fchain_cong)
  with assms(1) show ?thesis by (simp add: kmem_ok_def)
qed

lemma last_slot_start:
  assumes "slots_ok s k" and "Suc k < n"
  shows "last_slot n (start_at s) s = Ok (slot k) s"
proof (cases n)
  case (Suc n')
  have "slot 0 \<noteq> 0" by (simp add: slot_def)
  moreover have "last_slot n' (slot 0) s = Ok (slot k) s"
    by (rule last_slot_Ok) (use assms Suc in \<open>auto simp: slots_ok_def\<close>)
  ultimately show ?thesis using assms Suc by (simp add: slots_ok_def)
qed (use assms in simp)

lemma slots_ok_page:
  assumes "slots_ok s k" and "valid_page s x"
  shows "slots_ok (s\<lparr>mem := st32 (mem s) x w\<rparr>) k"
    and "taken_frames (s\<lparr>mem := st32 (mem s) x w\<rparr>) k = taken_frames s k"
proof -
  have f: "ld32 (st32 (mem s) x w) (fld i b) = ld32 (mem s) (fld i b)" if "i \<le> 2048" "b \<in> {0, 4, 8}" for i b
    using ld32_st32_fld_page(2) [OF assms(2) that] .
  have "start_at s + of_nat 8 \<noteq> x" by (rule start_not_page [OF assms(2,1)]) simp
  then have "ld32 (st32 (mem s) x w) (start_at s + 8) = ld32 (mem s) (start_at s + 8)"
    using assms(2) start_dvd [OF assms(1)] by (intro ld32_st32_other) (auto simp: valid_page_def dvd_4096_4)
  then show "slots_ok (s\<lparr>mem := st32 (mem s) x w\<rparr>) k"
    using assms(1) f [of _ 8] by (simp add: slots_ok_def fld_fields)
  show "taken_frames (s\<lparr>mem := st32 (mem s) x w\<rparr>) k = taken_frames s k"
    using assms(1) f [of _ 0] f [of _ 4] by (simp add: taken_frames_def slots_ok_def fld_fields)
qed

lemma allocadd_Ok:
  assumes ok: "kmem_ok s (ys @ frame # z # zs)" and sl: "slots_ok s k" "Suc k < 2048"
  shows "\<exists>t. allocadd pid frame s = Ok 1 t \<and> kmem_ok t (ys @ frame # zs) \<and> slots_ok t (Suc k) \<and>
     taken_frames t (Suc k) = taken_frames s k @ [(pid, frame)]"
proof -
  let ?s = "s\<lparr>mem := st32 (mem s) frame (ld32 (mem s) z)\<rparr>"
  have fr: "valid_page s frame" "frame \<noteq> 0" and d: "distinct (ys @ frame # z # zs)"
      and ch: "fchain (mem s) (freelist s) (ys @ frame # z # zs)"
    using ok valid_page_nonzero [of s frame] by (auto simp: kmem_ok_def)
  have fl: "freelist s \<noteq> 0" using ch by (cases ys) auto
  have "length ys < 2 ^ 20 + 1" using kmem_ok_length [OF ok] by simp
  with ch d have u: "unlink_frame (2 ^ 20 + 1) frame (freelist s) s = Ok True ?s"
    by (intro unlink_frame_found) auto
  note so = slots_ok_page [OF sl(1) fr(1), of "ld32 (mem s) z"]
  have l: "last_slot (2 ^ 28 + 1) (start_at s) ?s = Ok (slot k) ?s"
    using last_slot_start [OF so(1), of "2 ^ 28 + 1"] sl(2) by simp
  have "allocadd pid frame s = Ok 1 (took k pid frame ?s)"
    using fr(2) fl u l by (simp add: allocadd_def took_def fld_fields slot_Suc)
  moreover have "kmem_ok ?s (ys @ frame # zs)"
    using fchain_unlink [OF ch d] ok by (auto simp: kmem_ok_def valid_page_def dvd_4096_4)
  ultimately show ?thesis
    using took_ok [OF so(1) sl(2)] kmem_ok_took [OF _ sl(2), of ?s] so(2) by auto
qed

section \<open>The contract of the allocator\<close>

text \<open>
  What the rest of the kernel relies on. \<open>avail\<close> is the set of free pages, \<open>page\<close> tells which
  addresses are pages at all. The pages of the machine are always split into those that clients
  own and those that are free.
\<close>

locale page_allocator =
  fixes alloc :: "('s, u32) kfun"
    and free :: "u32 \<Rightarrow> ('s, unit) kfun"
    and wf :: "'s \<Rightarrow> bool"
    and avail :: "'s \<Rightarrow> u32 set"
    and page :: "'s \<Rightarrow> u32 \<Rightarrow> bool"
  assumes alloc_none: "wf s \<Longrightarrow> avail s = {} \<Longrightarrow> alloc s = Ok 0 s"
    and alloc_some: "wf s \<Longrightarrow> avail s \<noteq> {} \<Longrightarrow>
      \<exists>p t. alloc s = Ok p t \<and> p \<in> avail s \<and> wf t \<and> avail t = avail s - {p} \<and> page t = page s"
    and free_page: "wf s \<Longrightarrow> page s p \<Longrightarrow> p \<notin> avail s \<Longrightarrow>
      \<exists>t. free p s = Ok () t \<and> wf t \<and> avail t = insert p (avail s) \<and> page t = page s"
    and avail_page: "wf s \<Longrightarrow> p \<in> avail s \<Longrightarrow> page s p"
    and page_nonzero: "page s p \<Longrightarrow> p \<noteq> 0"
begin

definition split :: "'s \<Rightarrow> u32 list \<Rightarrow> u32 set \<Rightarrow> bool" where
  "split s own all \<longleftrightarrow> wf s \<and> distinct own \<and> set own \<inter> avail s = {} \<and> set own \<union> avail s = all \<and>
     (\<forall>p\<in>all. page s p)"

lemma avail_nonzero: "wf s \<Longrightarrow> p \<in> avail s \<Longrightarrow> p \<noteq> 0"
  by (rule page_nonzero [OF avail_page])

lemma split_alloc:
  assumes sp: "split s own all" and al: "alloc s = Ok p t"
  shows "if p = 0 then t = s else split t (p # own) all"
proof (cases "avail s = {}")
  case True
  with sp al alloc_none [of s] show ?thesis by (auto simp: split_def)
next
  case False
  have wf: "wf s" using sp by (simp add: split_def)
  from alloc_some [OF wf False] al have "p \<in> avail s" "wf t" "avail t = avail s - {p}" "page t = page s"
    by auto
  moreover from this avail_nonzero [OF wf] have "p \<noteq> 0" by blast
  ultimately show ?thesis using sp by (auto simp: split_def)
qed

lemma split_free:
  assumes sp: "split s own all" and p: "p \<in> set own"
  shows "\<exists>t. free p s = Ok () t \<and> split t (remove1 p own) all"
proof -
  have wf: "wf s" "page s p" "p \<notin> avail s" using assms by (auto simp: split_def)
  from free_page [OF wf] obtain t where
    t: "free p s = Ok () t" "wf t" "avail t = insert p (avail s)" "page t = page s" by blast
  then have "split t (remove1 p own) all" using assms by (auto simp: split_def)
  with t(1) show ?thesis by blast
qed

lemma alloc_returns:
  assumes "wf s"
  shows "\<exists>p t. alloc s = Ok p t \<and> (p = 0 \<longleftrightarrow> avail s = {})"
proof (cases "avail s = {}")
  case True
  with alloc_none [OF assms] show ?thesis by simp
next
  case False
  with alloc_some [OF assms] avail_nonzero [OF assms] show ?thesis by metis
qed

end

definition kmem_wf :: "'z kmems_scheme \<Rightarrow> bool" where
  "kmem_wf s \<longleftrightarrow> (\<exists>xs. kmem_ok s xs)"

definition free_pages :: "'z kmems_scheme \<Rightarrow> u32 set" where
  "free_pages s = {x. \<exists>xs. kmem_ok s xs \<and> x \<in> set xs}"

lemma kmem_ok_unique: "kmem_ok s xs \<Longrightarrow> kmem_ok s ys \<Longrightarrow> xs = ys"
  unfolding kmem_ok_def by (blast intro: fchain_unique)

lemma free_pages_eq: "kmem_ok s xs \<Longrightarrow> free_pages s = set xs"
  unfolding free_pages_def using kmem_ok_unique by blast

interpretation km: page_allocator kalloc kfree kmem_wf free_pages valid_page
proof unfold_locales
  fix s :: "'z kmems_scheme" and p :: u32
  show "valid_page s p \<Longrightarrow> p \<noteq> 0" by (rule valid_page_nonzero)
  assume "kmem_wf s"
  then obtain xs where xs: "kmem_ok s xs" by (auto simp: kmem_wf_def)
  note fp = free_pages_eq [OF xs]
  show "p \<in> free_pages s \<Longrightarrow> valid_page s p" using xs by (simp add: fp kmem_ok_def)
  show "free_pages s = {} \<Longrightarrow> kalloc s = Ok 0 s" using xs kalloc_Nil [of s] by (simp add: fp)
  show "\<exists>p t. kalloc s = Ok p t \<and> p \<in> free_pages s \<and> kmem_wf t \<and> free_pages t = free_pages s - {p} \<and>
      valid_page t = valid_page s" if ne: "free_pages s \<noteq> {}"
  proof -
    obtain x ys where xy: "xs = x # ys" using ne fp by (cases xs) auto
    note K = kalloc_Cons [OF xs [unfolded xy]]
    have "distinct (x # ys)" using xs xy by (simp add: kmem_ok_def)
    with K free_pages_eq [OF K(2)] fp xy show ?thesis
      by (auto simp: kmem_wf_def fun_eq_iff)
  qed
  show "\<exists>t. kfree p s = Ok () t \<and> kmem_wf t \<and> free_pages t = insert p (free_pages s) \<and>
      valid_page t = valid_page s" if "valid_page s p" "p \<notin> free_pages s"
  proof -
    have ok: "kmem_ok (freed p s) (p # xs)" by (rule kmem_ok_freed [OF xs]) (use that fp in auto)
    moreover have "kfree p s = Ok () (freed p s)" using that xs by (simp add: kfree_eq kmem_ok_def)
    ultimately show ?thesis using free_pages_eq [OF ok] fp by (auto simp: kmem_wf_def fun_eq_iff)
  qed
qed

text \<open>
  Clients that play by the rules: they allocate, free a page they own, and write to pages they
  own. \<open>kmem_run s0 s own\<close>: such a run leads from \<open>s0\<close> to \<open>s\<close>, where the clients own the
  pages \<open>own\<close>.
\<close>

inductive kmem_run :: "kmems \<Rightarrow> kmems \<Rightarrow> u32 list \<Rightarrow> bool" for s0 where
  run_start: "kmem_run s0 s0 []"
| run_alloc: "kmem_run s0 s own \<Longrightarrow> kalloc s = Ok p t \<Longrightarrow> p \<noteq> 0 \<Longrightarrow> kmem_run s0 t (p # own)"
| run_alloc_fail: "kmem_run s0 s own \<Longrightarrow> kalloc s = Ok 0 t \<Longrightarrow> kmem_run s0 t own"
| run_free: "kmem_run s0 s own \<Longrightarrow> p \<in> set own \<Longrightarrow> kfree p s = Ok () t \<Longrightarrow> kmem_run s0 t (remove1 p own)"
| run_write: "kmem_run s0 s own \<Longrightarrow> PGROUNDDOWN x \<in> set own \<Longrightarrow> kmem_run s0 (s\<lparr>mem := (mem s)(x := b)\<rparr>) own"

lemma kmem_run_split:
  assumes "kmem_run s0 s own" and "kmem_ok s0 xs"
  shows "km.split s own (set xs)"
  using assms
proof (induction rule: kmem_run.induct)
  case run_start
  then show ?case unfolding km.split_def using free_pages_eq [of s0 xs] by (auto simp: kmem_wf_def kmem_ok_def)
next
  case (run_alloc s own p t)
  then show ?case using km.split_alloc [of s own "set xs" p t] by simp
next
  case (run_alloc_fail s own t)
  then show ?case using km.split_alloc [of s own "set xs" 0 t] by simp
next
  case (run_free s own p t)
  then show ?case using km.split_free [of s own "set xs" p] by auto
next
  case (run_write s own x b)
  then obtain ys where ys: "kmem_ok s ys" unfolding km.split_def by (auto simp: kmem_wf_def)
  have "PGROUNDDOWN x \<notin> set ys"
    using run_write free_pages_eq [OF ys] by (auto simp: km.split_def)
  then have ok: "kmem_ok (s\<lparr>mem := (mem s)(x := b)\<rparr>) ys"
    by (intro kmem_ok_frame [OF ys]) auto
  show ?case
    using run_write free_pages_eq [OF ys] free_pages_eq [OF ok] ok unfolding km.split_def
    by (auto simp: kmem_wf_def)
qed

lemma initframes_Ok:
  assumes "4 dvd unat (start_at s)" and "KERNBASE \<le> start_at s" and "unat (start_at s) + 16 \<le> unat (kend s)"
    and "kend s \<le> 0x8E000000" and "kmem_ok s xs"
  shows "\<exists>t. initframes s = Ok () t \<and> slots_ok t 0 \<and> kmem_ok t xs"
proof -
  let ?a = "start_at s"
  let ?m = "st32 (st32 (st32 (st32 (mem s) (?a + 8) (slot 0)) (slot 0 + 8) 0) (?a + 4) 0) ?a (- 1)"
  note u = unat_below [OF assms(3)]
  have ua: "unat (?a + 4) = unat ?a + 4" "unat (?a + 8) = unat ?a + 8" using u [of 4] u [of 8] by simp_all
  have us: "unat (slot 0 + 8) = 0x8E000008" using unat_slot_fields(3) [of 0] by simp
  have low: "unat ?a + 16 \<le> 0x8E000000" using assms(3,4) by (simp add: word_le_nat_alt)
  have d: "4 dvd unat (?a + 4)" "4 dvd unat (?a + 8)" "4 dvd unat (slot 0 + 8)"
    using assms(1) by (simp_all add: ua us)
  have ne: "?a + 4 \<noteq> ?a" "?a + 8 \<noteq> ?a" "?a + 4 \<noteq> ?a + 8" "slot 0 + 8 \<noteq> ?a + 8" "slot 0 + 8 \<noteq> ?a + 4"
      "slot 0 + 8 \<noteq> ?a"
    using ua us low by (auto simp: word_unat_eq_iff)
  have "ld32 ?m (?a + 8) = slot 0" "ld32 ?m (slot 0 + 8) = 0"
    using assms(1) d ne by (simp_all add: ld32_st32_other)
  moreover have "ld32 ?m x = ld32 (mem s) x" if "x \<in> set xs" for x
  proof -
    have v: "valid_page s x" using that assms(5) by (simp add: kmem_ok_def)
    then have "unat (kend s) \<le> unat x" "unat (v2p x) < 0xE000000" "4 dvd unat x"
      by (auto simp: valid_page_def word_le_nat_alt word_less_nat_alt dvd_4096_4)
    then have "?a \<noteq> x" "?a + 4 \<noteq> x" "?a + 8 \<noteq> x" "slot 0 + 8 \<noteq> x" "4 dvd unat x"
      using ua assms(3) slot_not_page [OF v, of 0 8] by auto
    then show ?thesis using assms(1) d by (simp add: ld32_st32_other)
  qed
  then have "fchain ?m p xs = fchain (mem s) p xs" for p by (rule fchain_cong)
  moreover have "initframes s = Ok () (s\<lparr>frames := 0, mem := ?m\<rparr>)"
    by (simp add: initframes_def p2v_def slot_def)
  ultimately show ?thesis using assms by (auto simp: slots_ok_def kmem_ok_def valid_page_def)
qed

lemma valid_page_above:
  assumes "KERNBASE \<le> kend s"
  shows "valid_page s v \<longleftrightarrow> 4096 dvd unat v \<and> kend s \<le> v \<and> v < 0x8E000000"
  using assms by (auto simp: valid_page_def v2p_def word_le_nat_alt word_less_nat_alt unat_sub_if')

section \<open>A small memory\<close>

definition kmem0 :: kmems where
  "kmem0 = kcore.extend (kcore0 []) (kmems.fields (\<lambda>_. 0) 0 False 0 0x80110000 0x80100000)"

definition kmem2 :: kmems where
  "kmem2 = freed 0x80201000 (freed 0x80200000 kmem0)"

lemma kmem2_ok: "kmem_ok kmem2 [0x80201000, 0x80200000]"
  unfolding kmem2_def
proof (intro kmem_ok_freed)
  show "kmem_ok kmem0 []" by (simp add: kmem_ok_def kmem0_def kcore.defs kmems.defs kcore0_def)
qed (simp_all add: valid_page_def kmem0_def kcore.defs kmems.defs kcore0_def v2p_def)

section \<open>Properties\<close>

text \<open>
  C8. No page is given out twice. Whatever sequence of allocations, frees of owned pages and writes
  to owned pages the clients perform, the pages they own are distinct, none of them is on the
  free list, owned and free pages together are the pages the allocator started with, freeing an
  owned page never panics, and an allocation returns 0 exactly when no page is free.
\<close>

theorem kalloc_kfree_ownership:
  assumes "kmem_ok s0 xs" and "kmem_run s0 s own"
  shows "distinct own \<and> set own \<inter> free_pages s = {} \<and> set own \<union> free_pages s = set xs \<and>
     (\<forall>p\<in>set own. \<exists>t. kfree p s = Ok () t) \<and> (\<exists>p t. kalloc s = Ok p t \<and> (p = 0 \<longleftrightarrow> free_pages s = {}))"
proof -
  have sp: "km.split s own (set xs)" by (rule kmem_run_split [OF assms(2,1)])
  then have "kmem_wf s" by (simp add: km.split_def)
  note r = km.alloc_returns [OF this]
  have f: "\<forall>p\<in>set own. \<exists>t. kfree p s = Ok () t" using km.split_free [OF sp] by blast
  show ?thesis using sp r f unfolding km.split_def by (intro conjI) simp_all
qed

theorem kalloc_kfree_ownership_witness:
  "\<exists>s. kmem_run kmem2 s [0x80201000] \<and> free_pages s = {0x80200000} \<and> (\<exists>t. kfree 0x80201000 s = Ok () t)"
proof -
  note K = kalloc_Cons [OF kmem2_ok]
  have run: "kmem_run kmem2 (kmem2\<lparr>freelist := ld32 (mem kmem2) 0x80201000\<rparr>) [0x80201000]"
    by (rule run_alloc [OF run_start K(1)]) simp
  with kalloc_kfree_ownership [OF kmem2_ok run] free_pages_eq [OF K(2)] show ?thesis by auto
qed

lemma PGROUNDUP_le_iff:
  assumes "vstart \<le> 0x8E000000" and "4096 dvd unat v"
  shows "PGROUNDUP vstart \<le> v \<longleftrightarrow> vstart \<le> v"
proof -
  have "unat vstart + 4095 < 2 ^ 32" using assms(1) by (simp add: word_le_nat_alt)
  with assms(2) show ?thesis by (auto simp: word_le_nat_alt unat_PGROUNDUP elim!: dvdE)
qed

lemma set_pages_PGROUNDUP:
  assumes "vstart \<le> 0x8E000000"
  shows "set (pages_in (PGROUNDUP vstart) vend) = {v. 4096 dvd unat v \<and> vstart \<le> v \<and> unat v + 4096 \<le> unat vend}"
  using PGROUNDUP_le_iff [OF assms] by (auto simp: set_pages_in)

lemma freerange_Ok:
  assumes ok: "kmem_ok s xs" and st: "kend s \<le> vstart" "KERNBASE \<le> vstart" "vstart \<le> 0x8E000000"
    and "vend \<le> 0x8E000000" and new: "\<forall>x\<in>set xs. \<not> (vstart \<le> x \<and> unat x + 4096 \<le> unat vend)"
  shows "\<exists>t. freerange vstart vend s = Ok () t \<and> kmem_ok t (rev (pages_in (PGROUNDUP vstart) vend) @ xs) \<and>
     kend t = kend s \<and> use_lock t = use_lock s \<and> held t = held s"
proof -
  have "unat vstart + 4095 < 2 ^ 32" using st(3) by (simp add: word_le_nat_alt)
  then have "unat (PGROUNDUP vstart) = (unat vstart + 4095) div 4096 * 4096" by (rule unat_PGROUNDUP)
  then have up: "vstart \<le> PGROUNDUP vstart" "PGROUNDUP vstart \<le> 0x8E000000"
    using st(3) by (auto simp: word_le_nat_alt)
  moreover have "set xs \<inter> set (pages_in (PGROUNDUP vstart) vend) = {}"
    unfolding set_pages_PGROUNDUP [OF st(3)] using new by auto
  moreover have "(unat vend - unat (PGROUNDUP vstart)) div 4096 < 2 ^ 20 + 1"
    using assms(5) by (simp add: word_le_nat_alt)
  ultimately show ?thesis
    unfolding freerange_def using ok st(1,2) assms(5)
    by (intro freerange_from_Ok) (auto intro: order_trans)
qed

lemma kinit2_Ok:
  assumes ok: "kmem_ok s xs" and st: "kend s \<le> vstart" "KERNBASE \<le> vstart" "vstart \<le> 0x8E000000"
    and "vend \<le> 0x8E000000" and new: "\<forall>x\<in>set xs. \<not> (vstart \<le> x \<and> unat x + 4096 \<le> unat vend)"
    and "LK_kmem \<notin> set (held s)"
  shows "\<exists>u. kinit2 vstart vend s = Ok () u \<and> kmem_ok u (rev (pages_in (PGROUNDUP vstart) vend) @ xs) \<and> use_lock u"
proof -
  obtain t where t: "freerange vstart vend s = Ok () t" "held t = held s"
      "kmem_ok t (rev (pages_in (PGROUNDUP vstart) vend) @ xs)"
    using freerange_Ok [OF assms(1-6)] by auto
  then have "kinit2 vstart vend s = Ok () (t\<lparr>use_lock := True\<rparr>)" by (simp add: kinit2_def)
  moreover have "kmem_ok (t\<lparr>use_lock := True\<rparr>) (rev (pages_in (PGROUNDUP vstart) vend) @ xs)"
    using t assms(7) by (simp add: kmem_ok_def)
  ultimately show ?thesis by simp
qed

lemma kinit_main:
  assumes "KERNBASE \<le> kend s" and "kend s \<le> 0x80400000" and "freelist s = 0" and "LK_kmem \<notin> set (held s)"
  shows "\<exists>t u xs. kinit1 (kend s) 0x80400000 s = Ok () t \<and> kinit2 0x80400000 0x8E000000 t = Ok () u \<and>
     kmem_ok u xs \<and> set xs = {v. valid_page s v} \<and> use_lock u"
proof -
  let ?p = "PGROUNDUP (kend s)"
  have "kmem_ok (s\<lparr>use_lock := False\<rparr>) []" using assms(3) by (simp add: kmem_ok_def)
  then obtain t where t: "kinit1 (kend s) 0x80400000 s = Ok () t" "kmem_ok t (rev (pages_in ?p 0x80400000))"
      "kend t = kend s" "held t = held s"
    using freerange_Ok [of "s\<lparr>use_lock := False\<rparr>" "[]" "kend s" "0x80400000"] assms(1,2)
    by (auto simp: kinit1_def word_le_nat_alt)
  note low = set_pages_PGROUNDUP [of "kend s" "0x80400000"]
  obtain u where u: "kinit2 0x80400000 0x8E000000 t = Ok () u" "use_lock u"
      "kmem_ok u (rev (pages_in (PGROUNDUP 0x80400000) 0x8E000000) @ rev (pages_in ?p 0x80400000))"
    using kinit2_Ok [OF t(2), of "0x80400000" "0x8E000000"] t(3,4) assms(2,4) low
    by (auto simp: word_le_nat_alt)
  have "set (rev (pages_in (PGROUNDUP 0x80400000) 0x8E000000) @ rev (pages_in ?p 0x80400000)) = {v. valid_page s v}"
    using valid_page_above [OF assms(1)] assms(2) low set_pages_PGROUNDUP [of "0x80400000" "0x8E000000"]
    by (auto simp: word_le_nat_alt word_less_nat_alt elim!: dvdE)
  with t(1) u show ?thesis by blast
qed

text \<open>
  C9. Start-up. Let the free list hold the pages \<open>xs\<close>, and let \<open>vstart\<close> and \<open>vend\<close> lie between
  the end of the kernel and the top of physical memory, with no page of \<open>xs\<close> among the whole
  pages of that range. Then \<open>kinit2(vstart, vend)\<close> returns and the free list is those whole
  pages, each once and the one freed last first, followed by \<open>xs\<close>; locking is on. So the two
  calls of \<open>main\<close>, \<open>kinit1(end, P2V(4MB))\<close> and \<open>kinit2(P2V(4MB), P2V(PHYSTOP))\<close>, free every
  page between the end of the kernel and the top of memory exactly once.
\<close>

theorem kinit_frees_every_page:
  assumes "kmem_ok s xs" and "kend s \<le> vstart" and "KERNBASE \<le> vstart" and "vstart \<le> 0x8E000000"
    and "vend \<le> 0x8E000000" and "\<forall>x\<in>set xs. \<not> (vstart \<le> x \<and> unat x + 4096 \<le> unat vend)"
    and "LK_kmem \<notin> set (held s)"
    and "KERNBASE \<le> kend r" and "kend r \<le> 0x80400000" and "freelist r = 0" and "LK_kmem \<notin> set (held r)"
  shows "(\<exists>u. kinit2 vstart vend s = Ok () u \<and> kmem_ok u (rev (pages_in (PGROUNDUP vstart) vend) @ xs) \<and> use_lock u) \<and>
     set (pages_in (PGROUNDUP vstart) vend) = {v. 4096 dvd unat v \<and> vstart \<le> v \<and> unat v + 4096 \<le> unat vend} \<and>
     (\<exists>t u ys. kinit1 (kend r) 0x80400000 r = Ok () t \<and> kinit2 0x80400000 0x8E000000 t = Ok () u \<and>
       kmem_ok u ys \<and> set ys = {v. valid_page r v} \<and> use_lock u)"
  using kinit2_Ok [OF assms(1-7)] set_pages_PGROUNDUP [OF assms(4)] kinit_main [OF assms(8-11)] by blast

theorem kinit_frees_every_page_witness:
  "(\<exists>u. kinit2 0x80400001 0x80403001 kmem2 = Ok () u \<and>
      kmem_ok u [0x80402000, 0x80401000, 0x80201000, 0x80200000] \<and> use_lock u) \<and>
   (\<exists>t u xs. kinit1 0x80110000 0x80400000 kmem0 = Ok () t \<and> kinit2 0x80400000 0x8E000000 t = Ok () u \<and>
     kmem_ok u xs \<and> set xs = {v. valid_page kmem0 v} \<and> use_lock u)"
proof -
  have k: "kend kmem0 = 0x80110000" "freelist kmem0 = 0" "held kmem0 = []"
      "kend kmem2 = 0x80110000" "held kmem2 = []"
    by (simp_all add: kmem2_def freed_def kmem0_def kcore.defs kmems.defs kcore0_def)
  have up: "PGROUNDUP 0x80400001 = 0x80401000"
    by (simp add: PGROUNDUP_DOWN word_unat_eq_iff unat_PGROUNDDOWN)
  have "pages_in (PGROUNDUP 0x80400001) 0x80403001 = [0x80401000, 0x80402000]"
    unfolding up by (simp add: pages_in_def upt_rec)
  with kinit_frees_every_page [OF kmem2_ok, of "0x80400001" "0x80403001" kmem0] show ?thesis by (simp add: k)
qed

text \<open>
  C10. Taking a frame by name. \<open>allocadd(pid, frame)\<close> is meant to remove the frame from the free
  list and to record it as taken. It appends the record, but the page it removes from the free
  list is the one after the frame: the frame itself stays free, and when it is the first page of
  the list the next \<open>kalloc\<close> gives it out again.
\<close>

theorem allocadd_leaves_frame_free:
  assumes "kmem_ok s (ys @ frame # z # zs)" and "slots_ok s k" and "Suc k < 2048"
  shows "\<exists>t. allocadd pid frame s = Ok 1 t \<and> slots_ok t (Suc k) \<and>
     taken_frames t (Suc k) = taken_frames s k @ [(pid, frame)] \<and>
     kmem_ok t (ys @ frame # zs) \<and> (ys = [] \<longrightarrow> (\<exists>u. kalloc t = Ok frame u))"
  using allocadd_Ok [OF assms] kalloc_Cons(1) by fastforce

theorem allocadd_leaves_frame_free_witness:
  "\<exists>s t u. initframes kmem2 = Ok () s \<and> allocadd 7 0x80201000 s = Ok 1 t \<and>
     taken_frames t 1 = [(7, 0x80201000)] \<and> kalloc t = Ok 0x80201000 u"
proof -
  have c: "start_at kmem2 = 0x80100000" "kend kmem2 = 0x80110000"
    by (simp_all add: kmem2_def freed_def kmem0_def kcore.defs kmems.defs)
  obtain s where s: "initframes kmem2 = Ok () s" "slots_ok s 0" "kmem_ok s ([] @ 0x80201000 # 0x80200000 # [])"
    using initframes_Ok [OF _ _ _ _ kmem2_ok] by (auto simp: c)
  with allocadd_leaves_frame_free [OF s(3,2), of 7] show ?thesis by (auto simp: taken_frames_def)
qed

end
