(* ===== verification/Vm.thy ===== *)
theory Vm
  imports Kalloc
begin

unbundle bit_operations_syntax

text \<open>
  Virtual memory, \<^verbatim>\<open>vm.c\<close>: two-level page tables in the memory of the kernel. A page
  directory and the page tables it points to are pages of the allocator; their entries are
  words of memory, read and written with \<open>ld32\<close> and \<open>st32\<close>.
\<close>

section \<open>Entries and indices\<close>

abbreviation (input) "PTE_P \<equiv> (0x001::u32)"
abbreviation (input) "PTE_W \<equiv> (0x002::u32)"
abbreviation (input) "PTE_U \<equiv> (0x004::u32)"
abbreviation (input) "EXTMEM \<equiv> (0x100000::u32)"
abbreviation (input) "DEVSPACE \<equiv> (0xFE000000::u32)"
abbreviation (input) "KERNLINK \<equiv> (0x80100000::u32)"
abbreviation (input) "KSTACKSIZE \<equiv> (4096::u32)"

definition PDX :: "u32 \<Rightarrow> u32" where
  "PDX va = (drop_bit 22 va) AND 0x3FF"

definition PTX :: "u32 \<Rightarrow> u32" where
  "PTX va = (drop_bit 12 va) AND 0x3FF"

definition PTE_ADDR :: "u32 \<Rightarrow> u32" where
  "PTE_ADDR pte = pte AND NOT 0xFFF"

definition PTE_FLAGS :: "u32 \<Rightarrow> u32" where
  "PTE_FLAGS pte = pte AND 0xFFF"

section \<open>Operations\<close>

text \<open>
  \<open>cr3\<close> is the page table register, \<open>esp0\<close> the stack of the task state segment; \<open>kdata\<close> is
  the symbol \<open>data\<close> of the linker script.
\<close>

record vms = kmems +
  kpgdir :: u32
  cr3 :: u32
  esp0 :: u32
  kdata :: u32

type_synonym ('z, 'a) vmf = "('z vms_scheme, 'a) kfun"

definition walkpgdir :: "u32 \<Rightarrow> u32 \<Rightarrow> bool \<Rightarrow> ('z, u32) kmemf" where
  "walkpgdir pgdir va alloc =
     bnd (gets (\<lambda>s. ld32 (mem s) (pgdir + 4 * PDX va))) (\<lambda>pde.
     if pde AND PTE_P \<noteq> 0 then ret (p2v (PTE_ADDR pde) + 4 * PTX va)
     else if \<not> alloc then ret 0
     else bnd kalloc (\<lambda>pgtab.
       if pgtab = 0 then ret 0
       else
         thn (modify (\<lambda>s. s\<lparr>mem := memset (mem s) pgtab 0 PGSIZE\<rparr>))
         (thn (modify (\<lambda>s. s\<lparr>mem := st32 (mem s) (pgdir + 4 * PDX va)
                (v2p pgtab OR PTE_P OR PTE_W OR PTE_U)\<rparr>))
          (ret (pgtab + 4 * PTX va)))))"

text \<open>The loop of \<open>mappages\<close>: the address space has \<open>2^20\<close> pages.\<close>

primrec mappages_from :: "nat \<Rightarrow> u32 \<Rightarrow> u32 \<Rightarrow> u32 \<Rightarrow> u32 \<Rightarrow> u32 \<Rightarrow> ('z, int) kmemf" where
  "mappages_from 0 pgdir a lst pa perm = diverge"
| "mappages_from (Suc n) pgdir a lst pa perm =
     bnd (walkpgdir pgdir a True) (\<lambda>pte.
     if pte = 0 then ret (-1)
     else bnd (gets (\<lambda>s. ld32 (mem s) pte)) (\<lambda>e.
       if e AND PTE_P \<noteq> 0 then panic ''remap''
       else
         thn (modify (\<lambda>s. s\<lparr>mem := st32 (mem s) pte (pa OR perm OR PTE_P)\<rparr>))
         (if a = lst then ret 0
          else mappages_from n pgdir (a + PGSIZE) lst (pa + PGSIZE) perm)))"

definition mappages :: "u32 \<Rightarrow> u32 \<Rightarrow> u32 \<Rightarrow> u32 \<Rightarrow> u32 \<Rightarrow> ('z, int) kmemf" where
  "mappages pgdir va sz pa perm =
     mappages_from (2 ^ 20) pgdir (PGROUNDDOWN va) (PGROUNDDOWN (va + sz - 1)) pa perm"

text \<open>The table \<open>kmap\<close>: virtual start, physical start, physical end, permissions.\<close>

definition kmap :: "u32 \<Rightarrow> (u32 \<times> u32 \<times> u32 \<times> u32) list" where
  "kmap data =
     [(KERNBASE, 0, EXTMEM, PTE_W),
      (KERNLINK, v2p KERNLINK, v2p data, 0),
      (data, v2p data, PHYSTOP, PTE_W),
      (v2p PHYSTOP, PHYSTOP, PHYSTOP + PGSIZE * 8, PTE_W),
      (DEVSPACE, DEVSPACE, 0, PTE_W)]"

primrec map_kernel :: "u32 \<Rightarrow> (u32 \<times> u32 \<times> u32 \<times> u32) list \<Rightarrow> ('z, bool) kmemf" where
  "map_kernel pgdir [] = ret True"
| "map_kernel pgdir (k # ks) = (case k of (virt, pstart, pend, perm) \<Rightarrow>
     bnd (mappages pgdir virt (pend - pstart) pstart perm) (\<lambda>r.
     if r < 0 then ret False else map_kernel pgdir ks))"

definition setupkvm :: "('z, u32) vmf" where
  "setupkvm =
     bnd kalloc (\<lambda>pgdir.
     if pgdir = 0 then ret 0
     else
       thn (modify (\<lambda>s. s\<lparr>mem := memset (mem s) pgdir 0 PGSIZE\<rparr>))
       (if p2v PHYSTOP > DEVSPACE then panic ''PHYSTOP too high''
        else bnd (gets kdata) (\<lambda>data.
          bnd (map_kernel pgdir (kmap data)) (\<lambda>ok. ret (if ok then pgdir else 0)))))"

definition switchkvm :: "('z, unit) vmf" where
  "switchkvm = modify (\<lambda>s. s\<lparr>cr3 := v2p (kpgdir s)\<rparr>)"

definition kvmalloc :: "('z, unit) vmf" where
  "kvmalloc = bnd setupkvm (\<lambda>p. thn (modify (\<lambda>s. s\<lparr>kpgdir := p\<rparr>)) switchkvm)"

text \<open>\<open>switchuvm\<close> sets up the kernel stack of the current process and loads the page table of \<open>p\<close>.\<close>

definition switchuvm :: "nat \<Rightarrow> ('z, unit) vmf" where
  "switchuvm p =
     bnd myproc (\<lambda>me.
     thn (modify (\<lambda>s. s\<lparr>esp0 := p_kstack (ptable s ! me) + KSTACKSIZE\<rparr>))
     (bnd (gets (\<lambda>s. p_pgdir (ptable s ! p))) (\<lambda>pgdir.
      if pgdir = 0 then panic ''switchuvm: no pgdir''
      else modify (\<lambda>s. s\<lparr>cr3 := v2p pgdir\<rparr>))))"

definition wr_bytes :: "mem \<Rightarrow> u32 \<Rightarrow> byte list \<Rightarrow> mem" where
  "wr_bytes m a bs = (\<lambda>x. if unat (x - a) < length bs then bs ! unat (x - a) else m x)"

text \<open>\<open>inituvm\<close>: \<open>init\<close> are the bytes of the program that is linked into the kernel.\<close>

definition inituvm :: "u32 \<Rightarrow> byte list \<Rightarrow> ('z, unit) vmf" where
  "inituvm pgdir init =
     (if length init \<ge> 4096 then panic ''inituvm: more than a page''
      else bnd kalloc (\<lambda>m.
        thn (modify (\<lambda>s. s\<lparr>mem := memset (mem s) m 0 PGSIZE\<rparr>))
        (bnd (mappages pgdir 0 PGSIZE (v2p m) (PTE_W OR PTE_U)) (\<lambda>_.
         modify (\<lambda>s. s\<lparr>mem := wr_bytes (mem s) m init\<rparr>)))))"

text \<open>\<open>loaduvm\<close> reads with \<open>readi\<close>, which is modelled with the file system.\<close>

primrec loaduvm_from :: "nat \<Rightarrow> (u32 \<Rightarrow> u32 \<Rightarrow> u32 \<Rightarrow> ('z, int) kmemf) \<Rightarrow> u32 \<Rightarrow> u32 \<Rightarrow> u32 \<Rightarrow> u32 \<Rightarrow> u32 \<Rightarrow>
    ('z, int) kmemf" where
  "loaduvm_from 0 rd pgdir addr offset sz i = diverge"
| "loaduvm_from (Suc k) rd pgdir addr offset sz i =
     (if \<not> i < sz then ret 0
      else bnd (walkpgdir pgdir (addr + i) False) (\<lambda>pte.
        if pte = 0 then panic ''loaduvm: address should exist''
        else bnd (gets (\<lambda>s. PTE_ADDR (ld32 (mem s) pte))) (\<lambda>pa.
          let n = (if sz - i < PGSIZE then sz - i else PGSIZE) in
          bnd (rd (p2v pa) (offset + i) n) (\<lambda>r.
          if word_of_int r \<noteq> n then ret (-1)
          else loaduvm_from k rd pgdir addr offset sz (i + PGSIZE)))))"

definition loaduvm :: "(u32 \<Rightarrow> u32 \<Rightarrow> u32 \<Rightarrow> ('z, int) kmemf) \<Rightarrow> u32 \<Rightarrow> u32 \<Rightarrow> u32 \<Rightarrow> u32 \<Rightarrow> ('z, int) kmemf" where
  "loaduvm rd pgdir addr offset sz =
     (if addr mod PGSIZE \<noteq> 0 then panic ''loaduvm: addr must be page aligned''
      else loaduvm_from (2 ^ 20 + 1) rd pgdir addr offset sz 0)"

primrec deallocuvm_from :: "nat \<Rightarrow> u32 \<Rightarrow> u32 \<Rightarrow> u32 \<Rightarrow> ('z, unit) kmemf" where
  "deallocuvm_from 0 pgdir a oldsz = diverge"
| "deallocuvm_from (Suc n) pgdir a oldsz =
     (if \<not> a < oldsz then ret ()
      else bnd (walkpgdir pgdir a False) (\<lambda>pte.
        if pte = 0 then deallocuvm_from n pgdir (a + 1023 * PGSIZE + PGSIZE) oldsz
        else bnd (gets (\<lambda>s. ld32 (mem s) pte)) (\<lambda>e.
          if e AND PTE_P \<noteq> 0 then
            (if PTE_ADDR e = 0 then panic ''kfree''
             else thn (kfree (p2v (PTE_ADDR e)))
               (thn (modify (\<lambda>s. s\<lparr>mem := st32 (mem s) pte 0\<rparr>))
                (deallocuvm_from n pgdir (a + PGSIZE) oldsz)))
          else deallocuvm_from n pgdir (a + PGSIZE) oldsz)))"

definition deallocuvm :: "u32 \<Rightarrow> u32 \<Rightarrow> u32 \<Rightarrow> ('z, u32) kmemf" where
  "deallocuvm pgdir oldsz newsz =
     (if newsz \<ge> oldsz then ret oldsz
      else thn (deallocuvm_from (2 ^ 20 + 1) pgdir (PGROUNDUP newsz) oldsz) (ret newsz))"

primrec allocuvm_from :: "nat \<Rightarrow> u32 \<Rightarrow> u32 \<Rightarrow> u32 \<Rightarrow> u32 \<Rightarrow> ('z, u32) kmemf" where
  "allocuvm_from 0 pgdir oldsz newsz a = diverge"
| "allocuvm_from (Suc n) pgdir oldsz newsz a =
     (if \<not> a < newsz then ret newsz
      else bnd kalloc (\<lambda>m.
        if m = 0 then
          thn (cprintf ''allocuvm out of memory'') (bnd (deallocuvm pgdir newsz oldsz) (\<lambda>_. ret 0))
        else
          thn (modify (\<lambda>s. s\<lparr>mem := memset (mem s) m 0 PGSIZE\<rparr>))
          (bnd (mappages pgdir a PGSIZE (v2p m) (PTE_W OR PTE_U)) (\<lambda>_.
           allocuvm_from n pgdir oldsz newsz (a + PGSIZE)))))"

definition allocuvm :: "u32 \<Rightarrow> u32 \<Rightarrow> u32 \<Rightarrow> ('z, u32) kmemf" where
  "allocuvm pgdir oldsz newsz =
     (if newsz \<ge> KERNBASE then ret 0
      else if newsz < oldsz then ret oldsz
      else allocuvm_from (2 ^ 20 + 1) pgdir oldsz newsz (PGROUNDUP oldsz))"

definition freevm :: "u32 \<Rightarrow> ('z, unit) kmemf" where
  "freevm pgdir =
     (if pgdir = 0 then panic ''freevm: no pgdir''
      else bnd (deallocuvm pgdir KERNBASE 0) (\<lambda>_.
        thn (for_each [0..<1024] (\<lambda>i.
          bnd (gets (\<lambda>s. ld32 (mem s) (pgdir + 4 * of_nat i))) (\<lambda>e.
          whenk (e AND PTE_P \<noteq> 0) (kfree (p2v (PTE_ADDR e))))))
        (kfree pgdir)))"

definition clearpteu :: "u32 \<Rightarrow> u32 \<Rightarrow> ('z, unit) kmemf" where
  "clearpteu pgdir uva =
     bnd (walkpgdir pgdir uva False) (\<lambda>pte.
     if pte = 0 then panic ''clearpteu''
     else modify (\<lambda>s. s\<lparr>mem := st32 (mem s) pte (ld32 (mem s) pte AND NOT PTE_U)\<rparr>))"

text \<open>The copy loop of \<open>copyuvm\<close>; \<open>False\<close> is the jump to \<open>bad\<close>.\<close>

primrec copyuvm_from :: "nat \<Rightarrow> u32 \<Rightarrow> u32 \<Rightarrow> u32 \<Rightarrow> u32 \<Rightarrow> ('z, bool) kmemf" where
  "copyuvm_from 0 pgdir d sz i = diverge"
| "copyuvm_from (Suc n) pgdir d sz i =
     (if \<not> i < sz then ret True
      else bnd (walkpgdir pgdir i False) (\<lambda>pte.
        if pte = 0 then panic ''copyuvm: pte should exist''
        else bnd (gets (\<lambda>s. ld32 (mem s) pte)) (\<lambda>e.
          if e AND PTE_P = 0 then panic ''copyuvm: page not present''
          else bnd kalloc (\<lambda>m.
            if m = 0 then ret False
            else
              thn (modify (\<lambda>s. s\<lparr>mem := memmove (mem s) m (p2v (PTE_ADDR e)) PGSIZE\<rparr>))
              (bnd (mappages d i PGSIZE (v2p m) (PTE_FLAGS e)) (\<lambda>r.
               if r < 0 then ret False else copyuvm_from n pgdir d sz (i + PGSIZE)))))))"

definition copyuvm :: "u32 \<Rightarrow> u32 \<Rightarrow> ('z, u32) vmf" where
  "copyuvm pgdir sz =
     bnd setupkvm (\<lambda>d.
     if d = 0 then ret 0
     else bnd (copyuvm_from (2 ^ 20 + 1) pgdir d sz 0) (\<lambda>ok.
       if ok then ret d else thn (freevm d) (ret 0)))"

text \<open>\<open>uva2ka\<close> reads through the entry's address without a test for the null pointer.\<close>

definition uva2ka :: "u32 \<Rightarrow> u32 \<Rightarrow> ('z, u32) kmemf" where
  "uva2ka pgdir uva =
     bnd (walkpgdir pgdir uva False) (\<lambda>pte.
     if pte = 0 then fault ''*pte''
     else bnd (gets (\<lambda>s. ld32 (mem s) pte)) (\<lambda>e.
       if e AND PTE_P = 0 then ret 0
       else if e AND PTE_U = 0 then ret 0
       else ret (p2v (PTE_ADDR e))))"

text \<open>\<open>copyout\<close>; \<open>bs\<close> are the \<open>len\<close> bytes at \<open>p\<close>.\<close>

primrec copyout_from :: "nat \<Rightarrow> u32 \<Rightarrow> u32 \<Rightarrow> byte list \<Rightarrow> ('z, int) kmemf" where
  "copyout_from 0 pgdir va bs = diverge"
| "copyout_from (Suc k) pgdir va bs =
     (if bs = [] then ret 0
      else let va0 = PGROUNDDOWN va in
        bnd (uva2ka pgdir va0) (\<lambda>pa0.
        if pa0 = 0 then ret (-1)
        else let n = min (unat (PGSIZE - (va - va0))) (length bs) in
          thn (modify (\<lambda>s. s\<lparr>mem := wr_bytes (mem s) (pa0 + (va - va0)) (take n bs)\<rparr>))
          (copyout_from k pgdir (va0 + PGSIZE) (drop n bs))))"

definition copyout :: "u32 \<Rightarrow> u32 \<Rightarrow> byte list \<Rightarrow> ('z, int) kmemf" where
  "copyout pgdir va bs = copyout_from (Suc (length bs)) pgdir va bs"

section \<open>Page tables as a function\<close>

lemma unat_PDX: "unat (PDX va) = unat va div 2 ^ 22"
proof -
  have m: "0x3FF = (mask 10 :: u32)" by (simp add: mask_eq_exp_minus_1)
  have "unat va div 2 ^ 22 < 1024" using unat_u32_less [of va] by (simp add: div_less_iff_less_mult)
  then show ?thesis
    unfolding PDX_def m take_bit_eq_mask [symmetric]
    by (simp add: take_bit_eq_mod drop_bit_eq_div unat_div unat_mod)
qed

lemma unat_PTX: "unat (PTX va) = unat va div 4096 mod 1024"
proof -
  have m: "0x3FF = (mask 10 :: u32)" by (simp add: mask_eq_exp_minus_1)
  show ?thesis
    unfolding PTX_def m take_bit_eq_mask [symmetric]
    by (simp add: take_bit_eq_mod drop_bit_eq_div unat_div unat_mod)
qed

lemma PDX_less: "unat (PDX va) < 1024" and PTX_less: "unat (PTX va) < 1024"
  using unat_u32_less [of va] by (simp_all add: unat_PDX unat_PTX div_less_iff_less_mult)

lemma PDX_PTX_page: "PDX va = PDX vb \<and> PTX va = PTX vb \<longleftrightarrow> PGROUNDDOWN va = PGROUNDDOWN vb"
proof -
  have p: "unat (PDX v) = unat v div 4096 div 1024" for v :: u32
    unfolding unat_PDX div_mult2_eq [symmetric] by simp
  have "n div 1024 = k div 1024 \<and> n mod 1024 = k mod 1024 \<longleftrightarrow> n = k" for n k :: nat
    by (metis div_mult_mod_eq)
  from this [of "unat va div 4096" "unat vb div 4096"]
  show ?thesis unfolding word_unat_eq_iff p unat_PTX unat_PGROUNDDOWN by (simp only: mult_cancel2) simp
qed

lemma PTE_ADDR_eq: "PTE_ADDR e = PGROUNDDOWN e"
  by (simp add: PTE_ADDR_def PGROUNDDOWN_def)

lemma PTE_ADDR_OR: "PTE_ADDR (a OR b) = PTE_ADDR a OR PTE_ADDR b"
  by (simp add: PTE_ADDR_def bit.conj_disj_distrib2)

lemma p2v_dvd [simp]: "4096 dvd unat (p2v a) \<longleftrightarrow> 4096 dvd unat a"
proof -
  have d: "(4096::nat) dvd 2 ^ 32" "(4096::nat) dvd 0x80000000" by simp_all
  have "unat (p2v a) = (unat a + 0x80000000) mod 2 ^ 32" by (simp add: p2v_def unat_word_ariths)
  then show ?thesis using d by (simp only: dvd_mod_iff dvd_add_left_iff)
qed

lemma v2p_dvd [simp]: "4096 dvd unat (v2p a) \<longleftrightarrow> 4096 dvd unat a"
  using p2v_dvd [of "v2p a"] by simp

lemma entry_word:
  assumes "4096 dvd unat p" and "unat i < 1024"
  shows "PGROUNDDOWN (p + 4 * i) = p" and "4 dvd unat (p + 4 * i)" and "unat (p + 4 * i) = unat p + 4 * unat i"
proof -
  have e: "p + 4 * i = p + of_nat (4 * unat i)" by simp
  show u: "unat (p + 4 * i) = unat p + 4 * unat i"
    unfolding e by (rule unat_add_aligned [of 4096]) (use assms in auto)
  show "PGROUNDDOWN (p + 4 * i) = p" unfolding e by (rule PGROUNDDOWN_offset) (use assms in auto)
  show "4 dvd unat (p + 4 * i)" unfolding u using assms(1) by (simp add: dvd_4096_4)
qed

definition pde :: "mem \<Rightarrow> u32 \<Rightarrow> u32 \<Rightarrow> u32" where
  "pde m pgdir va = ld32 m (pgdir + 4 * PDX va)"

definition present :: "u32 \<Rightarrow> bool" where
  "present e \<longleftrightarrow> e AND PTE_P \<noteq> 0"

definition tab :: "mem \<Rightarrow> u32 \<Rightarrow> u32 \<Rightarrow> u32" where
  "tab m pgdir va = p2v (PTE_ADDR (pde m pgdir va))"

definition pte_at :: "mem \<Rightarrow> u32 \<Rightarrow> u32 \<Rightarrow> u32" where
  "pte_at m pgdir va = tab m pgdir va + 4 * PTX va"

text \<open>What the processor finds in the page table for an address: the entry, if it is present.\<close>

definition translate :: "mem \<Rightarrow> u32 \<Rightarrow> u32 \<Rightarrow> u32 option" where
  "translate m pgdir va =
     (if present (pde m pgdir va) \<and> present (ld32 m (pte_at m pgdir va))
      then Some (ld32 m (pte_at m pgdir va)) else None)"

definition pt_pages :: "mem \<Rightarrow> u32 \<Rightarrow> u32 set" where
  "pt_pages m pgdir = insert pgdir {tab m pgdir va | va. present (pde m pgdir va)}"

text \<open>
  \<open>pt_wf s xs pgdir\<close>: the directory and its tables are pages that are not on the free list
  \<open>xs\<close>, and no page serves twice.
\<close>

definition pt_wf :: "'z kmems_scheme \<Rightarrow> u32 list \<Rightarrow> u32 \<Rightarrow> bool" where
  "pt_wf s xs pgdir \<longleftrightarrow> (\<forall>p\<in>pt_pages (mem s) pgdir. valid_page s p \<and> p \<notin> set xs) \<and>
     (\<forall>va. present (pde (mem s) pgdir va) \<longrightarrow> tab (mem s) pgdir va \<noteq> pgdir) \<and>
     (\<forall>va vb. present (pde (mem s) pgdir va) \<longrightarrow> present (pde (mem s) pgdir vb) \<longrightarrow>
        tab (mem s) pgdir va = tab (mem s) pgdir vb \<longrightarrow> PDX va = PDX vb)"

lemma pt_wf_pgdir: "pt_wf s xs pgdir \<Longrightarrow> valid_page s pgdir" "pt_wf s xs pgdir \<Longrightarrow> pgdir \<notin> set xs"
  by (auto simp: pt_wf_def pt_pages_def)

lemma pt_wf_tab:
  assumes "pt_wf s xs pgdir" and "present (pde (mem s) pgdir va)"
  shows "valid_page s (tab (mem s) pgdir va)" and "tab (mem s) pgdir va \<notin> set xs" and "tab (mem s) pgdir va \<noteq> pgdir"
  using assms by (auto simp: pt_wf_def pt_pages_def)

lemma pt_wf_inj:
  assumes "pt_wf s xs pgdir" and "present (pde (mem s) pgdir va)" and "present (pde (mem s) pgdir vb)"
    and "tab (mem s) pgdir va = tab (mem s) pgdir vb"
  shows "PDX va = PDX vb"
  using assms unfolding pt_wf_def by blast

lemma valid_page_dvd: "valid_page s p \<Longrightarrow> 4096 dvd unat p"
  by (simp add: valid_page_def)

lemma pde_cong:
  assumes "4096 dvd unat pgdir" and "\<And>x. PGROUNDDOWN x = pgdir \<Longrightarrow> m' x = m x"
  shows "pde m' pgdir va = pde m pgdir va"
  unfolding pde_def
  by (rule ld32_page_cong) (use entry_word [OF assms(1) PDX_less] assms(2) in auto)

lemma tab_dvd: "4096 dvd unat (tab m pgdir va)"
  by (simp add: tab_def PTE_ADDR_eq)

lemma pte_at_word: "PGROUNDDOWN (pte_at m pgdir va) = tab m pgdir va" "4 dvd unat (pte_at m pgdir va)"
  using entry_word [OF tab_dvd PTX_less, of m pgdir va va] by (simp_all add: pte_at_def)

lemma pt_cong:
  assumes "4096 dvd unat pgdir" and "\<And>x. PGROUNDDOWN x \<in> pt_pages m pgdir \<Longrightarrow> m' x = m x"
  shows "pde m' pgdir va = pde m pgdir va" and "tab m' pgdir va = tab m pgdir va"
    and "pt_pages m' pgdir = pt_pages m pgdir" and "translate m' pgdir va = translate m pgdir va"
proof -
  show p: "pde m' pgdir va = pde m pgdir va" for va
    using assms by (intro pde_cong) (auto simp: pt_pages_def)
  then show t: "tab m' pgdir va = tab m pgdir va" for va by (simp add: tab_def)
  show "pt_pages m' pgdir = pt_pages m pgdir" by (simp add: pt_pages_def p t)
  have "ld32 m' (pte_at m pgdir va) = ld32 m (pte_at m pgdir va)" if "present (pde m pgdir va)" for va
    using that assms(2) by (intro ld32_page_cong) (auto simp: pte_at_word pt_pages_def)
  then show "translate m' pgdir va = translate m pgdir va" by (auto simp: translate_def pte_at_def p t)
qed

lemma pt_wf_frame:
  assumes wf: "pt_wf s xs pgdir" and "kend t = kend s"
    and m: "\<And>x. PGROUNDDOWN x \<in> pt_pages (mem s) pgdir \<Longrightarrow> mem t x = mem s x"
    and ys: "set ys \<inter> pt_pages (mem s) pgdir = {}"
  shows "pt_wf t ys pgdir"
proof -
  have "4096 dvd unat pgdir" using pt_wf_pgdir(1) [OF wf] by (rule valid_page_dvd)
  have C: "pde (mem t) pgdir va = pde (mem s) pgdir va" "tab (mem t) pgdir va = tab (mem s) pgdir va"
      "pt_pages (mem t) pgdir = pt_pages (mem s) pgdir" for va
    using pt_cong(1-3) [OF \<open>4096 dvd unat pgdir\<close>, of "mem s" "mem t"] m by blast+
  have v: "valid_page t p = valid_page s p" for p using assms(2) by (simp add: valid_page_def)
  show ?thesis using wf ys unfolding pt_wf_def C v disjoint_iff by blast
qed

lemma pde_st32:
  assumes "4096 dvd unat pgdir"
  shows "pde (st32 m (pgdir + 4 * PDX va) w) pgdir vb = (if PDX vb = PDX va then w else pde m pgdir vb)"
proof (cases "PDX vb = PDX va")
  case False
  then have "pgdir + 4 * PDX va \<noteq> pgdir + 4 * PDX vb"
    using entry_word(3) [OF assms PDX_less, of va] entry_word(3) [OF assms PDX_less, of vb]
    by (auto simp: word_unat_eq_iff)
  with False entry_word(2) [OF assms PDX_less] show ?thesis by (simp add: pde_def ld32_st32_other)
qed (simp add: pde_def)

lemma ld32_zero: "(\<And>x. PGROUNDDOWN x = PGROUNDDOWN a \<Longrightarrow> m x = 0) \<Longrightarrow> 4 dvd unat a \<Longrightarrow> ld32 m a = 0"
  using ld32_page_cong [of a m "\<lambda>_. 0"] by (simp add: ld32_def mk32_def)

lemma present_bit: "present e \<longleftrightarrow> bit e 0"
  by (simp add: present_def and_one_eq mod_2_eq_odd bit_0)

lemma new_pde:
  assumes "4096 dvd unat x"
  shows "present (v2p x OR 7)" and "p2v (PTE_ADDR (v2p x OR 7)) = x"
proof -
  show "present (v2p x OR 7)" by (simp add: present_bit bit_simps)
  have "PTE_ADDR (v2p x) = v2p x" using assms by (simp add: PTE_ADDR_eq PGROUNDDOWN_aligned)
  moreover have "PTE_ADDR 7 = 0" by (simp add: PTE_ADDR_def)
  ultimately show "p2v (PTE_ADDR (v2p x OR 7)) = x" by (simp add: PTE_ADDR_OR)
qed

definition new_table :: "u32 \<Rightarrow> u32 \<Rightarrow> u32 \<Rightarrow> mem \<Rightarrow> mem" where
  "new_table pgdir va x m = st32 (memset m x 0 4096) (pgdir + 4 * PDX va) (v2p x OR 7)"

lemma new_table_mem:
  assumes "4096 dvd unat pgdir" "4096 dvd unat x" "PGROUNDDOWN y \<noteq> x" "PGROUNDDOWN y \<noteq> pgdir"
  shows "new_table pgdir va x m y = m y"
  using assms entry_word(1,2) [OF assms(1) PDX_less, of va]
  by (simp add: new_table_def st32_page memset_page)

lemma new_table_zero:
  assumes "4096 dvd unat pgdir" "4096 dvd unat x" "x \<noteq> pgdir" "PGROUNDDOWN y = x"
  shows "new_table pgdir va x m y = 0"
  using assms entry_word(1,2) [OF assms(1) PDX_less, of va]
  by (simp add: new_table_def st32_page memset_page)

lemma new_table_pde:
  assumes "4096 dvd unat pgdir" "4096 dvd unat x" "x \<noteq> pgdir"
  shows "pde (new_table pgdir va x m) pgdir vb =
    (if PDX vb = PDX va then v2p x OR 7 else pde m pgdir vb)"
proof -
  have "pde (memset m x 0 4096) pgdir vb = pde m pgdir vb"
    by (rule pde_cong [OF assms(1)]) (use assms in \<open>auto simp: memset_page\<close>)
  then show ?thesis by (simp add: new_table_def pde_st32 [OF assms(1)])
qed

lemma new_table_translate:
  assumes d: "4096 dvd unat pgdir" "4096 dvd unat x" "x \<noteq> pgdir"
    and ab: "\<not> present (pde m pgdir va)" and x: "x \<notin> pt_pages m pgdir"
    and wf: "\<And>vb. present (pde m pgdir vb) \<Longrightarrow> tab m pgdir vb \<noteq> pgdir"
  shows "translate (new_table pgdir va x m) pgdir vb = translate m pgdir vb"
proof (cases "PDX vb = PDX va")
  case True
  let ?m = "new_table pgdir va x m"
  have t: "tab ?m pgdir vb = x" using True by (simp add: tab_def new_table_pde [OF d] new_pde [OF d(2)])
  have "ld32 ?m (pte_at ?m pgdir vb) = 0"
    using new_table_zero [OF d] by (intro ld32_zero) (auto simp: pte_at_word t)
  moreover have "\<not> present 0" by (simp add: present_def)
  moreover have "pde m pgdir vb = pde m pgdir va" using True by (simp add: pde_def)
  ultimately show ?thesis using ab by (simp add: translate_def)
next
  case False
  let ?m = "new_table pgdir va x m"
  have p: "pde ?m pgdir vb = pde m pgdir vb" using False by (simp add: new_table_pde [OF d])
  then have q: "pte_at ?m pgdir vb = pte_at m pgdir vb" by (simp add: pte_at_def tab_def)
  have "ld32 ?m (pte_at m pgdir vb) = ld32 m (pte_at m pgdir vb)" if pr: "present (pde m pgdir vb)"
  proof (rule ld32_page_cong [OF pte_at_word(2)])
    fix y assume "PGROUNDDOWN y = PGROUNDDOWN (pte_at m pgdir vb)"
    moreover have "tab m pgdir vb \<noteq> x" using pr x by (auto simp: pt_pages_def)
    ultimately show "?m y = m y" using new_table_mem [OF d(1,2), of y] wf [OF pr] by (simp add: pte_at_word)
  qed
  then show ?thesis by (auto simp: translate_def p q)
qed

section \<open>Walking and storing\<close>

text \<open>
  \<open>vm_keep s xs t ys pgdir\<close>: between \<open>s\<close>, with free list \<open>xs\<close>, and \<open>t\<close>, with free list
  \<open>ys\<close>, only pages of this page table and pages that left the free list were written.
\<close>

definition vm_keep :: "'z kmems_scheme \<Rightarrow> u32 list \<Rightarrow> 'z kmems_scheme \<Rightarrow> u32 list \<Rightarrow> u32 \<Rightarrow> bool" where
  "vm_keep s xs t ys pgdir \<longleftrightarrow> kmem_ok t ys \<and> pt_wf t ys pgdir \<and> set ys \<subseteq> set xs \<and>
     (\<exists>m p. t = s\<lparr>mem := m, freelist := p\<rparr>) \<and>
     pt_pages (mem t) pgdir \<subseteq> pt_pages (mem s) pgdir \<union> (set xs - set ys) \<and>
     pt_pages (mem s) pgdir \<subseteq> pt_pages (mem t) pgdir \<and>
     (\<forall>x. PGROUNDDOWN x \<notin> pt_pages (mem s) pgdir \<union> (set xs - set ys) \<longrightarrow> mem t x = mem s x)"

lemma vm_keep_refl: "kmem_ok s xs \<Longrightarrow> pt_wf s xs pgdir \<Longrightarrow> vm_keep s xs s xs pgdir"
  unfolding vm_keep_def by (auto intro!: exI [of _ "mem s"] exI [of _ "freelist s"])

lemma vm_keepD:
  assumes "vm_keep s xs t ys pgdir"
  shows "kmem_ok t ys" "pt_wf t ys pgdir" "kend t = kend s" "ptable t = ptable s" "held t = held s"
    "set ys \<subseteq> set xs" "pt_pages (mem t) pgdir \<subseteq> pt_pages (mem s) pgdir \<union> (set xs - set ys)"
    "pt_pages (mem s) pgdir \<subseteq> pt_pages (mem t) pgdir"
    "PGROUNDDOWN x \<notin> pt_pages (mem s) pgdir \<union> (set xs - set ys) \<Longrightarrow> mem t x = mem s x"
    "\<exists>m p. t = s\<lparr>mem := m, freelist := p\<rparr>"
  using assms by (auto simp: vm_keep_def)

lemma vm_keep_trans:
  assumes a: "vm_keep s xs t ys pgdir" and b: "vm_keep t ys u zs pgdir"
  shows "vm_keep s xs u zs pgdir"
proof -
  note A = vm_keepD [OF a] and B = vm_keepD [OF b]
  have "\<exists>m p. u = s\<lparr>mem := m, freelist := p\<rparr>"
  proof -
    obtain m p m' p' where "t = s\<lparr>mem := m, freelist := p\<rparr>" "u = t\<lparr>mem := m', freelist := p'\<rparr>"
      using A(10) B(10) by blast
    then have "u = s\<lparr>mem := m', freelist := p'\<rparr>" by simp
    then show ?thesis by blast
  qed
  moreover have "mem u x = mem s x" if x: "PGROUNDDOWN x \<notin> pt_pages (mem s) pgdir \<union> (set xs - set zs)" for x
  proof -
    from x A(6,7) B(6) have "PGROUNDDOWN x \<notin> pt_pages (mem s) pgdir \<union> (set xs - set ys)"
        "PGROUNDDOWN x \<notin> pt_pages (mem t) pgdir \<union> (set ys - set zs)" by blast+
    then show ?thesis using A(9) B(9) by simp
  qed
  moreover have "pt_pages (mem u) pgdir \<subseteq> pt_pages (mem s) pgdir \<union> (set xs - set zs)"
    using A(6,7) B(6,7) by blast
  moreover have "set zs \<subseteq> set xs" "pt_pages (mem s) pgdir \<subseteq> pt_pages (mem u) pgdir"
    using A(6,8) B(6,8) by blast+
  ultimately show ?thesis using B(1,2) by (simp add: vm_keep_def)
qed

lemma walk_present:
  "present (pde (mem s) pgdir va) \<Longrightarrow> walkpgdir pgdir va alloc s = Ok (pte_at (mem s) pgdir va) s"
  by (simp add: walkpgdir_def present_def pde_def pte_at_def tab_def)

lemma walk_absent:
  "\<not> present (pde (mem s) pgdir va) \<Longrightarrow> walkpgdir pgdir va False s = Ok 0 s"
  by (simp add: walkpgdir_def present_def pde_def)

lemma pte_at_nonzero:
  assumes "pt_wf s xs pgdir" and "present (pde (mem s) pgdir va)"
  shows "pte_at (mem s) pgdir va \<noteq> 0"
proof
  assume "pte_at (mem s) pgdir va = 0"
  then have "tab (mem s) pgdir va = 0"
    using pte_at_word(1) [of "mem s" pgdir va] by (simp add: PGROUNDDOWN_aligned)
  with pt_wf_tab(1) [OF assms] show False by (auto dest: valid_page_nonzero)
qed

lemma walk_new:
  assumes ok: "kmem_ok s (x # ys)" and wf: "pt_wf s (x # ys) pgdir" and ab: "\<not> present (pde (mem s) pgdir va)"
  defines "t \<equiv> s\<lparr>freelist := ld32 (mem s) x, mem := new_table pgdir va x (mem s)\<rparr>"
  shows "walkpgdir pgdir va True s = Ok (x + 4 * PTX va) t" and "vm_keep s (x # ys) t ys pgdir"
    and "translate (mem t) pgdir vb = translate (mem s) pgdir vb"
    and "present (pde (mem t) pgdir va)" and "pte_at (mem t) pgdir va = x + 4 * PTX va"
proof -
  note K = kalloc_Cons [OF ok]
  have x: "valid_page s x" "x \<notin> set ys" "x \<noteq> 0" and xp: "x \<notin> pt_pages (mem s) pgdir"
    using ok wf valid_page_nonzero [of s x] by (auto simp: kmem_ok_def pt_wf_def)
  have d: "4096 dvd unat pgdir" "4096 dvd unat x" "x \<noteq> pgdir"
    using pt_wf_pgdir [OF wf] x valid_page_dvd by auto
  show "walkpgdir pgdir va True s = Ok (x + 4 * PTX va) t"
    using K(1) ab x(3) by (simp add: walkpgdir_def present_def pde_def t_def new_table_def)
  have mt: "mem t = new_table pgdir va x (mem s)" by (simp add: t_def)
  note P = new_table_pde [OF d, of va "mem s"]
  show "present (pde (mem t) pgdir va)" and pa: "pte_at (mem t) pgdir va = x + 4 * PTX va"
    by (simp_all add: mt P new_pde [OF d(2)] pte_at_def tab_def)
  show tr: "translate (mem t) pgdir vb = translate (mem s) pgdir vb" for vb
    unfolding mt by (rule new_table_translate [OF d ab xp]) (rule pt_wf_tab(3) [OF wf])
  have T: "tab (mem t) pgdir vb = (if PDX vb = PDX va then x else tab (mem s) pgdir vb)" for vb
    by (simp add: mt tab_def P new_pde [OF d(2)])
  have I: "present (pde (mem t) pgdir vb) \<longleftrightarrow> PDX vb = PDX va \<or> present (pde (mem s) pgdir vb)" for vb
    by (auto simp: mt P new_pde [OF d(2)])
  have N: "present (pde (mem s) pgdir vb) \<Longrightarrow> PDX vb \<noteq> PDX va" for vb
    using ab by (auto simp: pde_def)
  have pages: "pt_pages (mem t) pgdir = insert x (pt_pages (mem s) pgdir)"
  proof (intro equalityI subsetI)
    fix q assume "q \<in> pt_pages (mem t) pgdir"
    then consider "q = pgdir" | vb where "q = tab (mem t) pgdir vb" "present (pde (mem t) pgdir vb)"
      by (auto simp: pt_pages_def)
    then show "q \<in> insert x (pt_pages (mem s) pgdir)"
      by cases (auto simp: pt_pages_def T I)
  next
    fix q assume "q \<in> insert x (pt_pages (mem s) pgdir)"
    then consider "q = x" | "q = pgdir" | vb where "q = tab (mem s) pgdir vb" "present (pde (mem s) pgdir vb)"
      by (auto simp: pt_pages_def)
    then show "q \<in> pt_pages (mem t) pgdir"
    proof cases
      case 1
      then show ?thesis using T [of va] I [of va] unfolding pt_pages_def by auto
    next
      case (3 vb)
      then show ?thesis using T [of vb] I [of vb] N [of vb] unfolding pt_pages_def by auto
    qed (simp add: pt_pages_def)
  qed
  have fr: "mem t y = mem s y" if "PGROUNDDOWN y \<noteq> x" "PGROUNDDOWN y \<noteq> pgdir" for y
    unfolding mt using new_table_mem [OF d(1,2) that] .
  have "mem t y = mem s y" if "PGROUNDDOWN y \<in> set ys" for y
    using fr [of y] that x(2) pt_wf_pgdir(2) [OF wf] by auto
  then have ok': "kmem_ok t ys" by (intro kmem_ok_frame [OF K(2)]) (simp_all add: t_def)
  moreover have "pt_wf t ys pgdir"
  proof -
    have v: "valid_page t p = valid_page s p" for p by (simp add: t_def)
    have X: "present (pde (mem s) pgdir vb) \<Longrightarrow> tab (mem s) pgdir vb \<noteq> x" for vb
      using xp by (auto simp: pt_pages_def)
    show ?thesis unfolding pt_wf_def v
    proof (intro conjI allI impI ballI)
      fix p assume "p \<in> pt_pages (mem t) pgdir"
      then show "valid_page s p" "p \<notin> set ys" using pages x wf by (auto simp: pt_wf_def)
    next
      fix vb assume "present (pde (mem t) pgdir vb)"
      then show "tab (mem t) pgdir vb \<noteq> pgdir"
        using T [of vb] I [of vb] d(3) pt_wf_tab(3) [OF wf, of vb] by (cases "PDX vb = PDX va") auto
    next
      fix vb vc assume "present (pde (mem t) pgdir vb)" "present (pde (mem t) pgdir vc)"
        "tab (mem t) pgdir vb = tab (mem t) pgdir vc"
      then show "PDX vb = PDX vc"
        using T [of vb] T [of vc] X [of vb] X [of vc] I [of vb] I [of vc] pt_wf_inj [OF wf, of vb vc]
        by (cases "PDX vb = PDX va"; cases "PDX vc = PDX va") auto
    qed
  qed
  moreover have "\<exists>m p. t = s\<lparr>mem := m, freelist := p\<rparr>"
    by (intro exI [of _ "mem t"] exI [of _ "freelist t"]) (simp add: t_def)
  moreover have "pgdir \<in> pt_pages (mem s) pgdir" by (simp add: pt_pages_def)
  then have "\<forall>y. PGROUNDDOWN y \<notin> pt_pages (mem s) pgdir \<union> (set (x # ys) - set ys) \<longrightarrow> mem t y = mem s y"
    by (intro allI impI fr) (use x(2) in auto)
  ultimately show "vm_keep s (x # ys) t ys pgdir"
    unfolding vm_keep_def pages using x(2) by auto
qed

lemma walk_Ok:
  assumes ok: "kmem_ok s xs" and wf: "pt_wf s xs pgdir"
  shows "\<exists>r t ys. walkpgdir pgdir va True s = Ok r t \<and> vm_keep s xs t ys pgdir \<and>
     (\<forall>vb. translate (mem t) pgdir vb = translate (mem s) pgdir vb) \<and>
     (if r = 0 then xs = [] \<and> t = s else present (pde (mem t) pgdir va) \<and> r = pte_at (mem t) pgdir va)"
proof (cases "present (pde (mem s) pgdir va)")
  case True
  have "walkpgdir pgdir va True s = Ok (pte_at (mem s) pgdir va) s" by (rule walk_present [OF True])
  then show ?thesis using True vm_keep_refl [OF ok wf] pte_at_nonzero [OF wf True]
    by (intro exI [of _ "pte_at (mem s) pgdir va"] exI [of _ s] exI [of _ xs]) simp
next
  case False
  show ?thesis
  proof (cases xs)
    case Nil
    with ok have "kalloc s = Ok 0 s" by (simp add: kalloc_Nil)
    with False have "walkpgdir pgdir va True s = Ok 0 s" by (simp add: walkpgdir_def present_def pde_def)
    with Nil vm_keep_refl [OF ok wf] show ?thesis by auto
  next
    case (Cons x ys)
    note W = walk_new [OF ok [unfolded Cons] wf [unfolded Cons] False]
    have "pte_at (new_table pgdir va x (mem s)) pgdir va \<noteq> 0"
      using pte_at_nonzero [OF vm_keepD(2) [OF W(2)] W(4)] by simp
    with W Cons show ?thesis by auto
  qed
qed

lemma set_pte:
  assumes ok: "kmem_ok s xs" and wf: "pt_wf s xs pgdir" and pr: "present (pde (mem s) pgdir va)"
    and t_def: "t = s\<lparr>mem := st32 (mem s) (pte_at (mem s) pgdir va) w\<rparr>"
  shows "vm_keep s xs t xs pgdir"
    and "translate (mem t) pgdir vb = (if PGROUNDDOWN vb = PGROUNDDOWN va
      then (if present w then Some w else None) else translate (mem s) pgdir vb)"
    and "pde (mem t) pgdir vb = pde (mem s) pgdir vb"
proof -
  let ?a = "pte_at (mem s) pgdir va"
  note tb = pt_wf_tab [OF wf pr]
  have d: "4096 dvd unat pgdir" using pt_wf_pgdir(1) [OF wf] by (rule valid_page_dvd)
  have fr: "mem t y = mem s y" if "PGROUNDDOWN y \<noteq> tab (mem s) pgdir va" for y
    using that by (simp add: t_def st32_page pte_at_word)
  show p: "pde (mem t) pgdir vb = pde (mem s) pgdir vb" for vb
    using tb(3) by (intro pde_cong [OF d] fr) simp
  then have T: "tab (mem t) pgdir vb = tab (mem s) pgdir vb" for vb by (simp add: tab_def)
  have pages: "pt_pages (mem t) pgdir = pt_pages (mem s) pgdir" by (simp add: pt_pages_def p T)
  have ld: "ld32 (mem t) (pte_at (mem s) pgdir vb) = (if PGROUNDDOWN vb = PGROUNDDOWN va then w
      else ld32 (mem s) (pte_at (mem s) pgdir vb))" if "present (pde (mem s) pgdir vb)" for vb
  proof (cases "PGROUNDDOWN vb = PGROUNDDOWN va")
    case True
    then have "PDX vb = PDX va" "PTX vb = PTX va" using PDX_PTX_page [of vb va] by auto
    then have "pte_at (mem s) pgdir vb = ?a" by (simp add: pte_at_def tab_def pde_def)
    with True show ?thesis by (simp add: t_def)
  next
    case False
    have "?a \<noteq> pte_at (mem s) pgdir vb"
    proof
      assume e: "?a = pte_at (mem s) pgdir vb"
      then have tt: "tab (mem s) pgdir va = tab (mem s) pgdir vb" by (metis pte_at_word(1))
      with e have "unat (PTX va) = unat (PTX vb)"
        using entry_word(3) [OF tab_dvd PTX_less, of "mem s" pgdir va va]
          entry_word(3) [OF tab_dvd PTX_less, of "mem s" pgdir vb vb]
        by (simp add: pte_at_def)
      then have "PTX va = PTX vb" by (simp add: word_unat_eq_iff)
      moreover have "PDX va = PDX vb" using pt_wf_inj [OF wf pr that tt] .
      ultimately show False using False PDX_PTX_page [of vb va] by auto
    qed
    with False show ?thesis by (simp add: t_def ld32_st32_other pte_at_word)
  qed
  have "pte_at (mem t) pgdir vb = pte_at (mem s) pgdir vb" for vb by (simp add: pte_at_def T)
  moreover have "present (pde (mem s) pgdir vb)" if "PGROUNDDOWN vb = PGROUNDDOWN va" for vb
    using that pr PDX_PTX_page [of vb va] by (simp add: pde_def)
  ultimately show "translate (mem t) pgdir vb = (if PGROUNDDOWN vb = PGROUNDDOWN va
      then (if present w then Some w else None) else translate (mem s) pgdir vb)" for vb
    using ld [of vb] by (cases "PGROUNDDOWN vb = PGROUNDDOWN va") (auto simp: translate_def p)
  have ok': "kmem_ok t xs"
  proof (rule kmem_ok_frame [OF ok])
    show "mem t y = mem s y" if "PGROUNDDOWN y \<in> set xs" for y
      by (rule fr) (use that tb(2) in auto)
  qed (simp_all add: t_def)
  moreover have v: "valid_page t q = valid_page s q" for q by (simp add: t_def)
  moreover have "pt_wf t xs pgdir"
    using wf unfolding pt_wf_def pages p T v .
  moreover have "tab (mem s) pgdir va \<in> pt_pages (mem s) pgdir" using pr by (auto simp: pt_pages_def)
  then have "\<forall>x. PGROUNDDOWN x \<notin> pt_pages (mem s) pgdir \<union> (set xs - set xs) \<longrightarrow> mem t x = mem s x"
    by (intro allI impI fr) auto
  moreover have "\<exists>m p. t = s\<lparr>mem := m, freelist := p\<rparr>"
    by (intro exI [of _ "mem t"] exI [of _ "freelist s"]) (simp add: t_def)
  ultimately show "vm_keep s xs t xs pgdir" unfolding vm_keep_def pages by blast
qed

section \<open>Mapping a range\<close>

text \<open>The range of pages from \<open>a\<close> to \<open>lst\<close>, and where a page of it is mapped to.\<close>

definition in_range :: "u32 \<Rightarrow> u32 \<Rightarrow> u32 \<Rightarrow> bool" where
  "in_range a lst va \<longleftrightarrow> PGROUNDDOWN va - a \<le> lst - a"

definition mapped :: "u32 \<Rightarrow> u32 \<Rightarrow> u32 \<Rightarrow> u32 \<Rightarrow> (u32 \<Rightarrow> u32 option) \<Rightarrow> u32 \<Rightarrow> u32 option" where
  "mapped a lst pa perm f va =
     (if in_range a lst va then Some ((pa + (PGROUNDDOWN va - a)) OR perm OR 1) else f va)"

lemma present_mapped: "present (e OR perm OR 1)"
  by (simp add: present_bit bit_simps)

lemma dvd_minus_word:
  assumes "4096 dvd unat (a::u32)" and "4096 dvd unat b"
  shows "4096 dvd unat (a - b)"
proof -
  obtain i where i: "unat a = 4096 * i" using assms(1) unfolding dvd_def by blast
  obtain j where j: "unat b = 4096 * j" using assms(2) unfolding dvd_def by blast
  have "unat (a - b) = (if j \<le> i then 4096 * (i - j) else 4096 * (1048576 + i - j))"
    using i j unat_u32_less [of b] by (auto simp: unat_sub_if' word_le_nat_alt)
  then show ?thesis by simp
qed

lemma in_range_step:
  assumes "4096 dvd unat a" and "4096 dvd unat lst" and "a \<noteq> lst"
  shows "in_range a lst va \<longleftrightarrow> PGROUNDDOWN va = a \<or> in_range (a + 4096) lst va"
    and "PGROUNDDOWN va = a \<Longrightarrow> \<not> in_range (a + 4096) lst va"
proof -
  define d where "d = PGROUNDDOWN va - a"
  define e where "e = lst - a"
  have dd: "4096 dvd unat d" "4096 dvd unat e"
    unfolding d_def e_def using assms(1,2) by (simp_all add: dvd_minus_word)
  have e0: "e \<noteq> 0" using assms(3) by (simp add: e_def)
  have "unat e \<noteq> 0" using e0 by (simp add: unat_eq_0)
  then have e1: "4096 \<le> unat e" using dd(2) by (simp add: dvd_imp_le)
  have em: "unat (e - 4096) = unat e - 4096" using e1 by (simp add: unat_sub_if')
  have dm: "unat (d - 4096) = (if d = 0 then 2 ^ 32 - 4096 else unat d - 4096)"
  proof (cases "d = 0")
    case False
    then have "unat d \<noteq> 0" by (simp add: unat_eq_0)
    then have "4096 \<le> unat d" using dd(1) by (simp add: dvd_imp_le)
    with False show ?thesis by (simp add: unat_sub_if')
  qed simp
  have 1: "PGROUNDDOWN va - (a + 4096) = d - 4096" "lst - (a + 4096) = e - 4096"
    by (simp_all add: d_def e_def algebra_simps)
  have 2: "PGROUNDDOWN va = a \<longleftrightarrow> d = 0" by (simp add: d_def)
  have 3: "unat d \<ge> 4096" if "d \<noteq> 0"
    using that dd(1) by (metis dvd_imp_le gr0I unat_eq_0)
  have eb: "unat e - 4096 < 4294963200" using e1 unat_u32_less [of e] by linarith
  show "in_range a lst va \<longleftrightarrow> PGROUNDDOWN va = a \<or> in_range (a + 4096) lst va"
    unfolding in_range_def 1 2 unfolding d_def [symmetric] e_def [symmetric] word_le_nat_alt em dm
    using 3 e1 by auto
  show "\<not> in_range (a + 4096) lst va" if "PGROUNDDOWN va = a"
    using that eb unfolding in_range_def 1 2 word_le_nat_alt em dm by simp
qed

lemma range_step:
  assumes "4096 dvd unat (a::u32)" and "4096 dvd unat lst" and "a \<noteq> lst"
  shows "4096 dvd unat (a + 4096)" and "Suc (unat (lst - (a + 4096)) div 4096) = unat (lst - a) div 4096"
proof -
  have "4096 dvd unat (a - (0 - 4096))" by (rule dvd_minus_word [OF assms(1)]) simp
  then show "4096 dvd unat (a + 4096)" by simp
  have "4096 dvd unat (lst - a)" by (rule dvd_minus_word [OF assms(2,1)])
  moreover have "unat (lst - a) \<noteq> 0" using assms(3) by (simp add: unat_eq_0)
  ultimately have le: "4096 \<le> unat (lst - a)" by (simp add: dvd_imp_le)
  then have "unat (lst - a - 4096) = unat (lst - a) - 4096" by (simp add: unat_sub_if')
  then have "unat (lst - (a + 4096)) = unat (lst - a) - 4096" by (simp add: diff_diff_add)
  then show "Suc (unat (lst - (a + 4096)) div 4096) = unat (lst - a) div 4096"
    using le by (simp add: le_div_geq)
qed

lemma mapped_step:
  assumes "4096 dvd unat a" and "4096 dvd unat lst" and "a \<noteq> lst"
  shows "mapped (a + 4096) lst (pa + 4096) perm (\<lambda>v. if PGROUNDDOWN v = a then Some (pa OR perm OR 1) else f v) va =
    mapped a lst pa perm f va"
  using in_range_step [OF assms, of va] by (auto simp: mapped_def algebra_simps)

lemma mapped_last: "4096 dvd unat a \<Longrightarrow>
   mapped a a pa perm f va = (if PGROUNDDOWN va = a then Some (pa OR perm OR 1) else f va)"
  by (auto simp: mapped_def in_range_def)

text \<open>One turn of the loop: the entry is written, or the page was mapped before, or memory ran out.\<close>

definition map_one :: "u32 \<Rightarrow> u32 \<Rightarrow> u32 \<Rightarrow> ('z, int) kmemf" where
  "map_one pgdir a w =
     bnd (walkpgdir pgdir a True) (\<lambda>pte.
     if pte = 0 then ret (-1)
     else bnd (gets (\<lambda>s. ld32 (mem s) pte)) (\<lambda>e.
       if e AND PTE_P \<noteq> 0 then panic ''remap''
       else thn (modify (\<lambda>s. s\<lparr>mem := st32 (mem s) pte w\<rparr>)) (ret 0)))"

lemma mappages_from_Suc:
  "mappages_from (Suc n) pgdir a lst pa perm s = (case map_one pgdir a (pa OR perm OR 1) s of
     Ok r t \<Rightarrow> if r = 0 \<and> a \<noteq> lst then mappages_from n pgdir (a + 4096) lst (pa + 4096) perm t else Ok r t
   | Panic e \<Rightarrow> Panic e | Sleep c t \<Rightarrow> Sleep c t | Fault e \<Rightarrow> Fault e | Diverge \<Rightarrow> Diverge)"
  by (auto simp: map_one_def split: outcome.split)

lemma map_one_cases:
  assumes ok: "kmem_ok s xs" and wf: "pt_wf s xs pgdir" and w: "present w"
  obtains (mapped) t ys where "map_one pgdir a w s = Ok 0 t" "vm_keep s xs t ys pgdir"
      "translate (mem s) pgdir a = None"
      "\<And>vb. translate (mem t) pgdir vb = (if PGROUNDDOWN vb = PGROUNDDOWN a then Some w else translate (mem s) pgdir vb)"
    | (remap) "map_one pgdir a w s = Panic ''remap''" "translate (mem s) pgdir a \<noteq> None"
    | (full) "map_one pgdir a w s = Ok (-1) s" "xs = []"
proof -
  obtain r t ys where W: "walkpgdir pgdir a True s = Ok r t" "vm_keep s xs t ys pgdir"
      "\<forall>vb. translate (mem t) pgdir vb = translate (mem s) pgdir vb"
      "if r = 0 then xs = [] \<and> t = s else present (pde (mem t) pgdir a) \<and> r = pte_at (mem t) pgdir a"
    using walk_Ok [OF ok wf] by blast
  note K = vm_keepD [OF W(2)]
  show thesis
  proof (cases "r = 0")
    case True
    with W have "map_one pgdir a w s = Ok (-1) s" "xs = []" by (simp_all add: map_one_def)
    then show thesis by (rule full)
  next
    case False
    then have p: "present (pde (mem t) pgdir a)" "r = pte_at (mem t) pgdir a" using W(4) by auto
    have tr: "translate (mem s) pgdir a = (if present (ld32 (mem t) r) then Some (ld32 (mem t) r) else None)"
      unfolding W(3) [rule_format, symmetric] using p by (simp add: translate_def)
    show thesis
    proof (cases "present (ld32 (mem t) r)")
      case True
      then have "map_one pgdir a w s = Panic ''remap''" using W(1) False by (simp add: map_one_def present_def)
      then show thesis using tr True by (intro remap) simp_all
    next
      case absent: False
      let ?u = "t\<lparr>mem := st32 (mem t) (pte_at (mem t) pgdir a) w\<rparr>"
      note S = set_pte [OF K(1,2) p(1) refl, of w]
      have "map_one pgdir a w s = Ok 0 ?u"
        using W(1) False absent p(2) by (simp add: map_one_def present_def)
      moreover have "vm_keep s xs ?u ys pgdir" by (rule vm_keep_trans [OF W(2) S(1)])
      ultimately show thesis using tr absent S(2) W(3) w by (intro mapped [of ?u ys]) simp_all
    qed
  qed
qed

lemma mappages_from_spec:
  assumes "kmem_ok s xs" and "pt_wf s xs pgdir" and "4096 dvd unat a" and "4096 dvd unat lst"
    and "unat (lst - a) div 4096 < n"
  shows "(case mappages_from n pgdir a lst pa perm s of
      Ok r t \<Rightarrow> \<exists>ys. vm_keep s xs t ys pgdir \<and>
        (if r = 0 then \<forall>va. translate (mem t) pgdir va = mapped a lst pa perm (translate (mem s) pgdir) va
         else r = -1 \<and> ys = [] \<and> (\<forall>va. \<not> in_range a lst va \<longrightarrow> translate (mem t) pgdir va = translate (mem s) pgdir va))
    | Panic e \<Rightarrow> e = ''remap'' \<and> (\<exists>va. in_range a lst va \<and> translate (mem s) pgdir va \<noteq> None)
    | _ \<Rightarrow> False)"
  using assms
proof (induction n arbitrary: a pa s xs)
  case (Suc n)
  have a: "PGROUNDDOWN a = a" using Suc.prems(3) by (rule PGROUNDDOWN_aligned)
  have ra: "in_range a lst a" by (simp add: in_range_def a)
  show ?case
  proof (rule map_one_cases [OF Suc.prems(1,2) present_mapped [of pa perm], of a], goal_cases mapped remap full)
    case (mapped t ys)
    note K = vm_keepD [OF mapped(2)]
    show ?thesis
    proof (cases "a = lst")
      case True
      with mapped show ?thesis
        using mapped_last [OF Suc.prems(3), of pa perm "translate (mem s) pgdir"]
        by (auto simp: mappages_from_Suc PGROUNDDOWN_aligned [OF Suc.prems(4)] intro!: exI [of _ ys]
          simp del: mappages_from.simps)
    next
      case False
      have e: "4096 dvd unat (a + 4096)" "unat (lst - (a + 4096)) div 4096 < n"
        using range_step [OF Suc.prems(3,4) False] Suc.prems(5) by auto
      have tr: "translate (mem t) pgdir = (\<lambda>v. if PGROUNDDOWN v = a then Some (pa OR perm OR 1) else translate (mem s) pgdir v)"
        using mapped(4) by (simp add: fun_eq_iff a)
      note IH = Suc.IH [OF K(1,2) e(1) Suc.prems(4) e(2), of "pa + 4096"]
      note R = in_range_step [OF Suc.prems(3,4) False]
      show ?thesis
      proof (cases "mappages_from n pgdir (a + 4096) lst (pa + 4096) perm t")
        case (Ok r v)
        with IH obtain zs where zs: "vm_keep t ys v zs pgdir"
            "if r = 0 then \<forall>va. translate (mem v) pgdir va = Vm.mapped (a + 4096) lst (pa + 4096) perm (translate (mem t) pgdir) va
             else r = -1 \<and> zs = [] \<and> (\<forall>va. \<not> in_range (a + 4096) lst va \<longrightarrow> translate (mem v) pgdir va = translate (mem t) pgdir va)"
          by auto
        note M = mapped_step [OF Suc.prems(3,4) False, of pa perm "translate (mem s) pgdir"]
        have "vm_keep s xs v zs pgdir" by (rule vm_keep_trans [OF mapped(2) zs(1)])
        moreover have "if r = 0 then \<forall>va. translate (mem v) pgdir va = Vm.mapped a lst pa perm (translate (mem s) pgdir) va
             else r = -1 \<and> zs = [] \<and> (\<forall>va. \<not> in_range a lst va \<longrightarrow> translate (mem v) pgdir va = translate (mem s) pgdir va)"
          using zs(2) M R(1) unfolding tr by (cases "r = 0") auto
        ultimately show ?thesis using Ok mapped(1) False
          by (auto simp: mappages_from_Suc simp del: mappages_from.simps)
      next
        case (Panic e)
        with IH obtain va where va: "e = ''remap''" "in_range (a + 4096) lst va" "translate (mem t) pgdir va \<noteq> None"
          by auto
        have "PGROUNDDOWN va \<noteq> a" using R(2) va(2) by blast
        then have "in_range a lst va" "translate (mem s) pgdir va \<noteq> None" using va R(1) by (simp_all add: tr)
        then show ?thesis using Panic mapped(1) False va(1)
          by (auto simp: mappages_from_Suc simp del: mappages_from.simps)
      qed (use IH in simp_all)
    qed
  next
    case remap
    then show ?thesis using ra by (auto simp: mappages_from_Suc simp del: mappages_from.simps)
  next
    case full
    then show ?thesis using vm_keep_refl [OF Suc.prems(1,2)] by (auto simp: mappages_from_Suc simp del: mappages_from.simps)
  qed
qed simp

section \<open>User memory\<close>

definition user :: "u32 \<Rightarrow> bool" where
  "user e \<longleftrightarrow> e AND PTE_U \<noteq> 0"

text \<open>The byte that a user program sees at an address, and where it lies in memory.\<close>

definition uaddr :: "mem \<Rightarrow> u32 \<Rightarrow> u32 \<Rightarrow> u32 option" where
  "uaddr m pgdir va = (case translate m pgdir va of None \<Rightarrow> None
     | Some e \<Rightarrow> if user e then Some (p2v (PTE_ADDR e) + (va - PGROUNDDOWN va)) else None)"

definition ubyte :: "mem \<Rightarrow> u32 \<Rightarrow> u32 \<Rightarrow> byte option" where
  "ubyte m pgdir va = map_option m (uaddr m pgdir va)"

text \<open>User pages are not pages of the table, and no two addresses share a page.\<close>

definition upages_ok :: "mem \<Rightarrow> u32 \<Rightarrow> bool" where
  "upages_ok m pgdir \<longleftrightarrow> 4096 dvd unat pgdir \<and> 0 \<notin> pt_pages m pgdir \<and>
     (\<forall>va a. uaddr m pgdir va = Some a \<longrightarrow> PGROUNDDOWN a \<notin> pt_pages m pgdir \<and> PGROUNDDOWN a \<noteq> 0) \<and>
     (\<forall>va vb a b. uaddr m pgdir va = Some a \<longrightarrow> uaddr m pgdir vb = Some b \<longrightarrow>
        PGROUNDDOWN a = PGROUNDDOWN b \<longrightarrow> PGROUNDDOWN va = PGROUNDDOWN vb)"

lemma page_offset: "unat (va - PGROUNDDOWN va) < 4096"
  by (simp add: in_page_iff)

lemma PGROUNDDOWN_plus: "4096 dvd unat p \<Longrightarrow> PGROUNDDOWN (p + (va - PGROUNDDOWN va)) = p"
  using PGROUNDDOWN_offset [of p "unat (va - PGROUNDDOWN va)"] page_offset [of va] by simp

lemma uaddr_page: "uaddr m pgdir va = Some a \<Longrightarrow> \<exists>p. 4096 dvd unat p \<and> a = p + (va - PGROUNDDOWN va) \<and> PGROUNDDOWN a = p"
  by (auto simp: uaddr_def PTE_ADDR_eq PGROUNDDOWN_plus split: option.splits if_splits)

lemma translate_same_page:
  assumes "PGROUNDDOWN va = PGROUNDDOWN vb"
  shows "translate m pgdir va = translate m pgdir vb"
  using assms PDX_PTX_page [of va vb] by (simp add: translate_def pte_at_def tab_def pde_def)

lemma uaddr_same_page:
  assumes "PGROUNDDOWN va = PGROUNDDOWN vb" and "uaddr m pgdir va = Some a"
  shows "uaddr m pgdir vb = Some (a + (vb - va))"
  using assms translate_same_page [OF assms(1), of m pgdir]
  by (auto simp: uaddr_def algebra_simps split: option.splits if_splits)

lemma uaddr_cong:
  assumes "4096 dvd unat pgdir" and "\<And>x. PGROUNDDOWN x \<in> pt_pages m pgdir \<Longrightarrow> m' x = m x"
  shows "uaddr m' pgdir va = uaddr m pgdir va" and "pt_pages m' pgdir = pt_pages m pgdir"
  using pt_cong(3,4) [OF assms(1), of m m'] assms(2) by (simp_all add: uaddr_def)

lemma uva2ka_user:
  assumes ok: "upages_ok (mem s) pgdir" and ua: "uaddr (mem s) pgdir va = Some a"
  shows "uva2ka pgdir (PGROUNDDOWN va) s = Ok (PGROUNDDOWN a) s"
proof -
  let ?v = "PGROUNDDOWN va"
  obtain e where e: "translate (mem s) pgdir va = Some e" "user e" "a = p2v (PTE_ADDR e) + (va - ?v)"
    using ua by (auto simp: uaddr_def split: option.splits if_splits)
  then have "translate (mem s) pgdir ?v = Some e" by (simp add: translate_same_page [of ?v va])
  then have p: "present (pde (mem s) pgdir ?v)" "ld32 (mem s) (pte_at (mem s) pgdir ?v) = e" "present e"
    by (auto simp: translate_def split: if_splits)
  have "pte_at (mem s) pgdir ?v \<noteq> 0"
  proof
    assume "pte_at (mem s) pgdir ?v = 0"
    then have "tab (mem s) pgdir ?v = 0" using pte_at_word(1) [of "mem s" pgdir ?v] by (simp add: PGROUNDDOWN_aligned)
    with p(1) ok show False by (auto simp: upages_ok_def pt_pages_def)
  qed
  with p e show ?thesis by (simp add: uva2ka_def walk_present present_def user_def PGROUNDDOWN_plus PTE_ADDR_eq)
qed

text \<open>Writing a piece of a page through its kernel address.\<close>

lemma wr_bytes_page:
  assumes "4096 dvd unat p" and "unat k + length bs \<le> 4096" and "PGROUNDDOWN x \<noteq> p"
  shows "wr_bytes m (p + k) bs x = m x"
proof -
  have False if l: "unat (x - (p + k)) < length bs"
  proof -
    let ?j = "unat (x - (p + k))"
    have "unat k + ?j < 4096" using l assms(2) by simp
    then have "PGROUNDDOWN (p + of_nat (unat k + ?j)) = p" by (rule PGROUNDDOWN_offset [OF assms(1)])
    moreover have "p + of_nat (unat k + ?j) = x" by simp
    ultimately show False using assms(3) by simp
  qed
  then show ?thesis by (auto simp: wr_bytes_def)
qed

lemma upages_inj:
  assumes "upages_ok m pgdir" "uaddr m pgdir va = Some a" "uaddr m pgdir vb = Some b" "PGROUNDDOWN a = PGROUNDDOWN b"
  shows "PGROUNDDOWN va = PGROUNDDOWN vb"
  using assms unfolding upages_ok_def by blast

lemma write_chunk:
  assumes ok: "upages_ok m pgdir" and ua: "uaddr m pgdir va = Some a"
    and len: "unat (va - PGROUNDDOWN va) + length bs \<le> 4096"
  defines "m' \<equiv> wr_bytes m a bs"
  shows "upages_ok m' pgdir" and "uaddr m' pgdir vb = uaddr m pgdir vb"
    and "ubyte m' pgdir vb = (if unat (vb - va) < length bs then Some (bs ! unat (vb - va)) else ubyte m pgdir vb)"
    and "PGROUNDDOWN x \<noteq> PGROUNDDOWN a \<Longrightarrow> m' x = m x"
proof -
  obtain p where p: "4096 dvd unat p" "a = p + (va - PGROUNDDOWN va)" "PGROUNDDOWN a = p"
    using uaddr_page [OF ua] by blast
  have fr: "m' x = m x" if "PGROUNDDOWN x \<noteq> p" for x
    unfolding m'_def p(2) by (rule wr_bytes_page [OF p(1) len that])
  show "PGROUNDDOWN x \<noteq> PGROUNDDOWN a \<Longrightarrow> m' x = m x" using fr p(3) by simp
  have d: "4096 dvd unat pgdir" and np: "p \<notin> pt_pages m pgdir"
    using ok ua p(3) by (auto simp: upages_ok_def)
  have tp: "m' x = m x" if "PGROUNDDOWN x \<in> pt_pages m pgdir" for x
    by (rule fr) (use that np in auto)
  show U: "uaddr m' pgdir vb = uaddr m pgdir vb" for vb by (rule uaddr_cong(1) [OF d]) (rule tp)
  have pp: "pt_pages m' pgdir = pt_pages m pgdir" by (rule uaddr_cong(2) [OF d]) (rule tp)
  show "upages_ok m' pgdir" using ok unfolding upages_ok_def U pp .
  show "ubyte m' pgdir vb = (if unat (vb - va) < length bs then Some (bs ! unat (vb - va)) else ubyte m pgdir vb)"
  proof (cases "PGROUNDDOWN vb = PGROUNDDOWN va")
    case True
    then have "uaddr m pgdir vb = Some (a + (vb - va))" using uaddr_same_page [OF _ ua] by simp
    then show ?thesis unfolding ubyte_def U by (simp add: m'_def wr_bytes_def)
  next
    case False
    have "\<not> unat (vb - va) < length bs"
    proof
      assume l: "unat (vb - va) < length bs"
      have "unat (va - PGROUNDDOWN va) + unat (vb - va) < 4096" using l len by simp
      then have "PGROUNDDOWN (PGROUNDDOWN va + of_nat (unat (va - PGROUNDDOWN va) + unat (vb - va))) = PGROUNDDOWN va"
        by (rule PGROUNDDOWN_offset [OF PGROUNDDOWN_dvd])
      then show False using False by simp
    qed
    moreover have "m' b = m b" if "uaddr m pgdir vb = Some b" for b
    proof (rule fr)
      show "PGROUNDDOWN b \<noteq> p" using upages_inj [OF ok ua that] False p(3) by auto
    qed
    ultimately show ?thesis by (cases "uaddr m pgdir vb") (simp_all add: ubyte_def U)
  qed
qed

lemma unat_diff_add:
  assumes "k < 2 ^ 32"
  shows "unat (vb - (va + of_nat k) :: u32) = (if k \<le> unat (vb - va) then unat (vb - va) - k else 2 ^ 32 + unat (vb - va) - k)"
proof -
  have k: "unat (of_nat k :: u32) = k" using assms by (simp add: unat_of_nat)
  have d: "unat (d - of_nat k :: u32) = (if k \<le> unat d then unat d - k else 2 ^ 32 + unat d - k)" for d
    by (simp add: unat_sub_if' k) linarith
  have e: "vb - (va + of_nat k) = (vb - va) - of_nat k" by simp
  show ?thesis unfolding e by (rule d)
qed

lemma copyout_from_Ok:
  assumes "upages_ok (mem s) pgdir" and "unat va + length bs \<le> 2 ^ 32"
    and "\<forall>i<length bs. uaddr (mem s) pgdir (va + of_nat i) \<noteq> None" and "length bs < n"
  shows "\<exists>m. copyout_from n pgdir va bs s = Ok 0 (s\<lparr>mem := m\<rparr>) \<and> upages_ok m pgdir \<and>
     (\<forall>vb. uaddr m pgdir vb = uaddr (mem s) pgdir vb) \<and>
     (\<forall>vb. ubyte m pgdir vb = (if unat (vb - va) < length bs then Some (bs ! unat (vb - va)) else ubyte (mem s) pgdir vb))"
  using assms
proof (induction n arbitrary: s va bs)
  case (Suc n)
  show ?case
  proof (cases "bs = []")
    case True
    with Suc.prems(1) show ?thesis by (intro exI [of _ "mem s"]) simp
  next
    case False
    let ?o = "va - PGROUNDDOWN va"
    define k where "k = min (unat (4096 - ?o)) (length bs)"
    have o: "unat ?o < 4096" by (rule page_offset)
    then have uo: "unat (4096 - ?o) = 4096 - unat ?o" by (simp add: unat_sub_if')
    have k: "0 < k" "k \<le> length bs" "unat ?o + k \<le> 4096" using False o by (auto simp: k_def uo)
    obtain a where a: "uaddr (mem s) pgdir va = Some a"
      using Suc.prems(3) False by (auto dest: spec [of _ 0])
    have anz: "PGROUNDDOWN a \<noteq> 0" using Suc.prems(1) a by (auto simp: upages_ok_def)
    have pa: "PGROUNDDOWN a + ?o = a" using uaddr_page [OF a] by auto
    let ?m = "wr_bytes (mem s) a (take k bs)"
    have "unat ?o + length (take k bs) \<le> 4096" using k by simp
    note W = write_chunk [OF Suc.prems(1) a this]
    have step: "copyout_from (Suc n) pgdir va bs s = copyout_from n pgdir (PGROUNDDOWN va + 4096) (drop k bs) (s\<lparr>mem := ?m\<rparr>)"
      using False uva2ka_user [OF Suc.prems(1) a] anz pa by (simp add: Let_def k_def [symmetric])
    have nx: "PGROUNDDOWN va + 4096 = va + of_nat k" if "drop k bs \<noteq> []"
    proof -
      have "k = unat (4096 - ?o)" using that by (auto simp: k_def min_def split: if_splits)
      then have "of_nat k = 4096 - ?o" by simp
      then show ?thesis by simp
    qed
    show ?thesis
    proof (cases "drop k bs = []")
      case True
      then have "k = length bs" using k by simp
      moreover from this have "take k bs = bs" by simp
      moreover have "n \<noteq> 0" using Suc.prems(4) False by (cases bs) auto
      then have "copyout_from n pgdir (PGROUNDDOWN va + 4096) [] (s\<lparr>mem := ?m\<rparr>) = Ok 0 (s\<lparr>mem := ?m\<rparr>)" by (cases n) simp_all
      ultimately show ?thesis using step W True by (intro exI [of _ ?m]) simp
    next
      case rest: False
      let ?v = "va + of_nat k"
      have k32: "k < 2 ^ 32" using k(3) by simp
      have lt: "k < length bs" using rest by simp
      have uv: "unat ?v = unat va + k" using Suc.prems(2) lt by (simp add: unat_word_ariths unat_of_nat)
      have 1: "unat ?v + length (drop k bs) \<le> 2 ^ 32" using uv Suc.prems(2) lt by simp
      have 2: "\<forall>i<length (drop k bs). uaddr (mem (s\<lparr>mem := ?m\<rparr>)) pgdir (?v + of_nat i) \<noteq> None"
      proof (intro allI impI)
        fix i assume "i < length (drop k bs)"
        then have "k + i < length bs" using lt by simp
        with Suc.prems(3) have "uaddr (mem s) pgdir (va + of_nat (k + i)) \<noteq> None" by blast
        then show "uaddr (mem (s\<lparr>mem := ?m\<rparr>)) pgdir (?v + of_nat i) \<noteq> None" using W(2) by (simp add: add.assoc)
      qed
      have 3: "length (drop k bs) < n" using Suc.prems(4) k(1) lt by simp
      obtain m where m: "copyout_from n pgdir ?v (drop k bs) (s\<lparr>mem := ?m\<rparr>) = Ok 0 (s\<lparr>mem := m\<rparr>)" "upages_ok m pgdir"
          "\<forall>vb. uaddr m pgdir vb = uaddr ?m pgdir vb"
          "\<forall>vb. ubyte m pgdir vb = (if unat (vb - ?v) < length (drop k bs) then Some (drop k bs ! unat (vb - ?v)) else ubyte ?m pgdir vb)"
        using Suc.IH [of "s\<lparr>mem := ?m\<rparr>" ?v "drop k bs"] W(1) 1 2 3 by auto
      have "ubyte m pgdir vb = (if unat (vb - va) < length bs then Some (bs ! unat (vb - va)) else ubyte (mem s) pgdir vb)" for vb
      proof (cases "k \<le> unat (vb - va)")
        case True
        then have "unat (vb - ?v) = unat (vb - va) - k" by (simp add: unat_diff_add [OF k32])
        then show ?thesis using True m(4) W(3) lt by auto
      next
        case False
        have "length bs \<le> 2 ^ 32" using Suc.prems(2) by simp
        then have "\<not> unat (vb - ?v) < length (drop k bs)" using False by (simp add: unat_diff_add [OF k32])
        then show ?thesis using False m(4) W(3) lt by simp
      qed
      then show ?thesis using m(1,2,3) W(2) nx [OF rest] step by (intro exI [of _ m]) simp
    qed
  qed
qed simp

section \<open>A small address space\<close>

text \<open>The directory is the page \<open>0x80201000\<close>; one more page is free.\<close>

definition vm1 :: kmems where
  "vm1 = kmem2\<lparr>freelist := 0x80200000, mem := memset (mem kmem2) 0x80201000 0 4096\<rparr>"

lemma vm1_pde: "pde (mem vm1) 0x80201000 va = 0"
proof -
  have "4096 dvd unat (0x80201000 :: u32)" by simp
  from entry_word [OF this PDX_less, of va] show ?thesis
    unfolding pde_def vm1_def by (intro ld32_zero) (simp_all add: memset_page)
qed

lemma vm1_ok: "kmem_ok vm1 [0x80200000]" "pt_wf vm1 [0x80200000] 0x80201000"
proof -
  note K = kalloc_Cons(2) [OF kmem2_ok]
  then have fl: "ld32 (mem kmem2) 0x80201000 = 0x80200000" by (simp add: kmem_ok_def)
  show "kmem_ok vm1 [0x80200000]"
    by (rule kmem_ok_frame [OF K]) (simp_all add: vm1_def fl memset_page)
  have "pt_pages (mem vm1) 0x80201000 = {0x80201000}" by (simp add: pt_pages_def vm1_pde present_def)
  moreover have "valid_page vm1 0x80201000" using kmem2_ok by (simp add: vm1_def kmem_ok_def)
  ultimately show "pt_wf vm1 [0x80200000] 0x80201000" by (simp add: pt_wf_def vm1_pde present_def)
qed

lemma vm1_map:
  "\<exists>t ys. mappages 0x80201000 0x1000 4096 0x5000 6 vm1 = Ok 0 t \<and> vm_keep vm1 [0x80200000] t ys 0x80201000 \<and>
     (\<forall>v. translate (mem t) 0x80201000 v = (if PGROUNDDOWN v = 0x1000 then Some 0x5007 else None))"
proof -
  have t0: "translate (mem vm1) 0x80201000 v = None" for v by (simp add: translate_def vm1_pde present_def)
  have g: "PGROUNDDOWN 0x1000 = 0x1000" "PGROUNDDOWN (0x1000 + 4096 - 1) = 0x1000"
    by (simp_all add: word_unat_eq_iff unat_PGROUNDDOWN)
  have n: "2 ^ 20 = Suc (2 ^ 20 - 1)" by simp
  show ?thesis
  proof (rule map_one_cases [where a = "0x1000", OF vm1_ok present_mapped [of "0x5000" 6]], goal_cases mapped remap full)
    case (mapped t ys)
    then have "mappages 0x80201000 0x1000 4096 0x5000 6 vm1 = Ok 0 t"
      unfolding mappages_def g by (subst n, subst mappages_from_Suc) simp
    with mapped g(1) show ?thesis by (intro exI [of _ t] exI [of _ ys]) (simp add: t0)
  qed (use t0 in simp_all)
qed

lemma vm1_upages:
  assumes k: "vm_keep vm1 [0x80200000] t ys 0x80201000"
    and tr: "\<forall>v. translate (mem t) 0x80201000 v = (if PGROUNDDOWN v = 0x1000 then Some 0x5007 else None)"
  shows "upages_ok (mem t) 0x80201000" and "PGROUNDDOWN v = 0x1000 \<Longrightarrow> uaddr (mem t) 0x80201000 v \<noteq> None"
proof -
  have ad: "p2v (PTE_ADDR 0x5007) = 0x80005000" "user 0x5007" by (simp_all add: p2v_def PTE_ADDR_def user_def)
  have u: "uaddr (mem t) 0x80201000 v = (if PGROUNDDOWN v = 0x1000 then Some (0x80005000 + (v - PGROUNDDOWN v)) else None)" for v
    using tr ad by (simp add: uaddr_def)
  then show "PGROUNDDOWN v = 0x1000 \<Longrightarrow> uaddr (mem t) 0x80201000 v \<noteq> None" by simp
  have pg: "PGROUNDDOWN (0x80005000 + (v - PGROUNDDOWN v)) = 0x80005000" for v by (rule PGROUNDDOWN_plus) simp
  have "pt_pages (mem vm1) 0x80201000 = {0x80201000}" by (simp add: pt_pages_def vm1_pde present_def)
  then have "pt_pages (mem t) 0x80201000 \<subseteq> {0x80201000, 0x80200000}" using vm_keepD(7) [OF k] by auto
  then have np: "0 \<notin> pt_pages (mem t) 0x80201000" "0x80005000 \<notin> pt_pages (mem t) 0x80201000" by auto
  have up: "PGROUNDDOWN v = 0x1000 \<and> PGROUNDDOWN a = 0x80005000" if "uaddr (mem t) 0x80201000 v = Some a" for v a
    using that pg [of v] unfolding u by (metis option.distinct(1) option.inject)
  show "upages_ok (mem t) 0x80201000" unfolding upages_ok_def
    using up np by (intro conjI allI impI) (simp, simp, fastforce, fastforce, metis)
qed

section \<open>Properties\<close>

text \<open>
  C11. \<open>mappages\<close>. On a well-formed page table it returns 0 with every page of the range mapped to
  the corresponding physical page with the given permissions and every other address translated
  as before; or it returns -1, when the free list is exhausted, with addresses outside the range
  untouched; or it panics because a page of the range was mapped already. In the first two cases
  the table is well formed, the allocator's invariant holds, and only pages of the table and
  pages taken from the free list have been written.
\<close>

theorem mappages_maps_range:
  assumes "kmem_ok s xs" and "pt_wf s xs pgdir"
  shows "(case mappages pgdir va sz pa perm s of
      Ok r t \<Rightarrow> \<exists>ys. vm_keep s xs t ys pgdir \<and>
        (if r = 0 then \<forall>v. translate (mem t) pgdir v =
            mapped (PGROUNDDOWN va) (PGROUNDDOWN (va + sz - 1)) pa perm (translate (mem s) pgdir) v
         else r = -1 \<and> ys = [] \<and> (\<forall>v. \<not> in_range (PGROUNDDOWN va) (PGROUNDDOWN (va + sz - 1)) v \<longrightarrow>
            translate (mem t) pgdir v = translate (mem s) pgdir v))
    | Panic e \<Rightarrow> e = ''remap'' \<and> (\<exists>v. in_range (PGROUNDDOWN va) (PGROUNDDOWN (va + sz - 1)) v \<and>
        translate (mem s) pgdir v \<noteq> None)
    | _ \<Rightarrow> False)"
proof -
  have "unat w div 4096 < 2 ^ 20" for w :: u32 by (simp add: div_less_iff_less_mult)
  then show ?thesis unfolding mappages_def by (intro mappages_from_spec [OF assms]) simp_all
qed

theorem mappages_maps_range_witness:
  "\<exists>t. mappages 0x80201000 0x1000 4096 0x5000 6 vm1 = Ok 0 t \<and> translate (mem t) 0x80201000 0x1234 = Some 0x5007"
proof -
  obtain t where t: "mappages 0x80201000 0x1000 4096 0x5000 6 vm1 = Ok 0 t" using vm1_map by auto
  have g: "PGROUNDDOWN 0x1000 = 0x1000" "PGROUNDDOWN (0x1000 + 4096 - 1) = 0x1000" "PGROUNDDOWN 0x1234 = 0x1000"
    by (simp_all add: word_unat_eq_iff unat_PGROUNDDOWN)
  show ?thesis
    using mappages_maps_range [where va = "0x1000" and sz = 4096 and pa = "0x5000" and perm = 6, OF vm1_ok] t g
    by (auto simp: mapped_def in_range_def)
qed

text \<open>
  C12. \<open>copyout\<close>. When the target range is mapped for the user and user pages are distinct from
  each other and from the page table, \<open>copyout\<close> returns 0, the user reads the copied bytes at
  the target addresses, across page boundaries, reads at every other address what was there
  before, and the translation of addresses has not changed.
\<close>

theorem copyout_writes_user_bytes:
  assumes "upages_ok (mem s) pgdir" and "unat va + length bs \<le> 2 ^ 32"
    and "\<forall>i<length bs. uaddr (mem s) pgdir (va + of_nat i) \<noteq> None"
  shows "\<exists>m. copyout pgdir va bs s = Ok 0 (s\<lparr>mem := m\<rparr>) \<and>
     (\<forall>v. uaddr m pgdir v = uaddr (mem s) pgdir v) \<and>
     (\<forall>v. ubyte m pgdir v = (if unat (v - va) < length bs then Some (bs ! unat (v - va)) else ubyte (mem s) pgdir v))"
  using copyout_from_Ok [OF assms, of "Suc (length bs)"] by (auto simp: copyout_def)

theorem copyout_writes_user_bytes_witness:
  "\<exists>t m. mappages 0x80201000 0x1000 4096 0x5000 6 vm1 = Ok 0 t \<and>
     copyout 0x80201000 0x1FFE [7, 8] t = Ok 0 (t\<lparr>mem := m\<rparr>) \<and> ubyte m 0x80201000 0x1FFF = Some 8"
proof -
  obtain t ys where t: "mappages 0x80201000 0x1000 4096 0x5000 6 vm1 = Ok 0 t" and
      k: "vm_keep vm1 [0x80200000] t ys 0x80201000" and
      tr: "\<forall>v. translate (mem t) 0x80201000 v = (if PGROUNDDOWN v = 0x1000 then Some 0x5007 else None)"
    using vm1_map by blast
  have g: "PGROUNDDOWN 0x1FFE = 0x1000" "PGROUNDDOWN 0x1FFF = 0x1000"
    by (simp_all add: word_unat_eq_iff unat_PGROUNDDOWN)
  have "\<forall>i<length [7, 8 :: byte]. uaddr (mem t) 0x80201000 (0x1FFE + of_nat i) \<noteq> None"
    using vm1_upages(2) [OF k tr] g by (simp add: less_Suc_eq)
  then obtain m where m: "copyout 0x80201000 0x1FFE [7, 8] t = Ok 0 (t\<lparr>mem := m\<rparr>)"
      "ubyte m 0x80201000 0x1FFF = (if unat (0x1FFF - 0x1FFE :: u32) < length [7, 8 :: byte]
         then Some ([7, 8] ! unat (0x1FFF - 0x1FFE :: u32)) else ubyte (mem t) 0x80201000 0x1FFF)"
    using copyout_writes_user_bytes [OF vm1_upages(1) [OF k tr], of "0x1FFE" "[7, 8]"] by auto
  with t show ?thesis by auto
qed

end
