(* ===== verification/Ide.thy ===== *)
theory Ide
  imports Vm
begin

unbundle bit_operations_syntax

text \<open>
  Disk drivers. \<^verbatim>\<open>memide.c\<close>, the driver of the kernel that carries its disk in memory, serves a
  request at once; \<^verbatim>\<open>ide.c\<close> queues requests, programs the controller through its ports and
  completes a request in the interrupt handler. Both move the 512 bytes of a buffer
  (\<^verbatim>\<open>buf.h\<close>) to or from a sector. The upper layers are modelled over \<^verbatim>\<open>memide.c\<close>; the last part
  of this theory shows that a request served by \<^verbatim>\<open>ide.c\<close> has the same effect.
\<close>

section \<open>Buffers\<close>

text \<open>
  \<^verbatim>\<open>struct buf\<close>: the bits of \<open>flags\<close> are three fields; \<open>prev\<close>, \<open>next\<close> and \<open>qnext\<close> point to
  entries of the table \<open>bufs\<close>, whose last entry is the list head of the buffer cache.
\<close>

record buf =
  b_busy :: bool
  b_valid :: bool
  b_dirty :: bool
  b_dev :: u32
  b_sector :: u32
  b_prev :: nat
  b_next :: nat
  b_qnext :: "nat option"
  b_data :: "byte list"

text \<open>
  \<open>memdisk\<close> is the disk image of \<^verbatim>\<open>memide.c\<close> as a list of sectors and \<open>wtrace\<close> records the
  sectors written, in order. For \<^verbatim>\<open>ide.c\<close>: \<open>outp\<close> the bytes written to ports, \<open>idestat\<close> the
  values that successive reads of the status port return, \<open>platter\<close> what is on the two disks.
\<close>

record disks = vms +
  bufs :: "buf list"
  memdisk :: "byte list list"
  wtrace :: "(nat \<times> byte list) list"
  idequeue :: "nat option"
  havedisk1 :: bool
  outp :: "(u16 \<times> byte) list"
  idestat :: "byte list"
  platter :: "u32 \<Rightarrow> u32 \<Rightarrow> byte list"

type_synonym ('z, 'a) diskf = "('z disks_scheme, 'a) kfun"

definition upd_buf :: "nat \<Rightarrow> (buf \<Rightarrow> buf) \<Rightarrow> ('z, unit) diskf" where
  "upd_buf b f = modify (\<lambda>s. s\<lparr>bufs := (bufs s)[b := f (bufs s ! b)]\<rparr>)"

definition the_buf :: "nat \<Rightarrow> ('z, buf) diskf" where
  "the_buf b = gets (\<lambda>s. bufs s ! b)"

section \<open>The memory disk\<close>

definition iderw :: "nat \<Rightarrow> ('z, unit) diskf" where
  "iderw b =
     bnd (the_buf b) (\<lambda>bf.
     if \<not> b_busy bf then panic ''iderw: buf not busy''
     else if b_valid bf \<and> \<not> b_dirty bf then panic ''iderw: nothing to do''
     else if b_dev bf \<noteq> 1 then panic ''iderw: request not for disk 1''
     else bnd (gets (\<lambda>s. length (memdisk s))) (\<lambda>disksize.
       if unat (b_sector bf) \<ge> disksize then panic ''iderw: sector out of range''
       else
         thn (if b_dirty bf then
                thn (upd_buf b (\<lambda>x. x\<lparr>b_dirty := False\<rparr>))
                (modify (\<lambda>s. s\<lparr>memdisk := (memdisk s)[unat (b_sector bf) := b_data bf],
                   wtrace := wtrace s @ [(unat (b_sector bf), b_data bf)]\<rparr>))
              else bnd (gets (\<lambda>s. memdisk s ! unat (b_sector bf))) (\<lambda>d.
                upd_buf b (\<lambda>x. x\<lparr>b_data := d\<rparr>)))
         (upd_buf b (\<lambda>x. x\<lparr>b_valid := True\<rparr>))))"

section \<open>The IDE controller\<close>

abbreviation (input) "IDE_BSY \<equiv> (0x80::byte)"
abbreviation (input) "IDE_DRDY \<equiv> (0x40::byte)"
abbreviation (input) "IDE_DF \<equiv> (0x20::byte)"
abbreviation (input) "IDE_ERR \<equiv> (0x01::byte)"
abbreviation (input) "IDE_CMD_READ \<equiv> (0x20::byte)"
abbreviation (input) "IDE_CMD_WRITE \<equiv> (0x30::byte)"

definition outb :: "u16 \<Rightarrow> byte \<Rightarrow> ('z, unit) diskf" where
  "outb port v = modify (\<lambda>s. s\<lparr>outp := outp s @ [(port, v)]\<rparr>)"

text \<open>\<open>idewait\<close> reads the status port until the controller is ready.\<close>

primrec poll_ready :: "byte list \<Rightarrow> (byte \<times> byte list) option" where
  "poll_ready [] = None"
| "poll_ready (r # rs) = (if r AND (IDE_BSY OR IDE_DRDY) = IDE_DRDY then Some (r, rs) else poll_ready rs)"

definition idewait :: "bool \<Rightarrow> ('z, int) diskf" where
  "idewait checkerr s = (case poll_ready (idestat s) of
       None \<Rightarrow> Diverge
     | Some (r, rs) \<Rightarrow>
         Ok (if checkerr \<and> r AND (IDE_DF OR IDE_ERR) \<noteq> 0 then -1 else 0) (s\<lparr>idestat := rs\<rparr>))"

text \<open>\<open>ideinit\<close>: is disk 1 there? At most 1000 reads of the status port.\<close>

definition ideinit :: "('z, unit) diskf" where
  "ideinit =
     bnd (idewait False) (\<lambda>_.
     thn (outb 0x1f6 (0xe0 OR push_bit 4 1))
     (thn (modify (\<lambda>s. if \<exists>r\<in>set (take 1000 (idestat s)). r \<noteq> 0 then s\<lparr>havedisk1 := True\<rparr> else s))
     (thn (modify (\<lambda>s. s\<lparr>idestat := drop 1 (dropWhile (\<lambda>r. r = 0) (take 1000 (idestat s))) @ drop 1000 (idestat s)\<rparr>))
      (outb 0x1f6 (0xe0 OR push_bit 4 0)))))"

text \<open>
  What the controller is told: the last byte written to each of its registers. The sector is
  in the registers \<open>0x1f3\<close> to \<open>0x1f5\<close> and the low half of \<open>0x1f6\<close>, the drive in a bit of
  \<open>0x1f6\<close>.
\<close>

definition port :: "(u16 \<times> byte) list \<Rightarrow> u16 \<Rightarrow> byte" where
  "port ps p = (case find (\<lambda>(q, v). q = p) (rev ps) of None \<Rightarrow> 0 | Some (q, v) \<Rightarrow> v)"

definition lba :: "(u16 \<times> byte) list \<Rightarrow> u32" where
  "lba ps = ucast (port ps 0x1f3) OR push_bit 8 (ucast (port ps 0x1f4)) OR
     push_bit 16 (ucast (port ps 0x1f5)) OR push_bit 24 (ucast (port ps 0x1f6) AND 0x0f)"

definition drive :: "(u16 \<times> byte) list \<Rightarrow> u32" where
  "drive ps = drop_bit 4 (ucast (port ps 0x1f6)) AND 1"

text \<open>
  The data port: \<open>outsl\<close> hands the controller the sector to write, \<open>insl\<close> takes the sector it
  has read.
\<close>

definition outsl :: "byte list \<Rightarrow> ('z, unit) diskf" where
  "outsl d = modify (\<lambda>s. s\<lparr>platter := (platter s)(drive (outp s) := (platter s (drive (outp s)))(lba (outp s) := d))\<rparr>)"

definition insl :: "('z, byte list) diskf" where
  "insl = gets (\<lambda>s. platter s (drive (outp s)) (lba (outp s)))"

definition idestart :: "nat option \<Rightarrow> ('z, unit) diskf" where
  "idestart q = (case q of None \<Rightarrow> panic ''idestart'' | Some b \<Rightarrow>
     bnd (the_buf b) (\<lambda>bf.
     bnd (idewait False) (\<lambda>_.
     thn (outb 0x3f6 0)
     (thn (outb 0x1f2 1)
     (thn (outb 0x1f3 (ucast (b_sector bf AND 0xff)))
     (thn (outb 0x1f4 (ucast (drop_bit 8 (b_sector bf) AND 0xff)))
     (thn (outb 0x1f5 (ucast (drop_bit 16 (b_sector bf) AND 0xff)))
     (thn (outb 0x1f6 (ucast (0xe0 OR push_bit 4 (b_dev bf AND 1) OR (drop_bit 24 (b_sector bf) AND 0x0f))))
     (if b_dirty bf then thn (outb 0x1f7 IDE_CMD_WRITE) (outsl (b_data bf))
      else outb 0x1f7 IDE_CMD_READ)))))))))"

text \<open>The queue of requests is linked through \<open>qnext\<close>; it holds at most all buffers.\<close>

primrec queue_tail :: "nat \<Rightarrow> nat \<Rightarrow> ('z, nat) diskf" where
  "queue_tail 0 q = diverge"
| "queue_tail (Suc n) q =
     bnd (the_buf q) (\<lambda>bf. case b_qnext bf of None \<Rightarrow> ret q | Some r \<Rightarrow> queue_tail n r)"

definition append_queue :: "nat \<Rightarrow> ('z, unit) diskf" where
  "append_queue b =
     thn (upd_buf b (\<lambda>x. x\<lparr>b_qnext := None\<rparr>))
     (bnd (gets idequeue) (\<lambda>q. case q of
        None \<Rightarrow> modify (\<lambda>s. s\<lparr>idequeue := Some b\<rparr>)
      | Some h \<Rightarrow> bnd (queue_tail (NBUF + 1) h) (\<lambda>l. upd_buf l (\<lambda>x. x\<lparr>b_qnext := Some b\<rparr>))))"

text \<open>
  \<open>iderw\<close> of \<^verbatim>\<open>ide.c\<close> up to the first \<open>sleep\<close>, and its loop after a wakeup, with the lock held.
\<close>

definition ide_wait_loop :: "nat \<Rightarrow> ('z, unit) diskf" where
  "ide_wait_loop b =
     bnd (the_buf b) (\<lambda>bf.
     if \<not> (b_valid bf \<and> \<not> b_dirty bf) then sleep (CH_buf b) LK_ide
     else release LK_ide)"

definition ide_iderw :: "nat \<Rightarrow> ('z, unit) diskf" where
  "ide_iderw b =
     bnd (the_buf b) (\<lambda>bf.
     bnd (gets havedisk1) (\<lambda>hd1.
     if \<not> b_busy bf then panic ''iderw: buf not busy''
     else if b_valid bf \<and> \<not> b_dirty bf then panic ''iderw: nothing to do''
     else if b_dev bf \<noteq> 0 \<and> \<not> hd1 then panic ''iderw: ide disk 1 not present''
     else
       thn (acquire LK_ide)
       (thn (append_queue b)
       (bnd (gets idequeue) (\<lambda>q.
        thn (whenk (q = Some b) (idestart (Some b)))
        (ide_wait_loop b))))))"

text \<open>
  The interrupt handler. With an empty queue it serves an exokernel process; for any other
  process it has released the lock and goes on with the null pointer.
\<close>

definition ideintr :: "('z, unit) diskf \<Rightarrow> ('z, unit) diskf" where
  "ideintr ex_intr =
     thn (acquire LK_ide)
     (bnd (gets idequeue) (\<lambda>q. case q of
        None \<Rightarrow>
          thn (release LK_ide)
          (bnd myproc (\<lambda>i. bnd (gets (\<lambda>s. p_type (ptable s ! i))) (\<lambda>ty.
           if ty = 1 then ex_intr else fault ''b->qnext'')))
      | Some b \<Rightarrow>
          bnd (the_buf b) (\<lambda>bf.
          thn (modify (\<lambda>s. s\<lparr>idequeue := b_qnext bf\<rparr>))
          (thn (if b_dirty bf then ret ()
                else bnd (idewait True) (\<lambda>r. whenk (r \<ge> 0)
                  (bnd insl (\<lambda>d. upd_buf b (\<lambda>x. x\<lparr>b_data := d\<rparr>)))))
          (thn (upd_buf b (\<lambda>x. x\<lparr>b_valid := True\<rparr>))
          (thn (upd_buf b (\<lambda>x. x\<lparr>b_dirty := False\<rparr>))
          (thn (wakeup (CH_buf b))
          (bnd (gets idequeue) (\<lambda>q'.
           thn (whenk (q' \<noteq> None) (idestart q'))
           (release LK_ide))))))))))"

section \<open>Programming the controller\<close>

definition start_ports :: "buf \<Rightarrow> (u16 \<times> byte) list" where
  "start_ports bf =
     [(0x3f6, 0), (0x1f2, 1), (0x1f3, ucast (b_sector bf AND 0xff)),
      (0x1f4, ucast (drop_bit 8 (b_sector bf) AND 0xff)), (0x1f5, ucast (drop_bit 16 (b_sector bf) AND 0xff)),
      (0x1f6, ucast (0xe0 OR push_bit 4 (b_dev bf AND 1) OR (drop_bit 24 (b_sector bf) AND 0x0f))),
      (0x1f7, if b_dirty bf then IDE_CMD_WRITE else IDE_CMD_READ)]"

lemma bits_224: "n < 4 \<Longrightarrow> \<not> bit (0xe0::u32) n" "n < 4 \<Longrightarrow> \<not> bit (0xe0::byte) n"
  "n < 4 \<Longrightarrow> \<not> bit (0xe0::int) n"
  by (auto simp: less_Suc_eq eval_nat_numeral bit_simps)

lemma head_bits:
  "ucast (ucast (0xe0 OR push_bit 4 q OR (y AND 0x0f) :: u32) :: byte) AND 0x0f = (y AND 0x0f :: u32)"
  "drop_bit 4 (ucast (ucast (0xe0 OR push_bit 4 (d AND 1) OR (y AND 0x0f) :: u32) :: byte)) AND 1 = (d AND 1 :: u32)"
proof -
  have m: "0x0f = (mask 4 :: u32)" "1 = (mask 1 :: u32)" by (simp_all add: mask_eq_exp_minus_1)
  show "ucast (ucast (0xe0 OR push_bit 4 q OR (y AND 0x0f) :: u32) :: byte) AND 0x0f = (y AND 0x0f :: u32)"
    unfolding m(1) by (rule bit_word_eqI) (auto simp: bit_simps bits_224)
  have e: "\<not> bit (0xe0::u32) 4" "\<not> bit (0xe0::byte) 4" "\<not> bit (0xe0::int) 4" by (simp_all add: bit_simps)
  show "drop_bit 4 (ucast (ucast (0xe0 OR push_bit 4 (d AND 1) OR (y AND 0x0f) :: u32) :: byte)) AND 1 = (d AND 1 :: u32)"
    unfolding m by (rule bit_word_eqI) (auto simp: bit_simps e)
qed

lemma lba_bits:
  fixes x :: u32
  shows "ucast (ucast (x AND 0xff) :: byte) OR push_bit 8 (ucast (ucast (drop_bit 8 x AND 0xff) :: byte)) OR
     push_bit 16 (ucast (ucast (drop_bit 16 x AND 0xff) :: byte)) OR push_bit 24 (drop_bit 24 x AND 0x0f) = take_bit 28 x"
proof -
  have m: "0x0f = (mask 4 :: u32)" "0xff = (mask 8 :: u32)" by (simp_all add: mask_eq_exp_minus_1)
  show ?thesis unfolding m
  proof (rule bit_word_eqI)
    fix n assume "n < LENGTH(32)"
    then have n: "n < 32" by simp
    consider "n < 8" | "8 \<le> n" "n < 16" | "16 \<le> n" "n < 24" | "24 \<le> n" "n < 28" | "28 \<le> n" by linarith
    then show "bit (ucast (ucast (x AND mask 8) :: byte) OR push_bit 8 (ucast (ucast (drop_bit 8 x AND mask 8) :: byte)) OR
        push_bit 16 (ucast (ucast (drop_bit 16 x AND mask 8) :: byte)) OR push_bit 24 (drop_bit 24 x AND mask 4)) n =
        bit (take_bit 28 x) n"
      using n by cases (simp_all add: bit_simps less_diff_conv2)
  qed
qed

lemma start_ports_regs:
  "port (ps @ start_ports bf) 0x1f3 = ucast (b_sector bf AND 0xff)"
  "port (ps @ start_ports bf) 0x1f4 = ucast (drop_bit 8 (b_sector bf) AND 0xff)"
  "port (ps @ start_ports bf) 0x1f5 = ucast (drop_bit 16 (b_sector bf) AND 0xff)"
  "port (ps @ start_ports bf) 0x1f6 = ucast (0xe0 OR push_bit 4 (b_dev bf AND 1) OR (drop_bit 24 (b_sector bf) AND 0x0f))"
  by (simp_all add: port_def start_ports_def)

lemma start_ports_lba: "lba (ps @ start_ports bf) = take_bit 28 (b_sector bf)"
  and start_ports_drive: "drive (ps @ start_ports bf) = b_dev bf AND 1"
  unfolding lba_def drive_def start_ports_regs head_bits by (simp_all only: lba_bits)

lemma idestart_Ok:
  assumes "poll_ready (idestat s) = Some (r, rs)"
  shows "idestart (Some b) s = Ok () (let bf = bufs s ! b; d = b_dev bf AND 1 in
     s\<lparr>idestat := rs, outp := outp s @ start_ports bf,
       platter := (if b_dirty bf then (platter s)(d := (platter s d)(take_bit 28 (b_sector bf) := b_data bf)) else platter s)\<rparr>)"
proof -
  let ?bf = "bufs s ! b"
  have o: "outp s @ start_ports ?bf = outp s @ [(0x3f6, 0), (0x1f2, 1), (0x1f3, ucast (b_sector ?bf AND 0xff)),
      (0x1f4, ucast (drop_bit 8 (b_sector ?bf) AND 0xff)), (0x1f5, ucast (drop_bit 16 (b_sector ?bf) AND 0xff)),
      (0x1f6, ucast (0xe0 OR push_bit 4 (b_dev ?bf AND 1) OR (drop_bit 24 (b_sector ?bf) AND 0x0f))),
      (0x1f7, if b_dirty ?bf then IDE_CMD_WRITE else IDE_CMD_READ)]" by (simp only: start_ports_def)
  show ?thesis
    using assms start_ports_lba [of "outp s" ?bf] start_ports_drive [of "outp s" ?bf]
    unfolding o Let_def
    by (cases "b_dirty ?bf") (simp_all add: idestart_def the_buf_def idewait_def outb_def outsl_def)
qed

section \<open>The queue of requests\<close>

primrec qchain :: "buf list \<Rightarrow> nat option \<Rightarrow> nat list \<Rightarrow> bool" where
  "qchain bfs p [] = (p = None)"
| "qchain bfs p (b # bs) = (p = Some b \<and> b < length bfs \<and> qchain bfs (b_qnext (bfs ! b)) bs)"

lemma qchain_cong:
  "length cfs = length bfs \<Longrightarrow> \<forall>x\<in>set bs. b_qnext (cfs ! x) = b_qnext (bfs ! x) \<Longrightarrow> qchain cfs p bs = qchain bfs p bs"
  by (induction bs arbitrary: p) auto

lemma qchain_set: "qchain bfs p bs \<Longrightarrow> x \<in> set bs \<Longrightarrow> x < length bfs"
  by (induction bs arbitrary: p) auto

lemma qchain_snoc:
  "qchain bfs p bs \<Longrightarrow> bs \<noteq> [] \<Longrightarrow> b < length cfs \<Longrightarrow> length cfs = length bfs \<Longrightarrow> b_qnext (cfs ! b) = None \<Longrightarrow>
   b_qnext (cfs ! last bs) = Some b \<Longrightarrow> \<forall>x\<in>set (butlast bs). b_qnext (cfs ! x) = b_qnext (bfs ! x) \<Longrightarrow>
   qchain cfs p (bs @ [b])"
  by (induction bs arbitrary: p) (auto split: if_splits)

lemma queue_tail_Ok:
  "qchain (bufs s) (Some h) bs \<Longrightarrow> length bs \<le> n \<Longrightarrow> queue_tail n h s = Ok (last bs) s"
proof (induction n arbitrary: h bs)
  case (Suc n)
  then obtain cs where bs: "bs = h # cs" by (cases bs) auto
  show ?case
  proof (cases "b_qnext (bufs s ! h)")
    case None
    with Suc.prems bs show ?thesis by (cases cs) (auto simp: the_buf_def)
  next
    case (Some k)
    with Suc.prems bs have q: "qchain (bufs s) (Some k) cs" "length cs \<le> n" by auto
    then have "cs \<noteq> []" by auto
    with Suc.IH [OF q] Some bs show ?thesis by (simp add: the_buf_def)
  qed
qed (cases bs; auto)

text \<open>The drivers use the field \<open>qnext\<close> only in \<^verbatim>\<open>ide.c\<close>; buffers are compared without it.\<close>

definition unlinked :: "buf \<Rightarrow> buf" where
  "unlinked bf = bf\<lparr>b_qnext := None\<rparr>"

lemma unlinked_eq:
  assumes "unlinked x = unlinked y"
  shows "b_busy x = b_busy y" "b_valid x = b_valid y" "b_dirty x = b_dirty y" "b_dev x = b_dev y"
    "b_sector x = b_sector y" "b_data x = b_data y"
  using assms by (auto simp: unlinked_def dest: arg_cong [of _ _ b_busy] arg_cong [of _ _ b_valid]
    arg_cong [of _ _ b_dirty] arg_cong [of _ _ b_dev] arg_cong [of _ _ b_sector] arg_cong [of _ _ b_data])

lemma unlinked_qnext [simp]: "unlinked (x\<lparr>b_qnext := q\<rparr>) = unlinked x"
  by (simp add: unlinked_def)

lemma map_unlinked_nth:
  assumes "map unlinked xs = map unlinked ys" and "i < length xs"
  shows "unlinked (xs ! i) = unlinked (ys ! i)"
  using assms by (metis nth_map map_eq_imp_length_eq)

lemma map_unlinked_qnext: "map unlinked (xs[i := (xs ! i)\<lparr>b_qnext := q\<rparr>]) = map unlinked xs"
  by (cases "i < length xs") (auto simp: map_update list_eq_iff_nth_eq nth_list_update)

lemma nth_update: "bs[b := x] ! i = (if i = b \<and> b < length bs then x else bs ! i)"
  by (cases "b < length bs") (simp_all add: nth_list_update list_update_beyond)

lemma append_queue_Ok:
  assumes q: "qchain (bufs s) (idequeue s) bs" and d: "distinct (bs @ [b])" and b: "b < length (bufs s)"
    and n: "length bs \<le> NBUF" and p: "p = (if bs = [] then Some b else idequeue s)"
  shows "\<exists>bfs. append_queue b s = Ok () (s\<lparr>bufs := bfs, idequeue := p\<rparr>) \<and>
     qchain bfs p (bs @ [b]) \<and> map unlinked bfs = map unlinked (bufs s)"
proof (cases bs)
  case Nil
  with q b p show ?thesis
    by (auto simp: append_queue_def upd_buf_def intro!: exI [of _ "(bufs s)[b := (bufs s ! b)\<lparr>b_qnext := None\<rparr>]"]
      map_unlinked_qnext)
next
  case (Cons h cs)
  let ?c = "(bufs s)[b := (bufs s ! b)\<lparr>b_qnext := None\<rparr>]"
  let ?l = "last bs"
  let ?e = "?c[?l := (?c ! ?l)\<lparr>b_qnext := Some b\<rparr>]"
  have h: "idequeue s = Some h" using q Cons by simp
  have "qchain ?c (Some h) bs" using q d h by (subst qchain_cong [of _ "bufs s"]) (auto simp: nth_update)
  then have "queue_tail (NBUF + 1) h (s\<lparr>bufs := ?c\<rparr>) = Ok ?l (s\<lparr>bufs := ?c\<rparr>)"
    using n by (intro queue_tail_Ok) auto
  then have "append_queue b s = Ok () (s\<lparr>bufs := ?e\<rparr>)" using h by (simp add: append_queue_def upd_buf_def)
  moreover have "qchain ?e (idequeue s) (bs @ [b])"
  proof (rule qchain_snoc [OF q])
    have l: "?l \<in> set bs" using Cons by simp
    then have lb: "?l \<noteq> b" using d by auto
    have "distinct (butlast bs @ [?l])" using d append_butlast_last_id [of bs] Cons by simp
    then have nl: "?l \<notin> set (butlast bs)" by simp
    show "b_qnext (?e ! b) = None" using lb b by simp
    show "b_qnext (?e ! ?l) = Some b" using qchain_set [OF q l] by simp
    show "\<forall>x\<in>set (butlast bs). b_qnext (?e ! x) = b_qnext (bufs s ! x)"
      using nl d by (auto simp: nth_update dest: in_set_butlastD)
  qed (use Cons b in auto)
  ultimately show ?thesis
    using Cons p by (intro exI [of _ ?e]) (simp add: map_unlinked_qnext)
qed

section \<open>Interrupt-driven and immediate transfers\<close>

text \<open>
  \<open>ide_sim s bs m\<close>: in the state \<open>s\<close> of \<^verbatim>\<open>ide.c\<close> the requests \<open>bs\<close> are queued and the first of
  them has been started; \<open>m\<close> is a state of \<^verbatim>\<open>memide.c\<close> in which they are still to be made. The
  buffers are the same, and disk 1 has the sectors of \<open>memdisk\<close>, apart from the one that the
  request in progress has written.
\<close>

definition request_ok :: "'z disks_scheme \<Rightarrow> buf \<Rightarrow> bool" where
  "request_ok m bf \<longleftrightarrow> b_busy bf \<and> \<not> (b_valid bf \<and> \<not> b_dirty bf) \<and> b_dev bf = 1 \<and>
     unat (b_sector bf) < length (memdisk m)"

definition ide_sim :: "'z disks_scheme \<Rightarrow> nat list \<Rightarrow> 'z disks_scheme \<Rightarrow> bool" where
  "ide_sim s bs m \<longleftrightarrow> qchain (bufs s) (idequeue s) bs \<and> distinct bs \<and> length (memdisk m) \<le> 2 ^ 28 \<and> havedisk1 s \<and>
     map unlinked (bufs s) = map unlinked (bufs m) \<and> (\<forall>b\<in>set bs. request_ok m (bufs s ! b)) \<and>
     (case bs of
        [] \<Rightarrow> \<forall>n<length (memdisk m). platter s 1 (of_nat n) = memdisk m ! n
      | b # _ \<Rightarrow> lba (outp s) = b_sector (bufs s ! b) \<and> drive (outp s) = 1 \<and>
          (\<forall>n<length (memdisk m). platter s 1 (of_nat n) =
             (if b_dirty (bufs s ! b) \<and> n = unat (b_sector (bufs s ! b)) then b_data (bufs s ! b) else memdisk m ! n)))"

lemma ide_sim_fields [simp]:
  "ide_sim (s\<lparr>held := h\<rparr>) bs m = ide_sim s bs m" "ide_sim (s\<lparr>curproc := c\<rparr>) bs m = ide_sim s bs m"
  "ide_sim (s\<lparr>ptable := ps\<rparr>) bs m = ide_sim s bs m"
  by (simp_all add: ide_sim_def split: list.split)

lemma sector_of_nat:
  assumes "n < k" and "k \<le> 2 ^ 28"
  shows "of_nat n = (x::u32) \<longleftrightarrow> n = unat x"
proof -
  have "unat (of_nat n :: u32) = n" using assms by (simp add: unat_of_nat)
  then show ?thesis by (auto simp: word_unat_eq_iff)
qed

lemma sector_take_bit:
  assumes "unat x < k" and "k \<le> 2 ^ 28"
  shows "take_bit 28 (x::u32) = x"
  using assms by (simp add: word_unat_eq_iff unsigned_take_bit_eq take_bit_nat_eq_self)

lemma idestart_request:
  assumes "poll_ready (idestat s) = Some (r, rs)" and "request_ok m (bufs s ! b)" and "length (memdisk m) \<le> 2 ^ 28"
  shows "\<exists>t. idestart (Some b) s = Ok () t \<and>
     t = s\<lparr>idestat := rs, outp := outp t, platter := platter t\<rparr> \<and>
     lba (outp t) = b_sector (bufs s ! b) \<and> drive (outp t) = 1 \<and>
     (\<forall>n<length (memdisk m). platter t 1 (of_nat n) =
        (if b_dirty (bufs s ! b) \<and> n = unat (b_sector (bufs s ! b)) then b_data (bufs s ! b) else platter s 1 (of_nat n)))"
proof -
  let ?bf = "bufs s ! b"
  have tb: "take_bit 28 (b_sector ?bf) = b_sector ?bf" and dev: "b_dev ?bf = 1"
    using assms(2,3) by (auto simp: request_ok_def intro: sector_take_bit)
  let ?t = "s\<lparr>idestat := rs, outp := outp s @ start_ports ?bf,
      platter := (if b_dirty ?bf then (platter s)(1 := (platter s 1)(b_sector ?bf := b_data ?bf)) else platter s)\<rparr>"
  have "idestart (Some b) s = Ok () ?t"
    unfolding idestart_Ok [OF assms(1)] Let_def tb by (simp add: dev)
  moreover have "lba (outp ?t) = b_sector ?bf" "drive (outp ?t) = 1"
    using start_ports_lba [of "outp s" ?bf] start_ports_drive [of "outp s" ?bf] tb dev by simp_all
  ultimately show ?thesis
    using sector_of_nat [OF _ assms(3)] by (intro exI [of _ ?t]) auto
qed

lemma request_ok_cong: "unlinked x = unlinked y \<Longrightarrow> request_ok m x = request_ok m y"
  using unlinked_eq [of x y] by (simp add: request_ok_def)

lemma ide_sim_snoc:
  assumes sim: "ide_sim s (c # ds) m" and "qchain bfs (idequeue s) (c # ds @ [b])" and "distinct (c # ds @ [b])"
    and m: "map unlinked bfs = map unlinked (bufs s)" and "b < length (bufs s)" and "request_ok m (bufs s ! b)"
  shows "ide_sim (s\<lparr>bufs := bfs\<rparr>) (c # ds @ [b]) m"
proof -
  have len: "length bfs = length (bufs s)" using map_eq_imp_length_eq [OF m] .
  have u: "unlinked (bfs ! x) = unlinked (bufs s ! x)" if "x \<in> set (c # ds @ [b])" for x
    using that qchain_set [OF assms(2) that] by (intro map_unlinked_nth [OF m]) auto
  have "request_ok m (bfs ! x)" if x: "x \<in> set (c # ds @ [b])" for x
  proof -
    have "request_ok m (bufs s ! x)" using x sim assms(6) by (auto simp: ide_sim_def)
    with request_ok_cong [OF u [OF x], of m] show ?thesis by simp
  qed
  moreover have "b_dirty (bfs ! c) = b_dirty (bufs s ! c)" "b_sector (bfs ! c) = b_sector (bufs s ! c)"
      "b_data (bfs ! c) = b_data (bufs s ! c)"
    using unlinked_eq [OF u [of c]] by simp_all
  ultimately show ?thesis using sim assms(2,3) m unfolding ide_sim_def by simp
qed

lemma ide_iderw_queues:
  assumes sim: "ide_sim s bs m" and b: "b \<notin> set bs" "b < length (bufs s)" "request_ok m (bufs s ! b)"
    and n: "length bs \<le> NBUF" and st: "held s = []" "curproc s = Some i" "i < length (ptable s)"
    and rd: "bs = [] \<Longrightarrow> poll_ready (idestat s) = Some (r, rs)"
  shows "\<exists>t. ide_iderw b s = Sleep (CH_buf b) t \<and> ide_sim t (bs @ [b]) m \<and> held t = [LK_ptable] \<and> curproc t = None \<and>
     ptable t = (ptable s)[i := (ptable s ! i)\<lparr>p_chan := Some (CH_buf b), p_state := SLEEPING\<rparr>] \<and>
     idestat t = (if bs = [] then rs else idestat s)"
proof -
  let ?s = "s\<lparr>held := [LK_ide]\<rparr>"
  define p where "p = (if bs = [] then Some b else idequeue s)"
  have p: "p = (if bs = [] then Some b else idequeue ?s)" by (simp add: p_def)
  have q: "qchain (bufs s) (idequeue s) bs" "distinct (bs @ [b])" "havedisk1 s" "length (memdisk m) \<le> 2 ^ 28"
      and ms: "map unlinked (bufs s) = map unlinked (bufs m)"
    using sim b(1) by (auto simp: ide_sim_def)
  obtain bfs where a: "append_queue b ?s = Ok () (?s\<lparr>bufs := bfs, idequeue := p\<rparr>)"
      and c: "qchain bfs p (bs @ [b])"
      and m: "map unlinked bfs = map unlinked (bufs s)"
    using append_queue_Ok [of ?s bs b p] q b(2) n p by auto
  have ub: "unlinked (bfs ! b) = unlinked (bufs s ! b)" "b < length bfs"
    using map_unlinked_nth [OF m, of b] map_eq_imp_length_eq [OF m] b(2) by auto
  note f = unlinked_eq [OF ub(1)]
  have rq: "request_ok m (bfs ! b)" using request_ok_cong [OF ub(1), of m] b(3) by simp
  have go: "ide_iderw b s = (case whenk (p = Some b) (idestart (Some b))
      (?s\<lparr>bufs := bfs, idequeue := p\<rparr>) of Ok x t \<Rightarrow> ide_wait_loop b t
      | Panic e \<Rightarrow> Panic e | Sleep c t \<Rightarrow> Sleep c t | Fault e \<Rightarrow> Fault e | Diverge \<Rightarrow> Diverge)"
    using a st(1) b(3) q(3) by (auto simp: ide_iderw_def the_buf_def acquire_def request_ok_def)
  have wl: "ide_wait_loop b t = (Sleep (CH_buf b) (t\<lparr>held := [LK_ptable], curproc := None,
      ptable := (ptable s)[i := (ptable s ! i)\<lparr>p_chan := Some (CH_buf b), p_state := SLEEPING\<rparr>]\<rparr>) :: ('a disks_scheme, unit) outcome)"
    if "held t = [LK_ide]" "curproc t = Some i" "ptable t = ptable s" "bufs t = bfs" for t :: "'a disks_scheme"
    using that rq st(3) by (auto simp: ide_wait_loop_def the_buf_def request_ok_def sleep_Sleep)
  show ?thesis
  proof (cases bs)
    case Nil
    let ?a = "?s\<lparr>bufs := bfs, idequeue := Some b\<rparr>"
    obtain t where t: "idestart (Some b) ?a = Ok () t" "t = ?a\<lparr>idestat := rs, outp := outp t, platter := platter t\<rparr>"
      "lba (outp t) = b_sector (bfs ! b)" "drive (outp t) = 1"
      "\<forall>n<length (memdisk m). platter t 1 (of_nat n) =
        (if b_dirty (bfs ! b) \<and> n = unat (b_sector (bfs ! b)) then b_data (bfs ! b) else platter s 1 (of_nat n))"
      using idestart_request [of ?a r rs m b] rd Nil rq q(4) by auto
    have tf: "held t = [LK_ide]" "curproc t = Some i" "ptable t = ptable s" "bufs t = bfs" "idequeue t = Some b"
        "havedisk1 t" "idestat t = rs"
      using st q(3) by (subst t(2); simp)+
    have "\<forall>n<length (memdisk m). platter s 1 (of_nat n) = memdisk m ! n" using sim Nil by (simp add: ide_sim_def)
    then have "ide_sim t [b] m" using t(3-5) tf c q(4) rq m ms Nil ub(2) by (simp add: ide_sim_def p_def)
    then show ?thesis using go t(1) wl [OF tf(1-4)] tf Nil by (simp add: p_def)
  next
    case (Cons h ds)
    have "idequeue s \<noteq> Some b" using q(1) Cons b(1) by auto
    then have e: "ide_iderw b s = ide_wait_loop b (?s\<lparr>bufs := bfs\<rparr>)" using go Cons by (simp add: p_def)
    have "ide_sim (s\<lparr>bufs := bfs\<rparr>) (h # ds @ [b]) m"
      using sim c m b q(2) Cons by (intro ide_sim_snoc) (auto simp: p_def)
    then show ?thesis using e wl [of "?s\<lparr>bufs := bfs\<rparr>"] st Cons by simp
  qed
qed

text \<open>
  \<open>ide_status k st\<close>: among the answers \<open>st\<close> of the status port at least \<open>k\<close> say that the
  controller is ready, and none that does reports an error.
\<close>

definition ide_ready :: "byte \<Rightarrow> bool" where
  "ide_ready r \<longleftrightarrow> r AND (IDE_BSY OR IDE_DRDY) = IDE_DRDY"

definition ide_status :: "nat \<Rightarrow> byte list \<Rightarrow> bool" where
  "ide_status k st \<longleftrightarrow> k \<le> length (filter ide_ready st) \<and> (\<forall>r\<in>set st. ide_ready r \<longrightarrow> r AND (IDE_DF OR IDE_ERR) = 0)"

lemma ide_status_next:
  "ide_status (Suc k) st \<Longrightarrow> \<exists>r rs. poll_ready st = Some (r, rs) \<and> r AND (IDE_DF OR IDE_ERR) = 0 \<and> ide_status k rs"
proof (induction st)
  case (Cons r st)
  show ?case
  proof (cases "ide_ready r")
    case True
    with Cons.prems show ?thesis by (auto simp: ide_status_def ide_ready_def)
  next
    case False
    with Cons show ?thesis by (auto simp: ide_status_def ide_ready_def)
  qed
qed (simp add: ide_status_def)

lemma ide_status_mono: "ide_status k st \<Longrightarrow> j \<le> k \<Longrightarrow> ide_status j st"
  by (simp add: ide_status_def)

definition wake_buf :: "nat \<Rightarrow> proc list \<Rightarrow> proc list" where
  "wake_buf b = map (\<lambda>p. if p_state p = SLEEPING \<and> p_chan p = Some (CH_buf b) then p\<lparr>p_state := RUNNABLE\<rparr> else p)"

definition done_buf :: "byte list \<Rightarrow> buf \<Rightarrow> buf" where
  "done_buf d x = x\<lparr>b_data := d, b_valid := True, b_dirty := False\<rparr>"

lemma done_buf_simps [simp]:
  "b_data (done_buf d x) = d" "b_valid (done_buf d x)" "\<not> b_dirty (done_buf d x)" "b_qnext (done_buf d x) = b_qnext x"
  by (simp_all add: done_buf_def)

lemma done_buf_write: "done_buf (b_data x) x = x\<lparr>b_dirty := False, b_valid := True\<rparr>"
  by (simp add: done_buf_def)

lemma done_buf_read: "\<not> b_dirty x \<Longrightarrow> done_buf d x = x\<lparr>b_data := d, b_valid := True\<rparr>"
  by (cases x) (simp add: done_buf_def)

lemma unlinked_done: "unlinked x = unlinked y \<Longrightarrow> unlinked (done_buf d x) = unlinked (done_buf d y)"
proof -
  have "unlinked (done_buf d z) = done_buf d (unlinked z)" for z by (simp add: unlinked_def done_buf_def)
  then show "unlinked x = unlinked y \<Longrightarrow> ?thesis" by simp
qed

text \<open>The handler up to the start of the next request.\<close>

lemma ideintr_head:
  assumes "held s = []" and "idequeue s = Some b" and "b < length (bufs s)"
    and "d = (if b_dirty (bufs s ! b) \<or> q AND (IDE_DF OR IDE_ERR) \<noteq> 0 then b_data (bufs s ! b)
         else platter s (drive (outp s)) (lba (outp s)))"
    and "if b_dirty (bufs s ! b) then rs = idestat s else poll_ready (idestat s) = Some (q, rs)"
    and "t = s\<lparr>held := [LK_ide], idequeue := b_qnext (bufs s ! b), idestat := rs,
        bufs := (bufs s)[b := done_buf d (bufs s ! b)], ptable := wake_buf b (ptable s)\<rparr>"
  shows "ideintr ex s = thn (whenk (idequeue t \<noteq> None) (idestart (idequeue t))) (release LK_ide) t"
proof (cases "b_dirty (bufs s ! b)")
  case True
  with assms show ?thesis
    by (simp add: ideintr_def acquire_def the_buf_def upd_buf_def wakeup_Ok wake_buf_def done_buf_def)
next
  case False
  with assms show ?thesis
    by (simp add: ideintr_def acquire_def the_buf_def upd_buf_def wakeup_Ok wake_buf_def done_buf_def
      idewait_def insl_def)
qed

lemma iderw_Ok:
  assumes "b < length (bufs m)" and "request_ok m (bufs m ! b)"
    and "d = (if b_dirty (bufs m ! b) then b_data (bufs m ! b) else memdisk m ! unat (b_sector (bufs m ! b)))"
  shows "\<exists>x. iderw b m = Ok () x \<and> bufs x = (bufs m)[b := done_buf d (bufs m ! b)] \<and>
     memdisk x = (if b_dirty (bufs m ! b) then (memdisk m)[unat (b_sector (bufs m ! b)) := d] else memdisk m)"
  using assms by (cases "b_dirty (bufs m ! b)")
    (auto simp: iderw_def the_buf_def upd_buf_def request_ok_def done_buf_write done_buf_read)

text \<open>The end of the handler: the next request is started when there is one.\<close>

lemma ideintr_next:
  assumes tq: "qchain (bufs t) (idequeue t) bs" "distinct bs" and h: "held t = [LK_ide]" "havedisk1 t"
    and len: "length (memdisk x) \<le> 2 ^ 28" and tm: "map unlinked (bufs t) = map unlinked (bufs x)"
    and rq: "\<forall>y\<in>set bs. request_ok x (bufs t ! y)"
    and tp: "\<forall>n<length (memdisk x). platter t 1 (of_nat n) = memdisk x ! n" and st: "ide_status (Suc k) (idestat t)"
  shows "\<exists>u. thn (whenk (idequeue t \<noteq> None) (idestart (idequeue t))) (release LK_ide) t = Ok () u \<and> ide_sim u bs x \<and>
     held u = [] \<and> ptable u = ptable t \<and> curproc u = curproc t \<and> bufs u = bufs t \<and> ide_status k (idestat u)"
proof (cases bs)
  case Nil
  then have "ide_sim (t\<lparr>held := []\<rparr>) bs x" using tq tm tp len h(2) by (simp add: ide_sim_def)
  then show ?thesis
    using Nil tq h(1) ide_status_mono [OF st, of k] by (intro exI [of _ "t\<lparr>held := []\<rparr>"]) (simp add: release_def)
next
  case (Cons c ds)
  have c: "idequeue t = Some c" using tq Cons by simp
  obtain r1 rs1 where r1: "poll_ready (idestat t) = Some (r1, rs1)" "ide_status k rs1"
    using ide_status_next [OF st] by auto
  obtain u where u: "idestart (Some c) t = Ok () u" "u = t\<lparr>idestat := rs1, outp := outp u, platter := platter u\<rparr>"
      "lba (outp u) = b_sector (bufs t ! c)" "drive (outp u) = 1"
      "\<forall>n<length (memdisk x). platter u 1 (of_nat n) =
        (if b_dirty (bufs t ! c) \<and> n = unat (b_sector (bufs t ! c)) then b_data (bufs t ! c) else platter t 1 (of_nat n))"
    using idestart_request [OF r1(1), of x c] rq Cons len by auto
  have uf: "held u = [LK_ide]" "bufs u = bufs t" "idequeue u = idequeue t" "havedisk1 u" "ptable u = ptable t"
      "curproc u = curproc t" "idestat u = rs1"
    using h by (subst u(2); simp)+
  have "ide_sim (u\<lparr>held := []\<rparr>) bs x" using u(3-5) uf tq tm tp rq len Cons by (simp add: ide_sim_def)
  then show ?thesis using c u(1) uf r1(2) by (intro exI [of _ "u\<lparr>held := []\<rparr>"]) (simp add: release_def)
qed

lemma ideintr_completes:
  assumes sim: "ide_sim s (b # bs) m" and h: "held s = []" and st: "ide_status (Suc (Suc k)) (idestat s)"
  shows "\<exists>u x. ideintr ex s = Ok () u \<and> iderw b m = Ok () x \<and> ide_sim u bs x \<and> held u = [] \<and>
     ptable u = wake_buf b (ptable s) \<and> curproc u = curproc s \<and> b_valid (bufs u ! b) \<and> \<not> b_dirty (bufs u ! b) \<and>
     ide_status k (idestat u)"
proof -
  let ?bf = "bufs s ! b"
  from sim have b: "b < length (bufs s)" "idequeue s = Some b" and q: "qchain (bufs s) (b_qnext ?bf) bs"
      and dd: "distinct (b # bs)" and len: "length (memdisk m) \<le> 2 ^ 28"
      and ms: "map unlinked (bufs s) = map unlinked (bufs m)"
      and rq: "request_ok m ?bf" "\<forall>x\<in>set bs. request_ok m (bufs s ! x)" and hd1: "havedisk1 s"
      and la: "lba (outp s) = b_sector ?bf" "drive (outp s) = 1"
      and pl: "\<And>n. n < length (memdisk m) \<Longrightarrow> platter s 1 (of_nat n) =
        (if b_dirty ?bf \<and> n = unat (b_sector ?bf) then b_data ?bf else memdisk m ! n)"
    by (auto simp: ide_sim_def)
  have ub: "unlinked ?bf = unlinked (bufs m ! b)" "b < length (bufs m)"
    using map_unlinked_nth [OF ms b(1)] map_eq_imp_length_eq [OF ms] b(1) by auto
  define d where "d = (if b_dirty ?bf then b_data ?bf else memdisk m ! unat (b_sector ?bf))"
  have "request_ok m (bufs m ! b)" using request_ok_cong [OF ub(1), of m] rq(1) by simp
  then obtain x where x: "iderw b m = Ok () x" "bufs x = (bufs m)[b := done_buf d (bufs m ! b)]"
      "memdisk x = (if b_dirty ?bf then (memdisk m)[unat (b_sector ?bf) := d] else memdisk m)"
    using iderw_Ok [OF ub(2), of d] unlinked_eq [OF ub(1)] by (auto simp: d_def)
  obtain r0 rs0 where r0: "poll_ready (idestat s) = Some (r0, rs0)" "r0 AND (IDE_DF OR IDE_ERR) = 0" "ide_status (Suc k) rs0"
    using ide_status_next [OF st] by blast
  define rs where "rs = (if b_dirty ?bf then idestat s else rs0)"
  define t where "t = s\<lparr>held := [LK_ide], idequeue := b_qnext ?bf, idestat := rs,
      bufs := (bufs s)[b := done_buf d ?bf], ptable := wake_buf b (ptable s)\<rparr>"
  have lx: "length (memdisk x) = length (memdisk m)" by (simp add: x(3))
  have "platter s 1 (b_sector ?bf) = d"
    using pl [of "unat (b_sector ?bf)"] rq(1) by (simp add: request_ok_def d_def)
  then have go: "ideintr ex s = thn (whenk (idequeue t \<noteq> None) (idestart (idequeue t))) (release LK_ide) t"
    using r0 la by (intro ideintr_head [OF h b(2,1) _ _ t_def, of r0]) (auto simp: rs_def d_def)
  have "\<exists>u. thn (whenk (idequeue t \<noteq> None) (idestart (idequeue t))) (release LK_ide) t = Ok () u \<and> ide_sim u bs x \<and>
     held u = [] \<and> ptable u = ptable t \<and> curproc u = curproc t \<and> bufs u = bufs t \<and> ide_status k (idestat u)"
  proof (rule ideintr_next)
    show "qchain (bufs t) (idequeue t) bs"
      using q dd by (subst qchain_cong [of _ "bufs s"]) (auto simp: t_def nth_update)
    show "map unlinked (bufs t) = map unlinked (bufs x)"
      using ms unlinked_done [OF ub(1), of d] by (simp add: t_def x(2) map_update)
    show "\<forall>n<length (memdisk x). platter t 1 (of_nat n) = memdisk x ! n" using pl by (auto simp: t_def x(3) d_def)
    show "ide_status (Suc k) (idestat t)" using r0(3) ide_status_mono [OF st, of "Suc k"] by (simp add: rs_def t_def)
    show "\<forall>y\<in>set bs. request_ok x (bufs t ! y)" using rq(2) dd by (auto simp: request_ok_def lx t_def nth_update)
  qed (use dd hd1 len lx in \<open>simp_all add: t_def\<close>)
  with go x(1) b(1) show ?thesis by (auto simp: t_def)
qed

lemma idestart_bufs:
  assumes "poll_ready (idestat s) = Some (r, rs)"
  shows "\<exists>t. idestart (Some b) s = Ok () t \<and> bufs t = bufs s \<and> held t = held s"
  using idestart_Ok [OF assms] by (simp add: Let_def)

text \<open>A read that the drive reports as failed is completed like any other, without data.\<close>

lemma ideintr_read_error:
  assumes "held s = []" and "qchain (bufs s) (idequeue s) (b # bs)" and "\<not> b_dirty (bufs s ! b)"
    and "poll_ready (idestat s) = Some (q, rs)" and "q AND (IDE_DF OR IDE_ERR) \<noteq> 0" and "ide_status 1 rs"
  shows "\<exists>u. ideintr ex s = Ok () u \<and> b_valid (bufs u ! b) \<and> b_data (bufs u ! b) = b_data (bufs s ! b)"
proof -
  from assms(2) have b: "idequeue s = Some b" "b < length (bufs s)" by auto
  define t where "t = s\<lparr>held := [LK_ide], idequeue := b_qnext (bufs s ! b), idestat := rs,
      bufs := (bufs s)[b := done_buf (b_data (bufs s ! b)) (bufs s ! b)], ptable := wake_buf b (ptable s)\<rparr>"
  have go: "ideintr ex s = thn (whenk (idequeue t \<noteq> None) (idestart (idequeue t))) (release LK_ide) t"
    using assms(3-5) by (intro ideintr_head [OF assms(1) b _ _ t_def, of q]) auto
  obtain r1 rs1 where r1: "poll_ready (idestat t) = Some (r1, rs1)"
    using ide_status_next [of 0 rs] assms(6) by (auto simp: t_def)
  have tb: "bufs t ! b = done_buf (b_data (bufs s ! b)) (bufs s ! b)" "held t = [LK_ide]" using b by (simp_all add: t_def)
  show ?thesis
  proof (cases "idequeue t")
    case None
    then show ?thesis using go tb by (simp add: release_def)
  next
    case (Some c)
    obtain u where "idestart (Some c) t = Ok () u" "bufs u = bufs t" "held u = held t"
      using idestart_bufs [OF r1, of c] by blast
    then show ?thesis using go tb Some by (simp add: release_def)
  qed
qed

lemma ide_wait_done:
  assumes "b_valid (bufs u ! b)" and "\<not> b_dirty (bufs u ! b)" and "i < length (ptable u)"
  shows "\<exists>v. sleep_resume LK_ide (u\<lparr>held := [LK_ptable], curproc := Some i\<rparr>) = Ok () v \<and>
     ide_wait_loop b v = Ok () (v\<lparr>held := []\<rparr>)"
  using assms by (simp add: sleep_resume_Ok ide_wait_loop_def the_buf_def release_def)

lemma ide_sim_bufs:
  assumes "ide_sim s bs m"
  shows "length (bufs s) = length (bufs m)"
    and "b < length (bufs m) \<Longrightarrow> request_ok m (bufs s ! b) = request_ok m (bufs m ! b)"
proof -
  have m: "map unlinked (bufs s) = map unlinked (bufs m)" using assms by (simp add: ide_sim_def)
  show l: "length (bufs s) = length (bufs m)" by (rule map_eq_imp_length_eq [OF m])
  show "request_ok m (bufs s ! b) = request_ok m (bufs m ! b)" if "b < length (bufs m)"
    using that l by (intro request_ok_cong map_unlinked_nth [OF m]) simp
qed

text \<open>A machine with one process, one buffer for sector 1 and a disk of two sectors.\<close>

definition buf0 :: buf where
  "buf0 = \<lparr>b_busy = True, b_valid = False, b_dirty = False, b_dev = 1, b_sector = 1, b_prev = 0, b_next = 0,
     b_qnext = None, b_data = replicate 512 0\<rparr>"

definition disks0 :: disks where
  "disks0 = \<lparr>held = [], ptable = [proc0\<lparr>p_state := RUNNING, p_pid := 1\<rparr>], curproc = Some 0, initproc = Some 0,
     nextpid = 2, ticks = 0, klog = [], mem = (\<lambda>_. 0), freelist = 0, use_lock = True, frames = 0,
     kend = 0x80110000, start_at = 0x80100000, kpgdir = 0, cr3 = 0, esp0 = 0, kdata = 0x80108000,
     bufs = [buf0], memdisk = [replicate 512 1, replicate 512 2], wtrace = [], idequeue = None,
     havedisk1 = True, outp = [], idestat = [0x80, 0x40, 0x40],
     platter = (\<lambda>d n. if n = 1 then replicate 512 2 else replicate 512 1)\<rparr>"

lemma disks0_poll: "poll_ready (idestat disks0) = Some (0x40, [0x40])" "poll_ready [0x40] = Some (0x40, [])"
  by (simp_all add: disks0_def)

text \<open>Two processes and two requests: a read of sector 1 and a write of sector 0.\<close>

definition disks1 :: disks where
  "disks1 = disks0\<lparr>ptable := replicate 2 (proc0\<lparr>p_state := RUNNING, p_pid := 1\<rparr>),
     bufs := [buf0, buf0\<lparr>b_dirty := True, b_sector := 0\<rparr>], idestat := [0x80, 0x40, 0x40, 0x40, 0x40, 0x40]\<rparr>"

lemma disks1_simps:
  "held disks1 = []" "curproc disks1 = Some 0" "length (ptable disks1) = 2" "length (bufs disks1) = 2"
  "poll_ready (idestat disks1) = Some (0x40, [0x40, 0x40, 0x40, 0x40])" "ide_status 4 [0x40, 0x40, 0x40, 0x40]"
  "request_ok disks1 (bufs disks1 ! 0)" "request_ok disks1 (bufs disks1 ! 1)"
  by (simp_all add: disks1_def disks0_def buf0_def request_ok_def ide_status_def ide_ready_def)

lemma disks1_sim: "ide_sim disks1 [] disks1"
  by (auto simp: ide_sim_def disks1_def disks0_def less_Suc_eq)

section \<open>Properties\<close>

text \<open>
  C13. The sector reaches the controller. \<open>idestart\<close> leaves the registers of the controller such
  that the address they encode is the low 28 bits of the sector number, whatever the number, and
  the drive bit is the low bit of the device.
\<close>

theorem idestart_addresses_sector:
  assumes "poll_ready (idestat s) = Some (r, rs)"
  shows "\<exists>t. idestart (Some b) s = Ok () t \<and> lba (outp t) = b_sector (bufs s ! b) mod 2 ^ 28 \<and>
     drive (outp t) = b_dev (bufs s ! b) AND 1 \<and> port (outp t) 0x1f2 = 1 \<and>
     port (outp t) 0x1f7 = (if b_dirty (bufs s ! b) then IDE_CMD_WRITE else IDE_CMD_READ)"
  using idestart_Ok [OF assms] start_ports_lba [of "outp s" "bufs s ! b"] start_ports_drive [of "outp s" "bufs s ! b"]
  by (simp add: Let_def port_def take_bit_eq_mod) (simp add: start_ports_def)

theorem idestart_addresses_sector_witness:
  "\<exists>t. idestart (Some 0) disks0 = Ok () t \<and> lba (outp t) = 1 \<and> drive (outp t) = 1"
  using idestart_addresses_sector [OF disks0_poll(1), of 0] by (auto simp: disks0_def buf0_def)

text \<open>
  C14. Interrupt-driven and immediate I/O agree on disk 1, the disk that \<^verbatim>\<open>memide.c\<close> has. Let the
  requests \<open>bs\<close> be queued in \<^verbatim>\<open>ide.c\<close>, and let \<open>m\<close> be the state of \<^verbatim>\<open>memide.c\<close> in which they are
  still to be made. A new request is put at the end of the queue and its process sleeps. While
  the drive reports no error, a disk interrupt does to the buffers and to the whole disk what
  \<open>iderw\<close> of \<^verbatim>\<open>memide.c\<close> does for the first request of the queue, starts the next one, and wakes
  the sleeping process, whose \<open>iderw\<close> then returns. When the drive reports an error for a read,
  the buffer is marked valid all the same, with the data it had.
\<close>

theorem ide_matches_memide:
  assumes "ide_sim s bs m" and "held s = []"
  shows "(\<forall>b i r rs. b \<notin> set bs \<and> b < length (bufs m) \<and> request_ok m (bufs m ! b) \<and> length bs \<le> NBUF \<and>
       curproc s = Some i \<and> i < length (ptable s) \<and> (bs = [] \<longrightarrow> poll_ready (idestat s) = Some (r, rs)) \<longrightarrow>
       (\<exists>t. ide_iderw b s = Sleep (CH_buf b) t \<and> ide_sim t (bs @ [b]) m \<and>
          ptable t = (ptable s)[i := (ptable s ! i)\<lparr>p_chan := Some (CH_buf b), p_state := SLEEPING\<rparr>] \<and>
          idestat t = (if bs = [] then rs else idestat s))) \<and>
     (\<forall>b ds k. bs = b # ds \<and> ide_status (k + 2) (idestat s) \<longrightarrow>
       (\<exists>u x. ideintr ex s = Ok () u \<and> iderw b m = Ok () x \<and> ide_sim u ds x \<and> held u = [] \<and>
          ptable u = wake_buf b (ptable s) \<and> ide_status k (idestat u) \<and>
          (\<forall>i<length (ptable u). \<exists>v. sleep_resume LK_ide (u\<lparr>held := [LK_ptable], curproc := Some i\<rparr>) = Ok () v \<and>
             ide_wait_loop b v = Ok () (v\<lparr>held := []\<rparr>)))) \<and>
     (\<forall>b ds q rs. bs = b # ds \<and> \<not> b_dirty (bufs s ! b) \<and> poll_ready (idestat s) = Some (q, rs) \<and>
       q AND (IDE_DF OR IDE_ERR) \<noteq> 0 \<and> ide_status 1 rs \<longrightarrow>
       (\<exists>u. ideintr ex s = Ok () u \<and> b_valid (bufs u ! b) \<and> b_data (bufs u ! b) = b_data (bufs s ! b)))"
proof (intro conjI allI impI, goal_cases)
  case (1 b i r rs)
  with ide_iderw_queues [OF assms(1), of b i r rs] ide_sim_bufs [OF assms(1)] assms(2) show ?case by auto
next
  case (2 b ds k)
  then obtain u x where u: "ideintr ex s = Ok () u" "iderw b m = Ok () x" "ide_sim u ds x" "held u = []"
      "ptable u = wake_buf b (ptable s)" "b_valid (bufs u ! b)" "\<not> b_dirty (bufs u ! b)" "ide_status k (idestat u)"
    using ideintr_completes [of s b ds m k ex] assms by auto
  with ide_wait_done [OF u(6,7)] show ?case by blast
next
  case (3 b ds q rs)
  with ideintr_read_error [OF assms(2), of b ds q rs ex] assms(1) show ?case by (simp add: ide_sim_def)
qed

theorem ide_matches_memide_witness:
  "\<exists>t1 t2 u1 u2 x1 x2. ide_iderw 0 disks1 = Sleep (CH_buf 0) t1 \<and>
     ide_iderw 1 (t1\<lparr>held := [], curproc := Some 1\<rparr>) = Sleep (CH_buf 1) t2 \<and>
     ideintr (ret ()) (t2\<lparr>held := []\<rparr>) = Ok () u1 \<and> iderw 0 disks1 = Ok () x1 \<and>
     ideintr (ret ()) u1 = Ok () u2 \<and> iderw 1 x1 = Ok () x2 \<and> ide_sim u2 [] x2"
proof -
  note T = ide_matches_memide [where ex = "ret ()"]
  obtain t1 where t1: "ide_iderw 0 disks1 = Sleep (CH_buf 0) t1" "ide_sim t1 [0] disks1"
      "length (ptable t1) = 2" "idestat t1 = [0x40, 0x40, 0x40, 0x40]"
    using T [OF disks1_sim disks1_simps(1), THEN conjunct1, rule_format, of 0 0 "0x40" "[0x40, 0x40, 0x40, 0x40]"]
      disks1_simps by auto
  let ?t1 = "t1\<lparr>held := [], curproc := Some 1\<rparr>"
  have s1: "ide_sim ?t1 [0] disks1" using t1(2) by simp
  obtain t2 where t2: "ide_iderw 1 ?t1 = Sleep (CH_buf 1) t2" "ide_sim t2 [0, 1] disks1"
      "idestat t2 = [0x40, 0x40, 0x40, 0x40]"
    using T [OF s1, THEN conjunct1, rule_format, of 1 1] t1(3,4) disks1_simps by auto
  have s2: "ide_sim (t2\<lparr>held := []\<rparr>) [0, 1] disks1" using t2(2) by simp
  obtain u1 x1 where u1: "ideintr (ret ()) (t2\<lparr>held := []\<rparr>) = Ok () u1" "iderw 0 disks1 = Ok () x1"
      "ide_sim u1 [1] x1" "held u1 = []" "ide_status 2 (idestat u1)"
    using T [OF s2, THEN conjunct2, THEN conjunct1, rule_format, of 0 "[1]" 2] t2(3) disks1_simps(6) by auto
  obtain u2 x2 where "ideintr (ret ()) u1 = Ok () u2" "iderw 1 x1 = Ok () x2" "ide_sim u2 [] x2"
    using T [OF u1(3,4), THEN conjunct2, THEN conjunct1, rule_format, of 1 "[]" 0] u1(5) by (auto simp: numeral_2_eq_2)
  with t1(1) t2(1) u1(1,2) show ?thesis by blast
qed

end
