(* ===== verification/Bio.thy ===== *)
theory Bio
  imports Ide
begin

text \<open>
  The buffer cache \<^verbatim>\<open>bio.c\<close>: a fixed table of buffers on a doubly linked list in order of recent
  use. The entry \<open>NBUF\<close> of the table \<open>bufs\<close> is the head of the list (\<open>bcache.head\<close>).
\<close>

section \<open>Operations\<close>

text \<open>The initialisation of one buffer in \<open>binit\<close>: it is linked in behind the head.\<close>

definition binit_one :: "nat \<Rightarrow> ('z, unit) diskf" where
  "binit_one b =
     bnd (gets (\<lambda>s. b_next (bufs s ! NBUF))) (\<lambda>f.
     thn (upd_buf b (\<lambda>x. x\<lparr>b_next := f\<rparr>))
     (thn (upd_buf b (\<lambda>x. x\<lparr>b_prev := NBUF\<rparr>))
     (thn (upd_buf b (\<lambda>x. x\<lparr>b_dev := -1\<rparr>))
     (bnd (gets (\<lambda>s. b_next (bufs s ! NBUF))) (\<lambda>g.
      thn (upd_buf g (\<lambda>x. x\<lparr>b_prev := b\<rparr>))
      (upd_buf NBUF (\<lambda>x. x\<lparr>b_next := b\<rparr>)))))))"

definition binit :: "('z, unit) diskf" where
  "binit =
     thn (upd_buf NBUF (\<lambda>x. x\<lparr>b_prev := NBUF\<rparr>))
     (thn (upd_buf NBUF (\<lambda>x. x\<lparr>b_next := NBUF\<rparr>))
      (for_each [0..<NBUF] binit_one))"

text \<open>
  The two scans of \<open>bget\<close>, forward from the most and backward from the least recently used
  buffer, up to the head.
\<close>

primrec scan_next :: "nat \<Rightarrow> (buf \<Rightarrow> bool) \<Rightarrow> nat \<Rightarrow> ('z, nat option) diskf" where
  "scan_next 0 P b = diverge"
| "scan_next (Suc n) P b =
     (if b = NBUF then ret None
      else bnd (the_buf b) (\<lambda>bf. if P bf then ret (Some b) else scan_next n P (b_next bf)))"

primrec scan_prev :: "nat \<Rightarrow> (buf \<Rightarrow> bool) \<Rightarrow> nat \<Rightarrow> ('z, nat option) diskf" where
  "scan_prev 0 P b = diverge"
| "scan_prev (Suc n) P b =
     (if b = NBUF then ret None
      else bnd (the_buf b) (\<lambda>bf. if P bf then ret (Some b) else scan_prev n P (b_prev bf)))"

text \<open>\<open>bget\<close> from the label \<open>loop\<close>, which is also where it continues after a wakeup.\<close>

definition bget_loop :: "u32 \<Rightarrow> u32 \<Rightarrow> ('z, nat) diskf" where
  "bget_loop dev sector =
     bnd (gets (\<lambda>s. b_next (bufs s ! NBUF))) (\<lambda>f.
     bnd (scan_next (NBUF + 1) (\<lambda>bf. b_dev bf = dev \<and> b_sector bf = sector) f) (\<lambda>r. case r of
       Some b \<Rightarrow>
         bnd (the_buf b) (\<lambda>bf.
         if \<not> b_busy bf then
           thn (upd_buf b (\<lambda>x. x\<lparr>b_busy := True\<rparr>)) (thn (release LK_bcache) (ret b))
         else sleep (CH_buf b) LK_bcache)
     | None \<Rightarrow>
         bnd (gets (\<lambda>s. b_prev (bufs s ! NBUF))) (\<lambda>l.
         bnd (scan_prev (NBUF + 1) (\<lambda>bf. \<not> b_busy bf \<and> \<not> b_dirty bf) l) (\<lambda>q. case q of
           Some b \<Rightarrow>
             thn (upd_buf b (\<lambda>x. x\<lparr>b_dev := dev\<rparr>))
             (thn (upd_buf b (\<lambda>x. x\<lparr>b_sector := sector\<rparr>))
             (thn (upd_buf b (\<lambda>x. x\<lparr>b_busy := True, b_valid := False, b_dirty := False\<rparr>))
             (thn (release LK_bcache) (ret b))))
         | None \<Rightarrow> panic ''bget: no buffers''))))"

definition bget :: "u32 \<Rightarrow> u32 \<Rightarrow> ('z, nat) diskf" where
  "bget dev sector = thn (acquire LK_bcache) (bget_loop dev sector)"

definition bread :: "u32 \<Rightarrow> u32 \<Rightarrow> ('z, nat) diskf" where
  "bread dev sector =
     bnd (bget dev sector) (\<lambda>b.
     bnd (the_buf b) (\<lambda>bf.
     thn (whenk (\<not> b_valid bf) (iderw b)) (ret b)))"

definition bwrite :: "nat \<Rightarrow> ('z, unit) diskf" where
  "bwrite b =
     bnd (the_buf b) (\<lambda>bf.
     if \<not> b_busy bf then panic ''bwrite''
     else thn (upd_buf b (\<lambda>x. x\<lparr>b_dirty := True\<rparr>)) (iderw b))"

definition brelse :: "nat \<Rightarrow> ('z, unit) diskf" where
  "brelse b =
     bnd (the_buf b) (\<lambda>bf.
     if \<not> b_busy bf then panic ''brelse''
     else
       thn (acquire LK_bcache)
       (thn (upd_buf (b_next bf) (\<lambda>x. x\<lparr>b_prev := b_prev bf\<rparr>))
       (bnd (the_buf b) (\<lambda>bf1.
        thn (upd_buf (b_prev bf1) (\<lambda>x. x\<lparr>b_next := b_next bf1\<rparr>))
        (bnd (the_buf NBUF) (\<lambda>h.
         thn (upd_buf b (\<lambda>x. x\<lparr>b_next := b_next h\<rparr>))
         (thn (upd_buf b (\<lambda>x. x\<lparr>b_prev := NBUF\<rparr>))
         (bnd (the_buf NBUF) (\<lambda>h1.
          thn (upd_buf (b_next h1) (\<lambda>x. x\<lparr>b_prev := b\<rparr>))
          (thn (upd_buf NBUF (\<lambda>x. x\<lparr>b_next := b\<rparr>))
          (thn (upd_buf b (\<lambda>x. x\<lparr>b_busy := False\<rparr>))
          (thn (wakeup (CH_buf b))
           (release LK_bcache)))))))))))))"

section \<open>The list of buffers\<close>

text \<open>\<open>linked nx pv l\<close>: along \<open>l\<close>, \<open>nx\<close> leads from each entry to the next and \<open>pv\<close> back.\<close>

fun linked :: "(nat \<Rightarrow> nat) \<Rightarrow> (nat \<Rightarrow> nat) \<Rightarrow> nat list \<Rightarrow> bool" where
  "linked nx pv (a # b # l) = (nx a = b \<and> pv b = a \<and> linked nx pv (b # l))"
| "linked nx pv [a] = True"
| "linked nx pv [] = True"

lemma linked_split: "linked nx pv (xs @ a # ys) \<longleftrightarrow> linked nx pv (xs @ [a]) \<and> linked nx pv (a # ys)"
proof (induction xs)
  case (Cons x xs)
  then show ?case by (cases xs) auto
qed simp

lemma linked_nx: "a \<notin> set (butlast l) \<Longrightarrow> linked (nx(a := x)) pv l = linked nx pv l"
  by (induction nx pv l rule: linked.induct) auto

lemma linked_pv: "a \<notin> set (tl l) \<Longrightarrow> linked nx (pv(a := x)) l = linked nx pv l"
  by (induction nx pv l rule: linked.induct) auto

lemma linked_pair: "linked nx pv (xs @ a # b # ys) \<longleftrightarrow>
    linked nx pv (xs @ [a]) \<and> nx a = b \<and> pv b = a \<and> linked nx pv (b # ys)"
  using linked_split [of nx pv xs a "b # ys"] by simp

text \<open>Taking an entry out of the ring and putting one in at the front.\<close>

lemma linked_unlink:
  assumes "linked nx pv (xs @ [p, b, n] @ ys)" and "distinct (xs @ [p, b])" and "distinct (n # ys)"
    and "p \<notin> set (butlast (n # ys))" and "n \<notin> set (tl (xs @ [p]))"
  shows "linked (nx(p := n)) (pv(n := p)) (xs @ [p, n] @ ys)"
proof -
  have l: "linked nx pv (xs @ [p])" "linked nx pv (n # ys)"
    using assms(1) linked_pair [of nx pv xs p b "n # ys"] by auto
  have "linked (nx(p := n)) (pv(n := p)) (xs @ [p])"
    using l(1) assms(2,5) by (subst linked_nx, simp, subst linked_pv) simp_all
  moreover have "linked (nx(p := n)) (pv(n := p)) (n # ys)"
    using l(2) assms(3,4) by (subst linked_nx, simp, subst linked_pv) simp_all
  ultimately show ?thesis using linked_pair [of "nx(p := n)" "pv(n := p)" xs p n ys] by simp
qed

lemma linked_push:
  assumes "linked nx pv (h # f # ys)" and "b \<notin> set (h # f # ys)" and "h \<notin> set (butlast (f # ys))"
    and "distinct (f # ys)"
  shows "linked (nx(b := f, h := b)) (pv(b := h, f := b)) (h # b # f # ys)"
proof -
  have "linked nx pv (f # ys)" using assms(1) by simp
  then have "linked (nx(b := f, h := b)) (pv(b := h, f := b)) (f # ys)"
    using assms(2-4) by (subst linked_nx, simp, subst linked_nx, fastforce dest: in_set_butlastD,
      subst linked_pv, simp, subst linked_pv) auto
  with assms(2) show ?thesis by auto
qed

abbreviation nxt :: "buf list \<Rightarrow> nat \<Rightarrow> nat" where
  "nxt bs i \<equiv> b_next (bs ! i)"

abbreviation prv :: "buf list \<Rightarrow> nat \<Rightarrow> nat" where
  "prv bs i \<equiv> b_prev (bs ! i)"

text \<open>The buffers in order of use: \<open>xs\<close> lists every buffer once.\<close>

definition lru :: "buf list \<Rightarrow> nat list \<Rightarrow> bool" where
  "lru bs xs \<longleftrightarrow> length bs = 31 \<and> distinct xs \<and> set xs = {..<30} \<and> linked (nxt bs) (prv bs) (30 # xs @ [30])"

lemma lru_length: "lru bs xs \<Longrightarrow> length xs = 30"
  by (metis card_lessThan distinct_card lru_def)

lemma scan_next_find:
  "linked (nxt (bufs s)) pv (ys @ [30]) \<Longrightarrow> 30 \<notin> set ys \<Longrightarrow> length ys < n \<Longrightarrow>
   scan_next n P (hd (ys @ [30])) s = Ok (find (\<lambda>b. P (bufs s ! b)) ys) s"
proof (induction ys arbitrary: n)
  case Nil
  then show ?case by (cases n) simp_all
next
  case (Cons y ys)
  then obtain m where m: "n = Suc m" by (cases n) auto
  have "nxt (bufs s) y = hd (ys @ [30])" "linked (nxt (bufs s)) pv (ys @ [30])"
    using Cons.prems(1) by (cases ys; simp)+
  then show ?case using Cons.IH [of m] Cons.prems m by (simp add: the_buf_def)
qed

lemma scan_prev_find:
  "linked nx (prv (bufs s)) (30 # ys) \<Longrightarrow> 30 \<notin> set ys \<Longrightarrow> length ys < n \<Longrightarrow>
   scan_prev n P (last (30 # ys)) s = Ok (find (\<lambda>b. P (bufs s ! b)) (rev ys)) s"
proof (induction ys arbitrary: n rule: rev_induct)
  case Nil
  then show ?case by (cases n) simp_all
next
  case (snoc y ys)
  then obtain m where m: "n = Suc m" by (cases n) auto
  have "linked nx (prv (bufs s)) (butlast (30 # ys) @ [last (30 # ys), y])"
    using snoc.prems(1) append_butlast_last_id [of "30 # ys"] by (metis append.assoc append_Cons append_Nil list.distinct(1))
  then have "prv (bufs s) y = last (30 # ys)" "linked nx (prv (bufs s)) (butlast (30 # ys) @ [last (30 # ys)])"
    using linked_pair [of nx "prv (bufs s)" "butlast (30 # ys)" "last (30 # ys)" y "[]"] by simp_all
  then have "prv (bufs s) y = last (30 # ys)" "linked nx (prv (bufs s)) (30 # ys)"
    using append_butlast_last_id [of "30 # ys"] by simp_all
  then show ?case using snoc.IH [of m] snoc.prems m by (simp add: the_buf_def)
qed

lemma lru_scan_next:
  assumes "lru (bufs s) xs"
  shows "scan_next (NBUF + 1) P (b_next (bufs s ! 30)) s = Ok (find (\<lambda>b. P (bufs s ! b)) xs) s"
proof -
  have l: "linked (nxt (bufs s)) (prv (bufs s)) (30 # xs @ [30])" "30 \<notin> set xs" "length xs = 30"
    using assms lru_length [OF assms] by (auto simp: lru_def)
  then have "b_next (bufs s ! 30) = hd (xs @ [30])" "linked (nxt (bufs s)) (prv (bufs s)) (xs @ [30])"
    by (cases xs; simp)+
  with l show ?thesis by (simp only:) (rule scan_next_find; simp)
qed

lemma lru_scan_prev:
  assumes "lru (bufs s) xs"
  shows "scan_prev (NBUF + 1) P (b_prev (bufs s ! 30)) s = Ok (find (\<lambda>b. P (bufs s ! b)) (rev xs)) s"
proof -
  have l: "linked (nxt (bufs s)) (prv (bufs s)) ((30 # xs) @ [30])" "30 \<notin> set xs" "length xs = 30"
    using assms lru_length [OF assms] by (auto simp: lru_def)
  have e: "30 # xs = butlast (30 # xs) @ [last (30 # xs)]" by (simp only: append_butlast_last_id list.distinct not_False_eq_True)
  have "linked (nxt (bufs s)) (prv (bufs s)) (butlast (30 # xs) @ last (30 # xs) # 30 # [])"
    using l(1) e by (metis append.assoc append_Cons append_Nil)
  then have "b_prev (bufs s ! 30) = last (30 # xs)" "linked (nxt (bufs s)) (prv (bufs s)) (30 # xs)"
    unfolding linked_pair using e by simp_all
  with l show ?thesis by (simp only:) (rule scan_prev_find; simp)
qed

section \<open>Contents of the cache\<close>

text \<open>
  \<open>holds s b n\<close>: buffer \<open>b\<close> is for sector \<open>n\<close> of the disk. \<open>blk s n\<close> is the content of the
  sector as the file system sees it: that of a valid buffer, else that on the disk.
\<close>

definition holds :: "'z disks_scheme \<Rightarrow> nat \<Rightarrow> u32 \<Rightarrow> bool" where
  "holds s b n \<longleftrightarrow> b < 30 \<and> b_dev (bufs s ! b) = 1 \<and> b_sector (bufs s ! b) = n"

definition blk :: "'z disks_scheme \<Rightarrow> u32 \<Rightarrow> byte list" where
  "blk s n = (case find (\<lambda>b. holds s b n \<and> b_valid (bufs s ! b)) [0..<30] of
     Some b \<Rightarrow> b_data (bufs s ! b) | None \<Rightarrow> memdisk s ! unat n)"

text \<open>
  The invariant of the cache: the list is intact, no sector is cached twice, a valid buffer that is
  neither busy nor dirty has the data of the disk, busy and dirty buffers are valid.
\<close>

definition bc_ok :: "'z disks_scheme \<Rightarrow> bool" where
  "bc_ok s \<longleftrightarrow> (\<exists>xs. lru (bufs s) xs) \<and>
     (\<forall>a b n. holds s a n \<longrightarrow> holds s b n \<longrightarrow> a = b) \<and>
     (\<forall>b n. holds s b n \<longrightarrow> b_valid (bufs s ! b) \<longrightarrow> unat n < length (memdisk s) \<and>
        (b_busy (bufs s ! b) \<or> b_dirty (bufs s ! b) \<or> b_data (bufs s ! b) = memdisk s ! unat n)) \<and>
     (\<forall>b<30. b_busy (bufs s ! b) \<or> b_dirty (bufs s ! b) \<longrightarrow> b_valid (bufs s ! b) \<and> b_dev (bufs s ! b) = 1)"

lemma bc_okD:
  assumes "bc_ok s"
  shows "holds s a n \<Longrightarrow> holds s b n \<Longrightarrow> a = b"
    and "holds s b n \<Longrightarrow> b_valid (bufs s ! b) \<Longrightarrow> unat n < length (memdisk s)"
    and "holds s b n \<Longrightarrow> b_valid (bufs s ! b) \<Longrightarrow> \<not> b_busy (bufs s ! b) \<Longrightarrow> \<not> b_dirty (bufs s ! b) \<Longrightarrow> b_data (bufs s ! b) = memdisk s ! unat n"
    and "b < 30 \<Longrightarrow> b_busy (bufs s ! b) \<or> b_dirty (bufs s ! b) \<Longrightarrow> b_valid (bufs s ! b)"
    and "b < 30 \<Longrightarrow> b_busy (bufs s ! b) \<or> b_dirty (bufs s ! b) \<Longrightarrow> b_dev (bufs s ! b) = 1"
    and "length (bufs s) = 31"
  using assms by (auto simp: bc_ok_def lru_def)

lemma blk_valid:
  assumes "bc_ok s" and "holds s b n" and "b_valid (bufs s ! b)"
  shows "blk s n = b_data (bufs s ! b)"
proof -
  have "find (\<lambda>b. holds s b n \<and> b_valid (bufs s ! b)) [0..<30] \<noteq> None"
    using assms(2,3) by (auto simp: find_None_iff holds_def)
  then obtain c where c: "find (\<lambda>b. holds s b n \<and> b_valid (bufs s ! b)) [0..<30] = Some c" by blast
  then have "holds s c n" by (auto simp: find_Some_iff)
  with bc_okD(1) [OF assms(1)] assms(2) have "c = b" by blast
  with c show ?thesis by (simp add: blk_def)
qed

lemma blk_disk:
  assumes "\<And>b. holds s b n \<Longrightarrow> \<not> b_valid (bufs s ! b)"
  shows "blk s n = memdisk s ! unat n"
proof -
  have "find (\<lambda>b. holds s b n \<and> b_valid (bufs s ! b)) [0..<30] = None"
    using assms by (auto simp: find_None_iff)
  then show ?thesis by (simp add: blk_def)
qed

lemma find_upt: "b < n \<Longrightarrow> find (\<lambda>c. c = b) [0..<n] = Some b"
  unfolding find_Some_iff by (rule exI [of _ b]) simp

lemma findP: "find P xs = Some x \<Longrightarrow> P x"
  by (auto simp: find_Some_iff)

lemma blk_cong:
  assumes "memdisk t ! unat n = memdisk s ! unat n"
    and "\<And>b. b < 30 \<Longrightarrow> (holds t b n \<and> b_valid (bufs t ! b)) = (holds s b n \<and> b_valid (bufs s ! b))"
    and "\<And>b. holds s b n \<Longrightarrow> b_valid (bufs s ! b) \<Longrightarrow> b_data (bufs t ! b) = b_data (bufs s ! b)"
  shows "blk t n = blk s n"
proof -
  have "find (\<lambda>b. holds t b n \<and> b_valid (bufs t ! b)) [0..<30] = find (\<lambda>b. holds s b n \<and> b_valid (bufs s ! b)) [0..<30]"
    using assms(2) by (intro find_cong) auto
  then show ?thesis using assms(1,3)
    by (cases "find (\<lambda>b. holds s b n \<and> b_valid (bufs s ! b)) [0..<30]") (auto simp: blk_def dest: findP)
qed

text \<open>The state after \<open>bread\<close>: buffer \<open>b\<close> is busy and has the content of the sector.\<close>

definition gotten :: "nat \<Rightarrow> u32 \<Rightarrow> 'z disks_scheme \<Rightarrow> 'z disks_scheme" where
  "gotten b n s = s\<lparr>bufs := (bufs s)[b := (bufs s ! b)\<lparr>b_busy := True, b_valid := True, b_dev := 1, b_sector := n,
     b_data := blk s n\<rparr>]\<rparr>"

lemma lru_find:
  assumes "lru bs xs" and "find P xs = Some b"
  shows "b < 30" and "P b"
  using assms by (auto simp: lru_def find_Some_iff dest: nth_mem)

lemma lru_find_None:
  assumes "lru bs xs" and "find P xs = None" and "b < 30"
  shows "\<not> P b"
  using assms by (auto simp: lru_def find_None_iff)

lemma lru_rev_find:
  assumes "lru bs xs" and "find P (rev xs) = Some b"
  shows "b < 30" and "P b"
proof -
  obtain i where "i < length (rev xs)" "rev xs ! i = b" "P b" using assms(2) by (auto simp: find_Some_iff)
  then have "b \<in> set (rev xs)" by (metis nth_mem)
  with assms(1) show "b < 30" by (auto simp: lru_def)
qed (use assms(2) in \<open>auto simp: find_Some_iff\<close>)

lemma buf_update_same: "bs[b := bs ! b] = bs"
  by simp

lemma bread_Ok:
  assumes ok: "bc_ok s" and n: "unat n < length (memdisk s)" and lk: "LK_bcache \<notin> set (held s)"
    and nb: "\<And>b. holds s b n \<Longrightarrow> \<not> b_busy (bufs s ! b)"
    and free: "(\<exists>b<30. \<not> b_busy (bufs s ! b) \<and> \<not> b_dirty (bufs s ! b)) \<or> (\<exists>b. holds s b n)"
  shows "\<exists>b<30. bread 1 n s = Ok b (gotten b n s) \<and> \<not> b_busy (bufs s ! b) \<and>
     (holds s b n \<or> \<not> b_dirty (bufs s ! b) \<and> (\<forall>c. \<not> holds s c n))"
proof -
  obtain xs where xs: "lru (bufs s) xs" using ok by (auto simp: bc_ok_def)
  have len: "length (bufs s) = 31" using xs by (simp add: lru_def)
  let ?l = "s\<lparr>held := LK_bcache # held s\<rparr>"
  have xl: "lru (bufs ?l) xs" using xs by simp
  note scans = lru_scan_next [OF xl] lru_scan_prev [OF xl]
  show ?thesis
  proof (cases "find (\<lambda>b. b_dev (bufs s ! b) = 1 \<and> b_sector (bufs s ! b) = n) xs")
    case (Some b)
    then have h: "holds s b n" using lru_find [OF xs Some] by (simp add: holds_def)
    then have b: "b < 30" "\<not> b_busy (bufs s ! b)" using nb by (simp_all add: holds_def)
    let ?t = "s\<lparr>bufs := (bufs s)[b := (bufs s ! b)\<lparr>b_busy := True\<rparr>]\<rparr>"
    have g: "bget 1 n s = Ok b ?t"
      using scans(1) [of "\<lambda>bf. b_dev bf = 1 \<and> b_sector bf = n"] Some b lk
      by (simp add: bget_def bget_loop_def acquire_def release_def the_buf_def upd_buf_def)
    have "bread 1 n s = Ok b (gotten b n s)"
    proof (cases "b_valid (bufs s ! b)")
      case True
      then have "gotten b n s = ?t"
        using h b blk_valid [OF ok h] by (cases "bufs s ! b") (simp add: gotten_def holds_def)
      with True g b len show ?thesis by (simp add: bread_def the_buf_def)
    next
      case False
      then have "\<not> b_dirty (bufs s ! b)" using bc_okD(4) [OF ok] b by blast
      moreover have "blk s n = memdisk s ! unat n"
        using False h bc_okD(1) [OF ok] by (intro blk_disk) blast
      ultimately show ?thesis using False g h b len n
        by (cases "bufs s ! b") (simp add: bread_def the_buf_def iderw_def upd_buf_def gotten_def holds_def)
    qed
    with h b show ?thesis by blast
  next
    case None
    then have no: "\<not> holds s c n" for c using lru_find_None [OF xs None] by (auto simp: holds_def)
    have "find (\<lambda>b. \<not> b_busy (bufs s ! b) \<and> \<not> b_dirty (bufs s ! b)) (rev xs) \<noteq> None"
      using free no xs by (auto simp: find_None_iff lru_def)
    then obtain b where f: "find (\<lambda>b. \<not> b_busy (bufs s ! b) \<and> \<not> b_dirty (bufs s ! b)) (rev xs) = Some b" by blast
    note b = lru_rev_find [OF xs f]
    have g: "bget 1 n s = Ok b (s\<lparr>bufs := (bufs s)[b := (bufs s ! b)\<lparr>b_dev := 1, b_sector := n,
        b_busy := True, b_valid := False, b_dirty := False\<rparr>]\<rparr>)"
      using scans(1) [of "\<lambda>bf. b_dev bf = 1 \<and> b_sector bf = n"] None f b len lk
        scans(2) [of "\<lambda>bf. \<not> b_busy bf \<and> \<not> b_dirty bf"]
      by (simp add: bget_def bget_loop_def acquire_def release_def the_buf_def upd_buf_def)
    have "blk s n = memdisk s ! unat n" using no by (intro blk_disk) blast
    then have "bread 1 n s = Ok b (gotten b n s)"
      using g b len n by (cases "bufs s ! b") (simp add: bread_def the_buf_def iderw_def upd_buf_def gotten_def)
    with b no show ?thesis by blast
  qed
qed

text \<open>
  What a client of the cache keeps track of: \<open>pin s b\<close> is the sector of a busy buffer, \<open>dirt s\<close>
  the sectors with a dirty buffer.
\<close>

definition pin :: "'z disks_scheme \<Rightarrow> nat \<Rightarrow> u32 option" where
  "pin s b = (if b < 30 \<and> b_busy (bufs s ! b) then Some (b_sector (bufs s ! b)) else None)"

definition dirt :: "'z disks_scheme \<Rightarrow> u32 set" where
  "dirt s = {n. \<exists>b. holds s b n \<and> b_dirty (bufs s ! b)}"

lemma pin_holds:
  assumes "bc_ok s" and "pin s b = Some n"
  shows "holds s b n" and "b < 30" and "b_busy (bufs s ! b)" and "b_valid (bufs s ! b)"
  using assms bc_okD(4,5) [OF assms(1), of b] by (auto simp: pin_def holds_def split: if_splits)

lemma pin_data: "bc_ok s \<Longrightarrow> pin s b = Some n \<Longrightarrow> b_data (bufs s ! b) = blk s n"
  using pin_holds blk_valid by metis

lemma pin_range: "bc_ok s \<Longrightarrow> pin s b = Some n \<Longrightarrow> unat n < length (memdisk s)"
  using pin_holds bc_okD(2) by metis

lemma pin_inj: "bc_ok s \<Longrightarrow> pin s b = Some n \<Longrightarrow> pin s c = Some n \<Longrightarrow> b = c"
  using pin_holds(1) bc_okD(1) by metis

text \<open>A buffer can be recycled while less than 30 are in use.\<close>

lemma free_exists:
  assumes ok: "bc_ok s" and c: "card (dom (pin s)) + card (dirt s) < 30"
  shows "\<exists>b<30. \<not> b_busy (bufs s ! b) \<and> \<not> b_dirty (bufs s ! b)"
proof (rule ccontr)
  assume "\<not> ?thesis"
  then have all: "b_busy (bufs s ! b) \<or> b_dirty (bufs s ! b)" if "b < 30" for b using that by blast
  let ?D = "{b. b < 30 \<and> b_dirty (bufs s ! b)}"
  have d: "holds s b (b_sector (bufs s ! b))" if "b \<in> ?D" for b
    using that bc_okD(5) [OF ok, of b] by (auto simp: holds_def)
  then have "inj_on (\<lambda>b. b_sector (bufs s ! b)) ?D"
    using bc_okD(1) [OF ok] by (intro inj_onI) metis
  moreover have "(\<lambda>b. b_sector (bufs s ! b)) ` ?D = dirt s"
    using d by (auto simp: dirt_def holds_def image_iff)
  ultimately have "card ?D = card (dirt s)" using card_image by fastforce
  moreover have "{..<30} \<subseteq> dom (pin s) \<union> ?D" using all by (fastforce simp: pin_def)
  moreover have "finite (dom (pin s))" "finite ?D"
    by (auto intro!: finite_subset [of _ "{..<30}"] simp: pin_def split: if_splits)
  ultimately have "card {..<30::nat} \<le> card (dom (pin s) \<union> ?D)" "card ?D = card (dirt s)"
    by (blast intro: card_mono)+
  with c card_Un_le [of "dom (pin s)" ?D] show False by simp
qed

text \<open>
  The pointers of the list do not matter for the contents: two tables that agree on all other
  fields have the same contents.
\<close>

definition same_buf :: "buf \<Rightarrow> buf \<Rightarrow> bool" where
  "same_buf x y \<longleftrightarrow> b_valid x = b_valid y \<and> b_dirty x = b_dirty y \<and> b_dev x = b_dev y \<and>
     b_sector x = b_sector y \<and> b_data x = b_data y"

lemma same_buf_refl [simp]: "same_buf x x"
  by (simp add: same_buf_def)

lemma holds_upd [simp]:
  "length (bufs s) = 31 \<Longrightarrow> b < 30 \<Longrightarrow> holds (s\<lparr>bufs := (bufs s)[b := x]\<rparr>) c n =
     (if c = b then b_dev x = 1 \<and> b_sector x = n else holds s c n)"
  by (auto simp: holds_def)

lemma holds_cong: "bufs t = bufs s \<Longrightarrow> holds t b n = holds s b n"
  by (simp add: holds_def)

lemma blk_upd:
  assumes ok: "bc_ok s" and b: "b < 30" and x: "b_valid x" "b_dev x = 1" "b_sector x = k"
    and old: "holds s b k \<or> \<not> b_busy (bufs s ! b) \<and> \<not> b_dirty (bufs s ! b) \<and> (\<forall>c. \<not> holds s c k)"
  shows "blk (s\<lparr>bufs := (bufs s)[b := x]\<rparr>) = (blk s)(k := b_data x)"
proof
  fix m
  let ?t = "s\<lparr>bufs := (bufs s)[b := x]\<rparr>"
  have len: "length (bufs s) = 31" by (rule bc_okD(6) [OF ok])
  have only: "holds ?t c k \<longleftrightarrow> c = b" for c
    using old x b len bc_okD(1) [OF ok, of c k b] by (auto simp: holds_upd)
  show "blk ?t m = ((blk s)(k := b_data x)) m"
  proof (cases "m = k")
    case True
    have "find (\<lambda>c. holds ?t c k \<and> b_valid (bufs ?t ! c)) [0..<30] = Some b"
    proof -
      have "(\<lambda>c. holds ?t c k \<and> b_valid (bufs ?t ! c)) = (\<lambda>c. c = b)"
        using only x b len by auto
      moreover have "find (\<lambda>c. c = b) [0..<30] = Some b"
        by (rule find_upt [OF b])
      ultimately show ?thesis by simp
    qed
    then show ?thesis using True b len by (simp add: blk_def)
  next
    case False
    show ?thesis
    proof (cases "holds s b m \<and> b_valid (bufs s ! b)")
      case True
      with False old have nb: "\<not> b_busy (bufs s ! b)" "\<not> b_dirty (bufs s ! b)" by (auto simp: holds_def)
      have "blk s m = memdisk s ! unat m"
        using blk_valid [OF ok] bc_okD(3) [OF ok] True nb by metis
      moreover have "blk ?t m = memdisk ?t ! unat m"
        using bc_okD(1) [OF ok] True x False len b by (intro blk_disk) (auto split: if_splits)
      ultimately show ?thesis using False by simp
    next
      case nb: False
      have "blk ?t m = blk s m"
        using nb x False len b by (intro blk_cong) (auto simp: nth_list_update split: if_splits)
      then show ?thesis using False by simp
    qed
  qed
qed

lemma lru_same:
  assumes "lru bs xs" and "length ds = length bs" and "nxt ds = nxt bs" and "prv ds = prv bs"
  shows "lru ds xs"
  using assms by (simp add: lru_def)

lemma upd_links:
  assumes "b_next x = b_next (bs ! b)" and "b_prev x = b_prev (bs ! b)"
  shows "nxt (bs[b := x]) = nxt bs" and "prv (bs[b := x]) = prv bs"
  using assms by (auto simp: nth_update)

text \<open>Replacing one buffer, for a sector it has already or that no buffer has.\<close>

lemma upd_ok:
  assumes ok: "bc_ok s" and b: "b < 30" and x: "b_valid x" "b_dev x = 1" "b_sector x = k"
    and old: "holds s b k \<or> \<not> b_busy (bufs s ! b) \<and> \<not> b_dirty (bufs s ! b) \<and> (\<forall>c. \<not> holds s c k)"
    and ptr: "b_next x = b_next (bufs s ! b)" "b_prev x = b_prev (bufs s ! b)"
    and k: "unat k < length (memdisk s)"
    and d: "b_busy x \<or> b_dirty x \<or> b_data x = memdisk s ! unat k"
  shows "bc_ok (s\<lparr>bufs := (bufs s)[b := x]\<rparr>)"
proof -
  let ?t = "s\<lparr>bufs := (bufs s)[b := x]\<rparr>"
  have len: "length (bufs s) = 31" by (rule bc_okD(6) [OF ok])
  obtain xs where "lru (bufs s) xs" using ok by (auto simp: bc_ok_def)
  then have "lru (bufs ?t) xs" by (rule lru_same) (simp_all add: upd_links [OF ptr])
  moreover have "a = c" if "holds ?t a m" "holds ?t c m" for a c m
    using that old x len b bc_okD(1) [OF ok, of a m c] bc_okD(1) [OF ok, of a k b] bc_okD(1) [OF ok, of c k b]
    by (auto split: if_splits)
  moreover have "unat m < length (memdisk ?t) \<and>
      (b_busy (bufs ?t ! a) \<or> b_dirty (bufs ?t ! a) \<or> b_data (bufs ?t ! a) = memdisk ?t ! unat m)"
    if "holds ?t a m" "b_valid (bufs ?t ! a)" for a m
    using that x len b k d bc_okD(2,3) [OF ok, of a m] by (auto split: if_splits)
  moreover have "b_valid (bufs ?t ! a) \<and> b_dev (bufs ?t ! a) = 1"
    if "a < 30" "b_busy (bufs ?t ! a) \<or> b_dirty (bufs ?t ! a)" for a
    using that x len b bc_okD(4,5) [OF ok, of a] by (auto simp: nth_list_update split: if_splits)
  ultimately show ?thesis unfolding bc_ok_def by blast
qed

lemma upd_pin:
  assumes "bc_ok s" and "b < 30"
  shows "pin (s\<lparr>bufs := (bufs s)[b := x]\<rparr>) = (pin s)(b := if b_busy x then Some (b_sector x) else None)"
  using assms bc_okD(6) [OF assms(1)] by (auto simp: pin_def fun_eq_iff nth_list_update)

lemma upd_dirt:
  assumes ok: "bc_ok s" and b: "b < 30" and x: "b_dev x = 1" "b_sector x = k"
    and old: "holds s b k \<or> \<not> b_busy (bufs s ! b) \<and> \<not> b_dirty (bufs s ! b) \<and> (\<forall>c. \<not> holds s c k)"
  shows "dirt (s\<lparr>bufs := (bufs s)[b := x]\<rparr>) = (if b_dirty x then insert k (dirt s) else dirt s - {k})"
proof -
  let ?t = "s\<lparr>bufs := (bufs s)[b := x]\<rparr>"
  have len: "length (bufs s) = 31" by (rule bc_okD(6) [OF ok])
  have 1: "(\<exists>c. holds ?t c k \<and> b_dirty (bufs ?t ! c)) \<longleftrightarrow> b_dirty x"
    using old x b len bc_okD(1) [OF ok, of _ k b] by (auto simp: nth_list_update split: if_splits)
  have "(holds ?t c m \<and> b_dirty (bufs ?t ! c)) \<longleftrightarrow> (holds s c m \<and> b_dirty (bufs s ! c))" if "m \<noteq> k" for m c
    using old x b len that by (auto simp: nth_list_update holds_def split: if_splits)
  then have 2: "m \<in> dirt ?t \<longleftrightarrow> m \<in> dirt s" if "m \<noteq> k" for m using that by (simp add: dirt_def)
  have 3: "k \<in> dirt ?t \<longleftrightarrow> b_dirty x" using 1 by (simp add: dirt_def)
  show ?thesis using 2 3 by (intro set_eqI) (metis Diff_iff insert_iff empty_iff)
qed

text \<open>The pointer assignments of \<open>brelse\<close> and \<open>binit\<close> on the table.\<close>

definition set_next :: "nat \<Rightarrow> nat \<Rightarrow> buf list \<Rightarrow> buf list" where
  "set_next i v bs = bs[i := (bs ! i)\<lparr>b_next := v\<rparr>]"

definition set_prev :: "nat \<Rightarrow> nat \<Rightarrow> buf list \<Rightarrow> buf list" where
  "set_prev i v bs = bs[i := (bs ! i)\<lparr>b_prev := v\<rparr>]"

lemma set_links [simp]:
  "length (set_next i v bs) = length bs"
  "length (set_prev i v bs) = length bs"
  "i < length bs \<Longrightarrow> b_next (set_next i v bs ! j) = (if j = i then v else b_next (bs ! j))"
  "b_prev (set_next i v bs ! j) = b_prev (bs ! j)"
  "b_next (set_prev i v bs ! j) = b_next (bs ! j)"
  "i < length bs \<Longrightarrow> b_prev (set_prev i v bs ! j) = (if j = i then v else b_prev (bs ! j))"
  by (auto simp: set_next_def set_prev_def nth_update)

lemma set_links_same [simp]:
  "same_buf (set_next i v bs ! j) (bs ! j)" "b_busy (set_next i v bs ! j) = b_busy (bs ! j)"
  "same_buf (set_prev i v bs ! j) (bs ! j)" "b_busy (set_prev i v bs ! j) = b_busy (bs ! j)"
  by (auto simp: set_next_def set_prev_def nth_update same_buf_def)

text \<open>The table after \<open>brelse(b)\<close>: \<open>b\<close> is taken out of the ring and put in behind the head.\<close>

definition relink :: "nat \<Rightarrow> buf list \<Rightarrow> buf list" where
  "relink b bs =
     (let b1 = set_prev (b_next (bs ! b)) (b_prev (bs ! b)) bs;
          b2 = set_next (b_prev (b1 ! b)) (b_next (b1 ! b)) b1;
          b3 = set_prev b 30 (set_next b (b_next (b2 ! 30)) b2);
          b4 = set_next 30 b (set_prev (b_next (b3 ! 30)) b b3)
      in b4)"

lemma relink_length [simp]: "length (relink b bs) = length bs"
  by (simp add: relink_def Let_def)

lemma upd_next: "upd_buf i (\<lambda>x. x\<lparr>b_next := v\<rparr>) s = Ok () (s\<lparr>bufs := set_next i v (bufs s)\<rparr>)"
  by (simp add: upd_buf_def set_next_def)

lemma upd_prev: "upd_buf i (\<lambda>x. x\<lparr>b_prev := v\<rparr>) s = Ok () (s\<lparr>bufs := set_prev i v (bufs s)\<rparr>)"
  by (simp add: upd_buf_def set_prev_def)

lemma upd_busy: "upd_buf i (\<lambda>x. x\<lparr>b_busy := v\<rparr>) s = Ok () (s\<lparr>bufs := (bufs s)[i := (bufs s ! i)\<lparr>b_busy := v\<rparr>]\<rparr>)"
  by (simp add: upd_buf_def)

lemma brelse_eq:
  assumes "b_busy (bufs s ! b)" and "LK_bcache \<notin> set (held s)" and "LK_ptable \<notin> set (held s)"
  shows "\<exists>pt. brelse b s = Ok () (s\<lparr>ptable := pt,
     bufs := (relink b (bufs s))[b := (relink b (bufs s) ! b)\<lparr>b_busy := False\<rparr>]\<rparr>)"
  using assms
  by (intro exI [of _ "map (\<lambda>p. if p_state p = SLEEPING \<and> p_chan p = Some (CH_buf b) then p\<lparr>p_state := RUNNABLE\<rparr> else p) (ptable s)"])
    (simp add: brelse_def the_buf_def upd_next upd_prev upd_busy acquire_def release_def wakeup_Ok relink_def Let_def)

lemma relink_lru:
  assumes "lru bs xs" and "b < 30"
  shows "lru (relink b bs) (b # remove1 b xs)"
proof -
  obtain ys zs where xs: "xs = ys @ b # zs" using assms by (metis lessThan_iff lru_def split_list)
  have d: "distinct (ys @ b # zs)" "set ys \<union> {b} \<union> set zs = {..<30}" "length bs = 31"
    and l: "linked (nxt bs) (prv bs) (30 # (ys @ b # zs) @ [30])"
    using assms xs by (auto simp: lru_def)
  obtain X p where X: "30 # ys = X @ [p]" by (metis list.distinct(1) rev_exhaust)
  obtain n Y where Y: "zs @ [30] = n # Y" by (cases zs) auto
  have 30: "30 \<notin> set ys" "30 \<notin> set zs" "b \<notin> set ys" "b \<notin> set zs" "distinct ys" "distinct zs" "set ys \<inter> set zs = {}" "30 \<noteq> b"
    using d assms(2) by auto
  have l1: "linked (nxt bs) (prv bs) (X @ p # b # n # Y)" using l X Y by (metis append.assoc append_Cons append_Nil)
  then have pb: "nxt bs p = b" "prv bs b = p" "nxt bs b = n"
    unfolding linked_pair by auto
  have XX: "distinct (X @ [p])" "set (X @ [p]) = insert 30 (set ys)" "tl (X @ [p]) = ys"
    unfolding X [symmetric] using 30 by auto
  have YY: "distinct (n # Y)" "set (n # Y) = insert 30 (set zs)" "butlast (n # Y) = zs"
    unfolding Y [symmetric] using 30 by auto
  have p: "p \<in> insert 30 (set ys)" and n: "n \<in> insert 30 (set zs)" using XX(2) YY(2) by auto
  have "linked ((nxt bs)(p := n)) ((prv bs)(n := p)) (X @ [p, n] @ Y)"
  proof (rule linked_unlink)
    show "linked (nxt bs) (prv bs) (X @ [p, b, n] @ Y)" using l1 by simp
    show "p \<notin> set (butlast (n # Y))" unfolding YY(3) using p 30 by auto
    have "b \<notin> set (X @ [p])" unfolding XX(2) using 30 by auto
    then show "distinct (X @ [p, b])" using XX(1) by auto
    show "n \<notin> set (tl (X @ [p]))" unfolding XX(3) using n 30 by auto
  qed (fact YY(1))
  moreover have "X @ [p, n] @ Y = 30 # ys @ zs @ [30]" using X Y by (metis append.assoc append_Cons append_Nil)
  ultimately have l2: "linked ((nxt bs)(p := n)) ((prv bs)(n := p)) (30 # ys @ zs @ [30])" by simp
  obtain f W where W: "ys @ zs @ [30] = f # W" by (cases ys; cases zs) auto
  have WW: "distinct (f # W)" "set (f # W) = insert 30 (set ys \<union> set zs)" "butlast (f # W) = ys @ zs"
    unfolding W [symmetric] using 30 by (auto simp: butlast_append)
  have f: "((nxt bs)(p := n)) 30 = f" "f \<in> insert 30 (set ys \<union> set zs)" using l2 W WW(2) by auto
  have "linked ((nxt bs)(p := n, b := f, 30 := b)) ((prv bs)(n := p, b := 30, f := b)) (30 # b # f # W)"
  proof (rule linked_push)
    show "linked ((nxt bs)(p := n)) ((prv bs)(n := p)) (30 # f # W)" using l2 W by simp
    show "b \<notin> set (30 # f # W)" using WW(2) 30 by auto
    show "30 \<notin> set (butlast (f # W))" unfolding WW(3) using 30 by simp
  qed (fact WW(1))
  moreover have "set ys \<subseteq> {..<30}" "set zs \<subseteq> {..<30}" using d(2) by blast+
  then have lt: "n < 31" "p < 31" "f < 31" "b < 31"
    using p n f(2) assms(2) by fastforce+
  have nb: "n \<noteq> b" "p \<noteq> b" "f \<noteq> b" using p n f(2) 30 by auto
  have "b_next (set_next p n (set_prev n p bs) ! 30) = f" using f(1) lt d(3) by (simp split: if_splits)
  then have "relink b bs = set_next 30 b (set_prev f b (set_prev b 30 (set_next b f (set_next p n (set_prev n p bs)))))"
    using pb lt d(3) 30 nb by (simp add: relink_def Let_def)
  then have "nxt (relink b bs) = (nxt bs)(p := n, b := f, 30 := b)"
    and "prv (relink b bs) = (prv bs)(n := p, b := 30, f := b)"
    using lt d(3) by (auto simp: fun_eq_iff)
  ultimately show ?thesis using 30 d W xs by (auto simp: lru_def remove1_append)
qed

section \<open>The contract of the cache\<close>

text \<open>
  What the log and the file system rely on. \<open>put\<close> is an assignment to the data of a buffer
  they hold, \<open>mark\<close> sets its \<open>B_DIRTY\<close>, \<open>look\<close> reads its data. \<open>frame s t\<close> says that \<open>t\<close> differs
  from \<open>s\<close> only in the cache, the disk and which processes are awake.
\<close>

definition put_data :: "nat \<Rightarrow> byte list \<Rightarrow> ('z, unit) diskf" where
  "put_data b d = upd_buf b (\<lambda>x. x\<lparr>b_data := d\<rparr>)"

definition mark_dirty :: "nat \<Rightarrow> ('z, unit) diskf" where
  "mark_dirty b = upd_buf b (\<lambda>x. x\<lparr>b_dirty := True\<rparr>)"

definition look_data :: "nat \<Rightarrow> ('z, byte list) diskf" where
  "look_data b = gets (\<lambda>s. b_data (bufs s ! b))"

definition cache_rdy :: "'z disks_scheme \<Rightarrow> bool" where
  "cache_rdy s \<longleftrightarrow> bc_ok s \<and> LK_bcache \<notin> set (held s) \<and> LK_ptable \<notin> set (held s)"

definition cache_frame :: "'z disks_scheme \<Rightarrow> 'z disks_scheme \<Rightarrow> bool" where
  "cache_frame s t \<longleftrightarrow> t = s\<lparr>bufs := bufs t, memdisk := memdisk t, wtrace := wtrace t, ptable := ptable t\<rparr>"

locale block_cache =
  fixes rd :: "u32 \<Rightarrow> ('s, nat) kfun" and wr rel mark :: "nat \<Rightarrow> ('s, unit) kfun"
    and put :: "nat \<Rightarrow> byte list \<Rightarrow> ('s, unit) kfun" and look :: "nat \<Rightarrow> ('s, byte list) kfun"
    and rdy :: "'s \<Rightarrow> bool" and content :: "'s \<Rightarrow> u32 \<Rightarrow> byte list" and pins :: "'s \<Rightarrow> nat \<Rightarrow> u32 option"
    and dirties :: "'s \<Rightarrow> u32 set" and disk :: "'s \<Rightarrow> byte list list" and trace :: "'s \<Rightarrow> (nat \<times> byte list) list"
    and frame :: "'s \<Rightarrow> 's \<Rightarrow> bool"
  assumes frame_refl: "frame s s"
    and frame_trans: "frame s t \<Longrightarrow> frame t u \<Longrightarrow> frame s u"
    and rd_law: "rdy s \<Longrightarrow> unat n < length (disk s) \<Longrightarrow> n \<notin> ran (pins s) \<Longrightarrow>
      card (dom (pins s)) + card (dirties s) < 30 \<or> n \<in> dirties s \<Longrightarrow>
      \<exists>b t. rd n s = Ok b t \<and> frame s t \<and> rdy t \<and> pins s b = None \<and> pins t = (pins s)(b \<mapsto> n) \<and>
        content t = content s \<and> dirties t = dirties s \<and> disk t = disk s \<and> trace t = trace s"
    and look_law: "rdy s \<Longrightarrow> pins s b = Some n \<Longrightarrow> look b s = Ok (content s n) s"
    and put_law: "rdy s \<Longrightarrow> pins s b = Some n \<Longrightarrow>
      \<exists>t. put b d s = Ok () t \<and> frame s t \<and> rdy t \<and> pins t = pins s \<and>
        content t = (content s)(n := d) \<and> dirties t = dirties s \<and> disk t = disk s \<and> trace t = trace s"
    and mark_law: "rdy s \<Longrightarrow> pins s b = Some n \<Longrightarrow>
      \<exists>t. mark b s = Ok () t \<and> frame s t \<and> rdy t \<and> pins t = pins s \<and>
        content t = content s \<and> dirties t = insert n (dirties s) \<and> disk t = disk s \<and> trace t = trace s"
    and wr_law: "rdy s \<Longrightarrow> pins s b = Some n \<Longrightarrow>
      \<exists>t. wr b s = Ok () t \<and> frame s t \<and> rdy t \<and> pins t = pins s \<and>
        content t = content s \<and> dirties t = dirties s - {n} \<and>
        disk t = (disk s)[unat n := content s n] \<and> trace t = trace s @ [(unat n, content s n)]"
    and rel_law: "rdy s \<Longrightarrow> pins s b = Some n \<Longrightarrow> n \<in> dirties s \<or> content s n = disk s ! unat n \<Longrightarrow>
      \<exists>t. rel b s = Ok () t \<and> frame s t \<and> rdy t \<and> pins t = (pins s)(b := None) \<and>
        content t = content s \<and> dirties t = dirties s \<and> disk t = disk s \<and> trace t = trace s"
    and range_law: "rdy s \<Longrightarrow> pins s b = Some n \<Longrightarrow> unat n < length (disk s)"
    and clean_law: "rdy s \<Longrightarrow> n \<notin> ran (pins s) \<Longrightarrow> n \<notin> dirties s \<Longrightarrow> content s n = disk s ! unat n"

text \<open>
  Three uses of the cache by its clients, proved from the contract: reading a block, and copying
  one block over another on the disk with the two orders of reading that the log has.
\<close>

context block_cache
begin

definition kept :: "'s \<Rightarrow> 's \<Rightarrow> bool" where
  "kept s t \<longleftrightarrow> frame s t \<and> rdy t \<and> pins t = pins s \<and> content t = content s \<and> dirties t = dirties s \<and>
     disk t = disk s \<and> trace t = trace s"

lemma read_block:
  assumes "rdy s" and "unat n < length (disk s)" and "n \<notin> ran (pins s)" and "card (dom (pins s)) + card (dirties s) < 30 \<or> n \<in> dirties s"
  shows "\<exists>t. bnd (rd n) (\<lambda>b. bnd (look b) (\<lambda>d. thn (rel b) (ret (g d)))) s = Ok (g (content s n)) t \<and> kept s t"
proof -
  obtain b t where t: "rd n s = Ok b t" "frame s t" "rdy t" "pins s b = None" "pins t = (pins s)(b \<mapsto> n)"
    "content t = content s" "dirties t = dirties s" "disk t = disk s" "trace t = trace s"
    using rd_law [OF assms] by blast
  have p: "pins t b = Some n" using t by simp
  have c: "n \<in> dirties t \<or> content t n = disk t ! unat n"
    using clean_law [OF assms(1,3)] t by auto
  obtain u where u: "rel b t = Ok () u" "frame t u" "rdy u" "pins u = (pins t)(b := None)"
    "content u = content t" "dirties u = dirties t" "disk u = disk t" "trace u = trace t"
    using rel_law [OF t(3) p c] by blast
  have "pins u = pins s" using u(4) t(4,5) by (simp add: fun_upd_idem)
  then show ?thesis using t u look_law [OF t(3) p] frame_trans [OF t(2) u(2)]
    by (intro exI [of _ u]) (simp add: kept_def)
qed

text \<open>The state after \<open>c\<close> has been written to the sector \<open>n\<close>, through the cache to the disk.\<close>

definition stored :: "u32 \<Rightarrow> byte list \<Rightarrow> 's \<Rightarrow> 's \<Rightarrow> bool" where
  "stored n c s t \<longleftrightarrow> frame s t \<and> rdy t \<and> pins t = pins s \<and> content t = (content s)(n := c) \<and>
     dirties t = dirties s - {n} \<and> disk t = (disk s)[unat n := c] \<and> trace t = trace s @ [(unat n, c)]"

text \<open>Once source and destination are both held.\<close>

lemma copy_held:
  assumes r: "rdy s" and p: "pins s b = Some m" "pins s a = Some n" and ne: "a \<noteq> b" "m \<noteq> n"
    and c: "m \<in> dirties s \<or> content s m = disk s ! unat m"
  shows "\<exists>t. bnd (look b) (\<lambda>d. thn (put a d) (thn (wr a) (thn (rel b) (rel a)))) s = Ok () t \<and>
    frame s t \<and> rdy t \<and> pins t = (pins s)(b := None, a := None) \<and> content t = (content s)(n := content s m) \<and>
    dirties t = dirties s - {n} \<and> disk t = (disk s)[unat n := content s m] \<and> trace t = trace s @ [(unat n, content s m)]"
proof -
  obtain t where t: "put a (content s m) s = Ok () t" "frame s t" "rdy t" "pins t = pins s"
    "content t = (content s)(n := content s m)" "dirties t = dirties s" "disk t = disk s" "trace t = trace s"
    using put_law [OF r p(2)] by blast
  obtain u where u: "wr a t = Ok () u" "frame t u" "rdy u" "pins u = pins t" "content u = content t"
    "dirties u = dirties t - {n}" "disk u = (disk t)[unat n := content t n]" "trace u = trace t @ [(unat n, content t n)]"
    using wr_law [of t a n] t p by auto
  have "unat m \<noteq> unat n" using ne(2) by (simp add: word_unat_eq_iff)
  then have c1: "m \<in> dirties u \<or> content u m = disk u ! unat m" using c t u ne by auto
  have pb: "pins u b = Some m" using t u p by simp
  obtain v where v: "rel b u = Ok () v" "frame u v" "rdy v" "pins v = (pins u)(b := None)"
    "content v = content u" "dirties v = dirties u" "disk v = disk u" "trace v = trace u"
    using rel_law [OF u(3) pb c1] by blast
  have c2: "n \<in> dirties v \<or> content v n = disk v ! unat n" using t u v range_law [OF r p(2)] by simp
  have pa: "pins v a = Some n" using t u v p ne by simp
  obtain w where w: "rel a v = Ok () w" "frame v w" "rdy w" "pins w = (pins v)(a := None)"
    "content w = content v" "dirties w = dirties v" "disk w = disk v" "trace w = trace v"
    using rel_law [OF v(3) pa c2] by blast
  have "frame s w" using t(2) u(2) v(2) w(2) frame_trans by blast
  then show ?thesis using look_law [OF r p(1)] t u v w by (intro exI [of _ w]) simp
qed

lemma copy_src_first:
  assumes r: "rdy s" and l: "unat n < length (disk s)" "unat m < length (disk s)" and p: "pins s = Map.empty"
    and d: "card (dirties s) < 30" "card (dirties s) < 29 \<or> n \<in> dirties s" and ne: "m \<noteq> n"
  shows "\<exists>t. bnd (rd m) (\<lambda>b. bnd (rd n) (\<lambda>a. bnd (look b) (\<lambda>d. thn (put a d) (thn (wr a) (thn (rel b) (rel a)))))) s = Ok () t \<and>
    stored n (content s m) s t"
proof -
  obtain b t where t: "rd m s = Ok b t" "frame s t" "rdy t" "pins t = (pins s)(b \<mapsto> m)"
    "content t = content s" "dirties t = dirties s" "disk t = disk s" "trace t = trace s"
    using rd_law [OF r l(2)] p d by auto
  obtain a u where u: "rd n t = Ok a u" "frame t u" "rdy u" "pins t a = None" "pins u = (pins t)(a \<mapsto> n)"
    "content u = content t" "dirties u = dirties t" "disk u = disk t" "trace u = trace t"
    using rd_law [OF t(3), of n] t p d l ne by auto
  have "a \<noteq> b" using u(4) t(4) by auto
  moreover have "m \<in> dirties u \<or> content u m = disk u ! unat m" using clean_law [OF r, of m] p t u by auto
  ultimately obtain v where v: "bnd (look b) (\<lambda>d. thn (put a d) (thn (wr a) (thn (rel b) (rel a)))) u = Ok () v"
    "frame u v" "rdy v" "pins v = (pins u)(b := None, a := None)" "content v = (content u)(n := content u m)"
    "dirties v = dirties u - {n}" "disk v = (disk u)[unat n := content u m]" "trace v = trace u @ [(unat n, content u m)]"
    using copy_held [OF u(3), of b m a n] t u p ne by (auto simp: fun_upd_def)
  then show ?thesis using t u p frame_trans [OF frame_trans [OF t(2) u(2)] v(2)]
    by (intro exI [of _ v]) (simp add: stored_def fun_eq_iff)
qed

lemma copy_dst_first:
  assumes r: "rdy s" and l: "unat n < length (disk s)" "unat m < length (disk s)" and p: "pins s = Map.empty"
    and d: "card (dirties s) < 30" "card (dirties s) < 29 \<or> m \<in> dirties s" and ne: "m \<noteq> n"
  shows "\<exists>t. bnd (rd n) (\<lambda>a. bnd (rd m) (\<lambda>b. bnd (look b) (\<lambda>d. thn (put a d) (thn (wr a) (thn (rel b) (rel a)))))) s = Ok () t \<and>
    stored n (content s m) s t"
proof -
  obtain a t where t: "rd n s = Ok a t" "frame s t" "rdy t" "pins t = (pins s)(a \<mapsto> n)"
    "content t = content s" "dirties t = dirties s" "disk t = disk s" "trace t = trace s"
    using rd_law [OF r l(1)] p d by auto
  obtain b u where u: "rd m t = Ok b u" "frame t u" "rdy u" "pins t b = None" "pins u = (pins t)(b \<mapsto> m)"
    "content u = content t" "dirties u = dirties t" "disk u = disk t" "trace u = trace t"
    using rd_law [OF t(3), of m] t p d l ne by auto
  have "a \<noteq> b" using u(4) t(4) by auto
  moreover have "m \<in> dirties u \<or> content u m = disk u ! unat m" using clean_law [OF r, of m] p t u by auto
  ultimately obtain v where v: "bnd (look b) (\<lambda>d. thn (put a d) (thn (wr a) (thn (rel b) (rel a)))) u = Ok () v"
    "frame u v" "rdy v" "pins v = (pins u)(b := None, a := None)" "content v = (content u)(n := content u m)"
    "dirties v = dirties u - {n}" "disk v = (disk u)[unat n := content u m]" "trace v = trace u @ [(unat n, content u m)]"
    using copy_held [OF u(3), of b m a n] t u p ne by (auto simp: fun_upd_def)
  then show ?thesis using t u p frame_trans [OF frame_trans [OF t(2) u(2)] v(2)]
    by (intro exI [of _ v]) (simp add: stored_def fun_eq_iff)
qed

text \<open>A sequence of such writes.\<close>

definition stored_all :: "(u32 \<times> byte list) list \<Rightarrow> 's \<Rightarrow> 's \<Rightarrow> bool" where
  "stored_all ps s t \<longleftrightarrow> frame s t \<and> rdy t \<and> pins t = pins s \<and> content t = fold (\<lambda>(n, d) c. c(n := d)) ps (content s) \<and>
     dirties t = dirties s - fst ` set ps \<and> disk t = fold (\<lambda>(n, d) k. k[unat n := d]) ps (disk s) \<and>
     trace t = trace s @ map (\<lambda>(n, d). (unat n, d)) ps"

lemma stored_all_Nil: "rdy s \<Longrightarrow> stored_all [] s s"
  by (simp add: stored_all_def frame_refl)

lemma stored_all_append:
  assumes "stored_all ps s t" and "stored_all qs t u"
  shows "stored_all (ps @ qs) s u"
  using assms frame_trans [of s t u] by (simp add: stored_all_def image_Un set_eq_iff)

lemma stored_all_one: "stored n d s t \<longleftrightarrow> stored_all [(n, d)] s t"
  by (simp add: stored_all_def stored_def)

lemma stored_all_kept: "kept s t \<longleftrightarrow> stored_all [] s t"
  by (auto simp: stored_all_def kept_def)

text \<open>Writing a block that is computed from what it has.\<close>

lemma write_block:
  assumes r: "rdy s" and l: "unat n < length (disk s)" and p: "pins s = Map.empty" and d: "card (dirties s) < 30"
  shows "\<exists>t. bnd (rd n) (\<lambda>b. bnd (look b) (\<lambda>d. thn (put b (f d)) (thn (wr b) (rel b)))) s = Ok () t \<and>
    stored n (f (content s n)) s t"
proof -
  obtain b t where t: "rd n s = Ok b t" "frame s t" "rdy t" "pins t = (pins s)(b \<mapsto> n)"
    "content t = content s" "dirties t = dirties s" "disk t = disk s" "trace t = trace s"
    using rd_law [OF r l] p d by auto
  have q: "pins t b = Some n" using t by simp
  obtain u where u: "put b (f (content s n)) t = Ok () u" "frame t u" "rdy u" "pins u = pins t"
    "content u = (content t)(n := f (content s n))" "dirties u = dirties t" "disk u = disk t" "trace u = trace t"
    using put_law [OF t(3) q] by blast
  obtain v where v: "wr b u = Ok () v" "frame u v" "rdy v" "pins v = pins u" "content v = content u"
    "dirties v = dirties u - {n}" "disk v = (disk u)[unat n := content u n]" "trace v = trace u @ [(unat n, content u n)]"
    using wr_law [of u b n] u q by auto
  have c: "n \<in> dirties v \<or> content v n = disk v ! unat n" using t u v l by simp
  have pv: "pins v b = Some n" using u v q by simp
  obtain w where w: "rel b v = Ok () w" "frame v w" "rdy w" "pins w = (pins v)(b := None)"
    "content w = content v" "dirties w = dirties v" "disk w = disk v" "trace w = trace v"
    using rel_law [OF v(3) pv c] by blast
  have "frame s w" using t(2) u(2) v(2) w(2) frame_trans by blast
  then show ?thesis using look_law [OF t(3) q] t u v w p by (intro exI [of _ w]) (simp add: stored_def fun_upd_idem)
qed

end

lemma bread_law:
  fixes s :: "'z disks_scheme"
  assumes "cache_rdy s" and "unat n < length (memdisk s)" and "n \<notin> ran (pin s)"
    and "card (dom (pin s)) + card (dirt s) < 30 \<or> n \<in> dirt s"
  shows "\<exists>b t. bread 1 n s = Ok b t \<and> cache_frame s t \<and> cache_rdy t \<and> pin s b = None \<and>
    pin t = (pin s)(b \<mapsto> n) \<and> blk t = blk s \<and> dirt t = dirt s \<and> memdisk t = memdisk s \<and> wtrace t = wtrace s"
proof -
  have ok: "bc_ok s" using assms(1) by (simp add: cache_rdy_def)
  have nb: "\<not> b_busy (bufs s ! b)" if "holds s b n" for b
    using that assms(3) by (auto simp: pin_def holds_def ran_def split: if_splits)
  obtain b where b: "b < 30" "bread 1 n s = Ok b (gotten b n s)" "\<not> b_busy (bufs s ! b)"
    and old: "holds s b n \<or> \<not> b_dirty (bufs s ! b) \<and> (\<forall>c. \<not> holds s c n)"
    using bread_Ok [OF ok assms(2) _ nb] free_exists [OF ok] assms(1,4) by (auto simp: cache_rdy_def dirt_def)
  let ?x = "(bufs s ! b)\<lparr>b_busy := True, b_valid := True, b_dev := 1, b_sector := n, b_data := blk s n\<rparr>"
  have old': "holds s b n \<or> \<not> b_busy (bufs s ! b) \<and> \<not> b_dirty (bufs s ! b) \<and> (\<forall>c. \<not> holds s c n)"
    using old b(3) by blast
  have t: "gotten b n s = s\<lparr>bufs := (bufs s)[b := ?x]\<rparr>" by (simp add: gotten_def)
  have d: "dirt (gotten b n s) = (if b_dirty ?x then insert n (dirt s) else dirt s - {n})"
    unfolding t by (rule upd_dirt [OF ok b(1) _ _ old']) simp_all
  have "n \<in> dirt s \<longleftrightarrow> b_dirty (bufs s ! b)"
    using old bc_okD(1) [OF ok] by (auto simp: dirt_def)
  with d have "dirt (gotten b n s) = dirt s" by auto
  moreover have "bc_ok (gotten b n s)" unfolding t by (rule upd_ok [OF ok b(1) _ _ _ old' _ _ assms(2)]) simp_all
  moreover have "blk (gotten b n s) = blk s" unfolding t by (subst blk_upd [OF ok b(1) _ _ _ old']) simp_all
  moreover have "pin (gotten b n s) = (pin s)(b \<mapsto> n)" unfolding t by (subst upd_pin [OF ok b(1)]) simp
  moreover have "pin s b = None" using b by (simp add: pin_def)
  ultimately show ?thesis using b assms(1)
    by (intro exI [of _ b] exI [of _ "gotten b n s"]) (simp add: cache_frame_def cache_rdy_def gotten_def)
qed

lemma put_data_law:
  assumes "cache_rdy s" and "pin s b = Some n"
  shows "\<exists>t. put_data b d s = Ok () t \<and> cache_frame s t \<and> cache_rdy t \<and> pin t = pin s \<and>
    blk t = (blk s)(n := d) \<and> dirt t = dirt s \<and> memdisk t = memdisk s \<and> wtrace t = wtrace s"
proof -
  have ok: "bc_ok s" using assms(1) by (simp add: cache_rdy_def)
  note h = pin_holds [OF ok assms(2)] pin_range [OF ok assms(2)]
  have x: "b_dev (bufs s ! b) = 1" "b_sector (bufs s ! b) = n" using h(1) by (simp_all add: holds_def)
  let ?x = "(bufs s ! b)\<lparr>b_data := d\<rparr>"
  let ?t = "s\<lparr>bufs := (bufs s)[b := ?x]\<rparr>"
  have "bc_ok ?t" by (rule upd_ok [OF ok h(2) _ _ _ disjI1 [OF h(1)]]) (use h x in simp_all)
  moreover have "blk ?t = (blk s)(n := d)" by (subst blk_upd [OF ok h(2) _ _ _ disjI1 [OF h(1)]]) (use h x in simp_all)
  moreover have "pin ?t = pin s" using assms(2) h x by (subst upd_pin [OF ok h(2)]) (auto simp: fun_eq_iff)
  moreover have "n \<in> dirt s \<longleftrightarrow> b_dirty (bufs s ! b)" using h(1) bc_okD(1) [OF ok] by (auto simp: dirt_def)
  then have "dirt ?t = dirt s" by (subst upd_dirt [OF ok h(2) _ _ disjI1 [OF h(1)]]) (use x in auto)
  ultimately show ?thesis using assms(1)
    by (intro exI [of _ ?t]) (simp add: put_data_def upd_buf_def cache_frame_def cache_rdy_def)
qed

lemma mark_dirty_law:
  assumes "cache_rdy s" and "pin s b = Some n"
  shows "\<exists>t. mark_dirty b s = Ok () t \<and> cache_frame s t \<and> cache_rdy t \<and> pin t = pin s \<and>
    blk t = blk s \<and> dirt t = insert n (dirt s) \<and> memdisk t = memdisk s \<and> wtrace t = wtrace s"
proof -
  have ok: "bc_ok s" using assms(1) by (simp add: cache_rdy_def)
  note h = pin_holds [OF ok assms(2)] pin_range [OF ok assms(2)]
  have x: "b_dev (bufs s ! b) = 1" "b_sector (bufs s ! b) = n" using h(1) by (simp_all add: holds_def)
  let ?x = "(bufs s ! b)\<lparr>b_dirty := True\<rparr>"
  let ?t = "s\<lparr>bufs := (bufs s)[b := ?x]\<rparr>"
  have "bc_ok ?t" by (rule upd_ok [OF ok h(2) _ _ _ disjI1 [OF h(1)]]) (use h x in simp_all)
  moreover have "blk ?t = blk s" using pin_data [OF ok assms(2)]
    by (subst blk_upd [OF ok h(2) _ _ _ disjI1 [OF h(1)]]) (use h x in simp_all)
  moreover have "pin ?t = pin s" using assms(2) h x by (subst upd_pin [OF ok h(2)]) (auto simp: fun_eq_iff)
  moreover have "dirt ?t = insert n (dirt s)" by (subst upd_dirt [OF ok h(2) _ _ disjI1 [OF h(1)]]) (use x in auto)
  ultimately show ?thesis using assms(1)
    by (intro exI [of _ ?t]) (simp add: mark_dirty_def upd_buf_def cache_frame_def cache_rdy_def)
qed

lemma disk_write_ok:
  assumes ok: "bc_ok s" and p: "pin s b = Some n"
  shows "bc_ok (s\<lparr>memdisk := (memdisk s)[unat n := d], wtrace := w\<rparr>)" (is "bc_ok ?t")
    and "blk (s\<lparr>memdisk := (memdisk s)[unat n := d], wtrace := w\<rparr>) = blk s"
proof -
  note h = pin_holds [OF ok p]
  have m: "memdisk ?t ! unat m = memdisk s ! unat m" if "m \<noteq> n" for m
    using that by (simp add: nth_update word_unat_eq_iff)
  have hc: "holds ?t c m = holds s c m" for c m by (simp add: holds_def)
  have "unat m < length (memdisk ?t) \<and>
      (b_busy (bufs ?t ! a) \<or> b_dirty (bufs ?t ! a) \<or> b_data (bufs ?t ! a) = memdisk ?t ! unat m)"
    if "holds ?t a m" "b_valid (bufs ?t ! a)" for a m
  proof (cases "m = n")
    case True
    then have "a = b" using that(1) h(1) bc_okD(1) [OF ok] by (simp add: hc)
    then show ?thesis using h True pin_range [OF ok p] by simp
  next
    case False
    then show ?thesis using that bc_okD(2,3) [OF ok, of a m] m [OF False] by (auto simp: hc)
  qed
  then show "bc_ok ?t" using ok unfolding bc_ok_def hc by simp
  show "blk ?t = blk s"
  proof
    fix k
    show "blk ?t k = blk s k"
    proof (cases "k = n")
      case True
      then show ?thesis using blk_valid [OF \<open>bc_ok ?t\<close>, of b n] blk_valid [OF ok, of b n] h by (simp add: hc)
    next
      case False
      then show ?thesis using m by (intro blk_cong) (auto simp: hc)
    qed
  qed
qed

lemma bwrite_law:
  assumes "cache_rdy s" and "pin s b = Some n"
  shows "\<exists>t. bwrite b s = Ok () t \<and> cache_frame s t \<and> cache_rdy t \<and> pin t = pin s \<and>
    blk t = blk s \<and> dirt t = dirt s - {n} \<and> memdisk t = (memdisk s)[unat n := blk s n] \<and>
    wtrace t = wtrace s @ [(unat n, blk s n)]"
proof -
  have ok: "bc_ok s" using assms(1) by (simp add: cache_rdy_def)
  note h = pin_holds [OF ok assms(2)] pin_range [OF ok assms(2)] bc_okD(6) [OF ok] pin_data [OF ok assms(2)]
  have x: "b_dev (bufs s ! b) = 1" "b_sector (bufs s ! b) = n" using h(1) by (simp_all add: holds_def)
  let ?s = "s\<lparr>memdisk := (memdisk s)[unat n := blk s n], wtrace := wtrace s @ [(unat n, blk s n)]\<rparr>"
  note ok1 = disk_write_ok [OF ok assms(2)]
  have h1: "holds ?s b n" using h(1) by (simp add: holds_def)
  let ?x = "(bufs s ! b)\<lparr>b_dirty := False, b_valid := True\<rparr>"
  let ?t = "?s\<lparr>bufs := (bufs ?s)[b := ?x]\<rparr>"
  have "bc_ok ?t" by (rule upd_ok [OF ok1(1) h(2) _ _ _ disjI1 [OF h1(1)]]) (use h x in simp_all)
  moreover have "blk ?t = blk s" using h
    by (subst blk_upd [OF ok1(1) h(2) _ _ _ disjI1 [OF h1(1)]]) (use h x ok1(2) in simp_all)
  moreover have "pin ?s = pin s" by (simp add: pin_def fun_eq_iff)
  then have "pin ?t = pin s" using assms(2) h x by (subst upd_pin [OF ok1(1) h(2)]) (auto simp: fun_eq_iff)
  moreover have "dirt ?s = dirt s" by (simp add: dirt_def holds_def)
  then have "dirt ?t = dirt s - {n}" by (subst upd_dirt [OF ok1(1) h(2) _ _ disjI1 [OF h1(1)]]) (use x in auto)
  moreover have "bwrite b s = Ok () ?t"
    using h x by (simp add: bwrite_def iderw_def the_buf_def upd_buf_def)
  ultimately show ?thesis using assms(1)
    by (intro exI [of _ ?t]) (simp add: cache_frame_def cache_rdy_def)
qed

lemma relink_same [simp]: "same_buf (relink b bs ! j) (bs ! j)" "b_busy (relink b bs ! j) = b_busy (bs ! j)"
  using set_links_same by (simp_all add: relink_def Let_def same_buf_def)

text \<open>Tables that differ in pointers only.\<close>

lemma same_table:
  assumes ok: "bc_ok s" and same: "\<And>j. same_buf (bs ! j) (bufs s ! j)" "\<And>j. b_busy (bs ! j) = b_busy (bufs s ! j)"
    and l: "lru bs xs"
  shows "bc_ok (s\<lparr>ptable := pt, bufs := bs\<rparr>)" and "blk (s\<lparr>ptable := pt, bufs := bs\<rparr>) = blk s"
    and "pin (s\<lparr>ptable := pt, bufs := bs\<rparr>) = pin s" and "dirt (s\<lparr>ptable := pt, bufs := bs\<rparr>) = dirt s"
proof -
  let ?t = "s\<lparr>ptable := pt, bufs := bs\<rparr>"
  have f: "b_valid (bs ! j) = b_valid (bufs s ! j)" "b_dirty (bs ! j) = b_dirty (bufs s ! j)"
    "b_dev (bs ! j) = b_dev (bufs s ! j)" "b_sector (bs ! j) = b_sector (bufs s ! j)"
    "b_data (bs ! j) = b_data (bufs s ! j)" for j
    using same(1) [of j] by (simp_all add: same_buf_def)
  have h: "holds ?t a m = holds s a m" for a m by (simp add: holds_def f)
  show "blk ?t = blk s" by (intro ext blk_cong) (auto simp: h f)
  show "pin ?t = pin s" by (simp add: pin_def f same(2) fun_eq_iff)
  show "dirt ?t = dirt s" by (simp add: dirt_def h f)
  show "bc_ok ?t" using ok l unfolding bc_ok_def h by (auto simp: f same(2))
qed

lemma brelse_law:
  assumes "cache_rdy s" and "pin s b = Some n" and clean: "n \<in> dirt s \<or> blk s n = memdisk s ! unat n"
  shows "\<exists>t. brelse b s = Ok () t \<and> cache_frame s t \<and> cache_rdy t \<and> pin t = (pin s)(b := None) \<and>
    blk t = blk s \<and> dirt t = dirt s \<and> memdisk t = memdisk s \<and> wtrace t = wtrace s"
proof -
  have ok: "bc_ok s" and lk: "LK_bcache \<notin> set (held s)" "LK_ptable \<notin> set (held s)"
    using assms(1) by (simp_all add: cache_rdy_def)
  note h = pin_holds [OF ok assms(2)] pin_range [OF ok assms(2)] pin_data [OF ok assms(2)]
  have x: "b_dev (bufs s ! b) = 1" "b_sector (bufs s ! b) = n" using h(1) by (simp_all add: holds_def)
  obtain xs where xs: "lru (bufs s) xs" using ok by (auto simp: bc_ok_def)
  obtain pt where r: "brelse b s = Ok () (s\<lparr>ptable := pt,
      bufs := (relink b (bufs s))[b := (relink b (bufs s) ! b)\<lparr>b_busy := False\<rparr>]\<rparr>)"
    using brelse_eq [OF h(3) lk] by blast
  let ?s = "s\<lparr>ptable := pt, bufs := relink b (bufs s)\<rparr>"
  note st = same_table [OF ok relink_same relink_lru [OF xs h(2)], of pt]
  let ?x = "(bufs ?s ! b)\<lparr>b_busy := False\<rparr>"
  let ?t = "?s\<lparr>bufs := (bufs ?s)[b := ?x]\<rparr>"
  note f = relink_same(1) [of b "bufs s" b, unfolded same_buf_def]
  have h1: "holds ?s b n" using f x h(2) by (simp add: holds_def)
  have n: "n \<in> dirt s \<longleftrightarrow> b_dirty (bufs s ! b)" using h(1) bc_okD(1) [OF ok] by (auto simp: dirt_def)
  have "bc_ok ?t" by (rule upd_ok [OF st(1) h(2) _ _ _ disjI1 [OF h1]]) (use h x f n clean in simp_all)
  moreover have "blk ?t = blk s" by (subst blk_upd [OF st(1) h(2) _ _ _ disjI1 [OF h1]]) (use h x f st(2) in simp_all)
  moreover have "pin ?t = (pin s)(b := None)" by (subst upd_pin [OF st(1) h(2)]) (simp add: st(3))
  moreover have "dirt ?t = dirt s"
    by (subst upd_dirt [OF st(1) h(2) _ _ disjI1 [OF h1]]) (use x f n st(4) in auto)
  moreover have "brelse b s = Ok () ?t" using r by simp
  ultimately show ?thesis using lk
    by (intro exI [of _ ?t]) (simp add: cache_frame_def cache_rdy_def)
qed

lemma cache_frame_iff:
  "cache_frame s t \<longleftrightarrow> (\<exists>B M W P. t = s\<lparr>bufs := B, memdisk := M, wtrace := W, ptable := P\<rparr>)"
  by (auto simp: cache_frame_def)

lemma cache_frame_trans: "cache_frame s t \<Longrightarrow> cache_frame t u \<Longrightarrow> cache_frame s u"
  unfolding cache_frame_iff by (elim exE) (simp, blast)

lemma look_data_law: "cache_rdy s \<Longrightarrow> pin s b = Some n \<Longrightarrow> look_data b s = Ok (blk s n) s"
  by (simp add: look_data_def cache_rdy_def pin_data)

lemma blk_clean:
  assumes "cache_rdy s" and "n \<notin> ran (pin s)" and "n \<notin> dirt s"
  shows "blk s n = memdisk s ! unat n"
proof (cases "\<exists>b. holds s b n \<and> b_valid (bufs s ! b)")
  case True
  then obtain b where b: "holds s b n" "b_valid (bufs s ! b)" by blast
  have "\<not> b_busy (bufs s ! b)" "\<not> b_dirty (bufs s ! b)"
    using b assms(2,3) by (auto simp: holds_def pin_def ran_def dirt_def split: if_splits)
  with b assms(1) show ?thesis using blk_valid bc_okD(3) by (metis cache_rdy_def)
qed (use blk_disk in blast)

interpretation bc: block_cache "bread 1" bwrite brelse mark_dirty put_data look_data cache_rdy blk pin dirt memdisk wtrace cache_frame
proof (unfold_locales, goal_cases)
  case 1 then show ?case by (simp add: cache_frame_def)
next
  case 2 then show ?case by (rule cache_frame_trans)
next
  case 3 then show ?case by (rule bread_law)
next
  case 4 then show ?case by (rule look_data_law)
next
  case 5 then show ?case by (rule put_data_law)
next
  case 6 then show ?case by (rule mark_dirty_law)
next
  case 7 then show ?case by (rule bwrite_law)
next
  case 8 then show ?case by (rule brelse_law)
next
  case 9 then show ?case by (simp add: cache_rdy_def pin_range)
next
  case 10 then show ?case by (rule blk_clean)
qed

section \<open>Initialisation\<close>

lemma upd_dev: "upd_buf i (\<lambda>x. x\<lparr>b_dev := v\<rparr>) s = Ok () (s\<lparr>bufs := (bufs s)[i := (bufs s ! i)\<lparr>b_dev := v\<rparr>]\<rparr>)"
  by (simp add: upd_buf_def)

text \<open>
  \<open>binit\<close> builds the ring. \<open>ring bs xs\<close>: the ring has the buffers \<open>xs\<close>, which are free and belong
  to no device.
\<close>

definition ring :: "buf list \<Rightarrow> nat list \<Rightarrow> bool" where
  "ring bs xs \<longleftrightarrow> length bs = 31 \<and> distinct xs \<and> set xs \<subseteq> {..<30} \<and> linked (nxt bs) (prv bs) (30 # xs @ [30]) \<and>
     (\<forall>b\<in>set xs. b_dev (bs ! b) = -1) \<and> (\<forall>b<30. \<not> b_busy (bs ! b) \<and> \<not> b_dirty (bs ! b))"

lemma binit_one_ring:
  assumes r: "ring (bufs s) xs" and b: "b < 30" "b \<notin> set xs"
  shows "\<exists>t. binit_one b s = Ok () t \<and> t = s\<lparr>bufs := bufs t\<rparr> \<and> ring (bufs t) (b # xs)"
proof -
  let ?bs = "bufs s"
  obtain f W where W: "xs @ [30] = f # W" by (cases xs) auto
  have len: "length ?bs = 31" and d: "distinct xs" "set xs \<subseteq> {..<30}" "30 \<notin> set xs"
    and l: "linked (nxt ?bs) (prv ?bs) (30 # f # W)"
    using r W by (auto simp: ring_def)
  have WW: "distinct (f # W)" "set (f # W) = insert 30 (set xs)" "butlast (f # W) = xs"
    unfolding W [symmetric] using d by auto
  have "f \<in> insert 30 (set xs)" using WW(2) by auto
  then have f: "b_next (?bs ! 30) = f" "f < 31" "f \<noteq> b"
    using l d b by fastforce+
  let ?c = "set_prev b 30 (set_next b f ?bs)"
  let ?e = "?c[b := (?c ! b)\<lparr>b_dev := -1\<rparr>]"
  let ?t = "set_next 30 b (set_prev f b ?e)"
  have lp: "b_next (?e ! j) = b_next (?c ! j)" "b_prev (?e ! j) = b_prev (?c ! j)" for j by (simp_all add: nth_update)
  have run: "binit_one b s = Ok () (s\<lparr>bufs := ?t\<rparr>)"
    using f b len by (simp add: binit_one_def upd_next upd_prev upd_dev lp)
  have "linked ((nxt ?bs)(b := f, 30 := b)) ((prv ?bs)(b := 30, f := b)) (30 # b # f # W)"
    by (rule linked_push [OF l]) (use WW b d in auto)
  moreover have "nxt ?t = (nxt ?bs)(b := f, 30 := b)" "prv ?t = (prv ?bs)(b := 30, f := b)"
    using f len b by (auto simp: fun_eq_iff lp)
  ultimately have "linked (nxt ?t) (prv ?t) (30 # (b # xs) @ [30])" using W by simp
  moreover have other: "b_dev (?t ! j) = (if j = b then -1 else b_dev (?bs ! j))" "b_busy (?t ! j) = b_busy (?bs ! j)"
    "b_dirty (?t ! j) = b_dirty (?bs ! j)" for j
    using len b set_links_same [unfolded same_buf_def] by (auto simp: nth_update)
  ultimately show ?thesis using run r b len by (intro exI [of _ "s\<lparr>bufs := ?t\<rparr>"]) (auto simp: ring_def other)
qed

lemma binit_ring:
  assumes "length (bufs s) = 31" and "\<forall>b<30. \<not> b_busy (bufs s ! b) \<and> \<not> b_dirty (bufs s ! b)"
  shows "\<exists>t. binit s = Ok () t \<and> t = s\<lparr>bufs := bufs t\<rparr> \<and> ring (bufs t) (rev [0..<30])"
proof -
  let ?s = "s\<lparr>bufs := set_next 30 30 (set_prev 30 30 (bufs s))\<rparr>"
  have "ring (bufs ?s) []" using assms set_links_same [unfolded same_buf_def] by (simp add: ring_def)
  then have "\<exists>t. for_each [0..<k] binit_one ?s = Ok () t \<and> t = ?s\<lparr>bufs := bufs t\<rparr> \<and> ring (bufs t) (rev [0..<k])"
    if "k \<le> 30" for k using that
  proof (induction k)
    case (Suc k)
    then obtain t where t: "for_each [0..<k] binit_one ?s = Ok () t" "t = ?s\<lparr>bufs := bufs t\<rparr>" "ring (bufs t) (rev [0..<k])"
      by auto
    obtain u where u: "binit_one k t = Ok () u" "u = t\<lparr>bufs := bufs u\<rparr>" "ring (bufs u) (k # rev [0..<k])"
      using binit_one_ring [OF t(3), of k] Suc.prems by auto
    have "u = ?s\<lparr>bufs := bufs u\<rparr>" using t(2) u(2) by (metis (no_types, lifting) disks.surjective disks.update_convs(1))
    then show ?case using t u by (auto simp: for_each_append)
  qed simp
  from this [of 30] obtain t where t: "for_each [0..<30] binit_one ?s = Ok () t" "t = ?s\<lparr>bufs := bufs t\<rparr>"
    "ring (bufs t) (rev [0..<30])" by auto
  have "binit s = for_each [0..<30] binit_one ?s" by (simp add: binit_def upd_next upd_prev del: for_each.simps upt_rec_numeral)
  moreover have "t = s\<lparr>bufs := bufs t\<rparr>" using t(2) by (metis (no_types, lifting) disks.surjective disks.update_convs(1))
  ultimately show ?thesis using t by auto
qed

lemma ring_ok:
  assumes "ring (bufs s) (rev [0..<30])"
  shows "bc_ok s" and "lru (bufs s) (rev [0..<30])" and "pin s = Map.empty" and "dirt s = {}"
    and "blk s n = memdisk s ! unat n"
proof -
  have d: "b_dev (bufs s ! b) = -1" "\<not> b_busy (bufs s ! b)" "\<not> b_dirty (bufs s ! b)" if "b < 30" for b
    using assms that by (auto simp: ring_def)
  have h: "\<not> holds s b k" for b k using d [of b] by (auto simp: holds_def)
  show l: "lru (bufs s) (rev [0..<30])" using assms by (auto simp: ring_def lru_def)
  show "pin s = Map.empty" "dirt s = {}" using d h by (auto simp: pin_def dirt_def)
  show "blk s n = memdisk s ! unat n" using h by (intro blk_disk) simp
  show "bc_ok s" unfolding bc_ok_def using l h d by blast
qed

section \<open>Properties\<close>

text \<open>A machine after \<open>binit\<close>: the buffers are zeroed storage, the disk has two sectors.\<close>

definition cold :: disks where
  "cold = disks0\<lparr>bufs := replicate 31 (buf0\<lparr>b_busy := False, b_dev := 0, b_sector := 0\<rparr>)\<rparr>"

lemma cold_boot: "\<exists>t. binit cold = Ok () t \<and> cache_rdy t \<and> ring (bufs t) (rev [0..<30]) \<and> pin t = Map.empty \<and> dirt t = {} \<and>
    memdisk t = [replicate 512 1, replicate 512 2] \<and> blk t = (\<lambda>n. memdisk t ! unat n) \<and> held t = []"
proof -
  have "length (bufs cold) = 31" "\<forall>b<30. \<not> b_busy (bufs cold ! b) \<and> \<not> b_dirty (bufs cold ! b)"
    by (simp_all add: cold_def buf0_def)
  then obtain t where t: "binit cold = Ok () t" "t = cold\<lparr>bufs := bufs t\<rparr>" "ring (bufs t) (rev [0..<30])"
    using binit_ring [of cold] by blast
  have "held t = []" "memdisk t = [replicate 512 1, replicate 512 2]"
    using arg_cong [OF t(2), of held] arg_cong [OF t(2), of memdisk] by (simp_all add: cold_def disks0_def)
  then show ?thesis using t(1,3) ring_ok [OF t(3)] by (auto simp: cache_rdy_def fun_eq_iff)
qed

text \<open>
  C15. \<^bold>\<open>Coherence of the buffer cache\<close>. \<open>bread\<close> of a sector of the disk that nobody holds, while
  less than 30 buffers are held or dirty or one is dirty for it, returns a busy buffer with the content of that sector
  (what was last put in a valid buffer for it, else what the disk has); the content of no sector
  changes, and the invariant of the cache holds again.
\<close>

theorem cache_coherent:
  fixes s :: "'z disks_scheme"
  assumes "cache_rdy s" and "unat n < length (memdisk s)" and "n \<notin> ran (pin s)"
    and "card (dom (pin s)) + card (dirt s) < 30 \<or> n \<in> dirt s"
  shows "\<exists>b t. bread 1 n s = Ok b t \<and> b_busy (bufs t ! b) \<and> b_data (bufs t ! b) = blk s n \<and>
    blk t = blk s \<and> memdisk t = memdisk s \<and> cache_rdy t"
proof -
  obtain b t where t: "bread 1 n s = Ok b t" "cache_rdy t" "pin t = (pin s)(b \<mapsto> n)" "blk t = blk s" "memdisk t = memdisk s"
    using bc.rd_law [OF assms] by blast
  then have "bc_ok t" "pin t b = Some n" by (simp_all add: cache_rdy_def)
  then have "b_busy (bufs t ! b)" "b_data (bufs t ! b) = blk t n" by (rule pin_holds, rule pin_data)
  then show ?thesis using t by auto
qed

theorem cache_coherent_witness:
  "\<exists>t b u. binit cold = Ok () t \<and> bread 1 1 t = Ok b u \<and> b_data (bufs u ! b) = replicate 512 2"
proof -
  obtain t where t: "binit cold = Ok () t" "cache_rdy t" "pin t = Map.empty" "dirt t = {}"
    "memdisk t = [replicate 512 1, replicate 512 2]" "blk t = (\<lambda>n. memdisk t ! unat n)"
    using cold_boot by blast
  have "unat (1::u32) < length (memdisk t)" using t(5) by simp
  then obtain b u where "bread 1 1 t = Ok b u" "b_data (bufs u ! b) = blk t 1"
    using cache_coherent [OF t(2), of 1] t(3,4) by auto
  then show ?thesis using t(1,5,6) by (intro exI [of _ t] exI [of _ b] exI [of _ u]) simp
qed

text \<open>
  C16. \<^bold>\<open>Order of use\<close>. Let the ring list the buffers in the order \<open>xs\<close>. \<open>brelse(b)\<close> leaves a ring
  that lists \<open>b\<close> first and the others in their order; so \<open>xs\<close> is always the order of last release,
  and the backward scan of \<open>bget\<close> takes for a sector that is not cached the buffer that was
  released longest ago among those it may take.
\<close>

theorem brelse_most_recent:
  fixes s :: "'z disks_scheme"
  assumes "lru (bufs s) xs" and "b < 30" and "b_busy (bufs s ! b)" and "LK_bcache \<notin> set (held s)"
    and "LK_ptable \<notin> set (held s)" and "i < length xs" and "\<forall>c<30. \<not> holds s c n"
    and "\<not> b_busy (bufs s ! (xs ! i))" and "\<not> b_dirty (bufs s ! (xs ! i))"
    and "\<forall>j. i < j \<longrightarrow> j < length xs \<longrightarrow> b_busy (bufs s ! (xs ! j)) \<or> b_dirty (bufs s ! (xs ! j))"
  shows "(\<exists>t. brelse b s = Ok () t \<and> lru (bufs t) (b # remove1 b xs)) \<and> (\<exists>t. bget 1 n s = Ok (xs ! i) t)"
proof
  let ?r = "relink b (bufs s)"
  let ?t = "?r[b := (?r ! b)\<lparr>b_busy := False\<rparr>]"
  obtain pt where "brelse b s = Ok () (s\<lparr>ptable := pt, bufs := ?t\<rparr>)" using brelse_eq [OF assms(3-5)] by blast
  moreover have "lru ?t (b # remove1 b xs)"
    by (rule lru_same [OF relink_lru [OF assms(1,2)]]) (simp_all add: upd_links)
  ultimately show "\<exists>t. brelse b s = Ok () t \<and> lru (bufs t) (b # remove1 b xs)" by auto
next
  let ?l = "s\<lparr>held := LK_bcache # held s\<rparr>"
  have xl: "lru (bufs ?l) xs" using assms(1) by simp
  have len: "length (bufs s) = 31" "length xs = 30" using assms(1) lru_length by (auto simp: lru_def)
  have n: "find (\<lambda>b. b_dev (bufs s ! b) = 1 \<and> b_sector (bufs s ! b) = n) xs = None"
    using assms(1,7) by (auto simp: find_None_iff holds_def lru_def)
  have "find (\<lambda>b. \<not> b_busy (bufs s ! b) \<and> \<not> b_dirty (bufs s ! b)) (rev xs) = Some (xs ! i)"
    unfolding find_Some_iff using assms(6,8-10)
    by (intro exI [of _ "length xs - Suc i"]) (auto simp: rev_nth)
  moreover have "xs ! i < 30" using assms(1,6) by (metis lessThan_iff lru_def nth_mem)
  ultimately show "\<exists>t. bget 1 n s = Ok (xs ! i) t"
    using n lru_scan_next [OF xl, of "\<lambda>bf. b_dev bf = 1 \<and> b_sector bf = n"] len assms(4)
      lru_scan_prev [OF xl, of "\<lambda>bf. \<not> b_busy bf \<and> \<not> b_dirty bf"]
    by (simp add: bget_def bget_loop_def acquire_def release_def the_buf_def upd_buf_def)
qed

theorem brelse_most_recent_witness:
  "\<exists>s u v. binit cold = Ok () s \<and>
    brelse 0 (s\<lparr>bufs := (bufs s)[0 := (bufs s ! 0)\<lparr>b_busy := True\<rparr>]\<rparr>) = Ok () u \<and> lru (bufs u) (0 # rev [1..<30]) \<and>
    bget 1 1 (s\<lparr>bufs := (bufs s)[0 := (bufs s ! 0)\<lparr>b_busy := True\<rparr>]\<rparr>) = Ok 1 v"
proof -
  obtain s where s: "binit cold = Ok () s" "ring (bufs s) (rev [0..<30])" "held s = []"
    using cold_boot by blast
  let ?s = "s\<lparr>bufs := (bufs s)[0 := (bufs s ! 0)\<lparr>b_busy := True\<rparr>]\<rparr>"
  have d: "b_dev (bufs s ! b) = -1" "\<not> b_busy (bufs s ! b)" "\<not> b_dirty (bufs s ! b)" if "b < 30" for b
    using s(2) that by (auto simp: ring_def)
  have l: "lru (bufs ?s) (rev [0..<30])" by (rule lru_same [OF ring_ok(2) [OF s(2)]]) (simp_all add: upd_links)
  have len: "length (bufs s) = 31" using s(2) by (simp add: ring_def)
  have h: "\<forall>c<30. \<not> holds ?s c 1" using d len by (auto simp: holds_def nth_list_update)
  have r: "rev [0..<30] ! 28 = (1::nat)" "remove1 0 (rev [0..<30]) = rev [1..<30::nat]"
    by (simp add: rev_nth, simp add: upt_conv_Cons remove1_append)
  have "(\<exists>u. brelse 0 ?s = Ok () u \<and> lru (bufs u) (0 # remove1 0 (rev [0..<30]))) \<and> (\<exists>v. bget 1 1 ?s = Ok (rev [0..<30] ! 28) v)"
    by (rule brelse_most_recent [OF l]) (use d len h s(3) in \<open>auto simp: nth_list_update rev_nth less_Suc_eq\<close>)
  then show ?thesis using s(1) unfolding r by blast
qed

end
