(* ===== verification/Log.thy ===== *)
theory Log
  imports Bio
begin

text \<open>
  The write-ahead log \<^verbatim>\<open>log.c\<close>: system calls are grouped into transactions, \<open>log_write\<close> records
  which blocks a transaction has changed, and \<open>commit\<close> writes them to the log, then the header
  block (the point of commit), then to their home locations. \<open>recover_from_log\<close> runs at boot.
\<close>

section \<open>State and operations\<close>

text \<open>\<^verbatim>\<open>struct superblock\<close> of \<^verbatim>\<open>fs.h\<close> and \<open>readsb\<close> of \<^verbatim>\<open>fs.c\<close>.\<close>

record superblock =
  sb_size :: u32
  sb_nblocks :: u32
  sb_ninodes :: u32
  sb_nlog :: u32

definition readsb :: "u32 \<Rightarrow> ('z, superblock) diskf" where
  "readsb dev =
     bnd (bread dev 1) (\<lambda>bp.
     bnd (look_data bp) (\<lambda>d.
     thn (brelse bp)
     (ret \<lparr>sb_size = rd32 d 0, sb_nblocks = rd32 d 1, sb_ninodes = rd32 d 2, sb_nlog = rd32 d 3\<rparr>)))"

text \<open>\<^verbatim>\<open>struct log\<close> with its \<^verbatim>\<open>struct logheader\<close>: \<open>lh_sector\<close> has \<open>LOGSIZE\<close> entries.\<close>

record logs = disks +
  l_start :: u32
  l_size :: int
  l_outstanding :: int
  l_committing :: bool
  l_dev :: u32
  lh_n :: int
  lh_sector :: "u32 list"

type_synonym ('z, 'a) logf = "('z logs_scheme, 'a) kfun"

definition get_sector :: "nat \<Rightarrow> ('z, u32) logf" where
  "get_sector i = (if i < LOGSIZE then gets (\<lambda>s. lh_sector s ! i) else fault ''log.lh.sector'')"

definition set_sector :: "nat \<Rightarrow> u32 \<Rightarrow> ('z, unit) logf" where
  "set_sector i w = (if i < LOGSIZE then modify (\<lambda>s. s\<lparr>lh_sector := (lh_sector s)[i := w]\<rparr>) else fault ''log.lh.sector'')"

text \<open>One round of the loop of \<open>install_trans\<close>: a block of the log goes to its home location.\<close>

definition install_one :: "nat \<Rightarrow> ('z, unit) logf" where
  "install_one tail =
     bnd (gets l_dev) (\<lambda>dev. bnd (gets l_start) (\<lambda>st.
     bnd (bread dev (st + of_nat tail + 1)) (\<lambda>lbuf.
     bnd (get_sector tail) (\<lambda>sec.
     bnd (bread dev sec) (\<lambda>dbuf.
     bnd (look_data lbuf) (\<lambda>d.
     thn (put_data dbuf d)
     (thn (bwrite dbuf)
     (thn (brelse lbuf)
     (brelse dbuf)))))))))"

definition install_trans :: "('z, unit) logf" where
  "install_trans = bnd (gets lh_n) (\<lambda>n. for_each [0..<nat n] install_one)"

definition read_head :: "('z, unit) logf" where
  "read_head =
     bnd (gets l_dev) (\<lambda>dev. bnd (gets l_start) (\<lambda>st.
     bnd (bread dev st) (\<lambda>buf.
     bnd (look_data buf) (\<lambda>lh.
     thn (modify (\<lambda>s. s\<lparr>lh_n := sint (rd32 lh 0)\<rparr>))
     (thn (for_each [0..<nat (sint (rd32 lh 0))] (\<lambda>i. set_sector i (rd32 lh (Suc i))))
     (brelse buf))))))"

text \<open>The stores of \<open>write_head\<close> into the header block.\<close>

definition head_block :: "int \<Rightarrow> u32 list \<Rightarrow> byte list \<Rightarrow> byte list" where
  "head_block n secs d = fold (\<lambda>i d. wr32 d (Suc i) (secs ! i)) [0..<nat n] (wr32 d 0 (word_of_int n))"

definition write_head :: "('z, unit) logf" where
  "write_head =
     bnd (gets l_dev) (\<lambda>dev. bnd (gets l_start) (\<lambda>st.
     bnd (bread dev st) (\<lambda>buf.
     bnd (look_data buf) (\<lambda>hb.
     bnd (gets lh_n) (\<lambda>n. bnd (gets lh_sector) (\<lambda>secs.
     if n > int LOGSIZE then fault ''log.lh.sector''
     else
       thn (put_data buf (head_block n secs hb))
       (thn (bwrite buf)
       (brelse buf))))))))"

definition recover_from_log :: "('z, unit) logf" where
  "recover_from_log =
     thn read_head
     (thn install_trans
     (thn (modify (\<lambda>s. s\<lparr>lh_n := 0\<rparr>))
     write_head))"

definition initlog :: "('z, unit) logf" where
  "initlog =
     bnd (readsb ROOTDEV) (\<lambda>sb.
     thn (modify (\<lambda>s. s\<lparr>l_start := sb_size sb - sb_nlog sb\<rparr>))
     (thn (modify (\<lambda>s. s\<lparr>l_size := sint (sb_nlog sb)\<rparr>))
     (thn (modify (\<lambda>s. s\<lparr>l_dev := ROOTDEV\<rparr>))
     recover_from_log)))"

text \<open>The loop of \<open>begin_op\<close>, which is also what it continues with after a wakeup.\<close>

definition begin_op_loop :: "('z, unit) logf" where
  "begin_op_loop s =
     (if l_committing s then sleep CH_log LK_log s
      else if lh_n s + (l_outstanding s + 1) * int MAXOPBLOCKS > int LOGSIZE then sleep CH_log LK_log s
      else thn (modify (\<lambda>s. s\<lparr>l_outstanding := l_outstanding s + 1\<rparr>)) (release LK_log) s)"

definition begin_op :: "('z, unit) logf" where
  "begin_op = thn (acquire LK_log) begin_op_loop"

text \<open>One round of \<open>write_log\<close>: a changed block goes to its place in the log.\<close>

definition write_log_one :: "nat \<Rightarrow> ('z, unit) logf" where
  "write_log_one tail =
     bnd (gets l_dev) (\<lambda>dev. bnd (gets l_start) (\<lambda>st.
     bnd (bread dev (st + of_nat tail + 1)) (\<lambda>to.
     bnd (get_sector tail) (\<lambda>sec.
     bnd (bread dev sec) (\<lambda>from.
     bnd (look_data from) (\<lambda>d.
     thn (put_data to d)
     (thn (bwrite to)
     (thn (brelse from)
     (brelse to)))))))))"

definition write_log :: "('z, unit) logf" where
  "write_log = bnd (gets lh_n) (\<lambda>n. for_each [0..<nat n] write_log_one)"

definition commit :: "('z, unit) logf" where
  "commit =
     bnd (gets lh_n) (\<lambda>n. whenk (n > 0)
       (thn write_log
       (thn write_head
       (thn install_trans
       (thn (modify (\<lambda>s. s\<lparr>lh_n := 0\<rparr>))
       write_head)))))"

definition end_op :: "('z, unit) logf" where
  "end_op =
     thn (acquire LK_log)
     (thn (modify (\<lambda>s. s\<lparr>l_outstanding := l_outstanding s - 1\<rparr>))
     (bnd (gets l_committing) (\<lambda>c. if c then panic ''log.committing'' else
      bnd (gets l_outstanding) (\<lambda>out.
      let do_commit = (out = 0) in
      thn (if do_commit then modify (\<lambda>s. s\<lparr>l_committing := True\<rparr>) else wakeup CH_log)
      (thn (release LK_log)
      (whenk do_commit
        (thn commit
        (thn (acquire LK_log)
        (thn (modify (\<lambda>s. s\<lparr>l_committing := False\<rparr>))
        (thn (wakeup CH_log)
        (release LK_log)))))))))))"

text \<open>The search of \<open>log_write\<close> for the block among those already logged (absorption).\<close>

definition log_slot :: "int \<Rightarrow> u32 list \<Rightarrow> u32 \<Rightarrow> nat" where
  "log_slot n secs sec = (case find_idx (\<lambda>x. x = sec) (take (nat n) secs) of Some i \<Rightarrow> i | None \<Rightarrow> nat n)"

definition log_write :: "nat \<Rightarrow> ('z, unit) logf" where
  "log_write b =
     bnd (gets lh_n) (\<lambda>n. bnd (gets l_size) (\<lambda>size. bnd (gets l_outstanding) (\<lambda>out.
     if n \<ge> int LOGSIZE \<or> n \<ge> size - 1 then panic ''too big a transaction''
     else if out < 1 then panic ''log_write outside of trans''
     else
       bnd (gets (\<lambda>s. b_sector (bufs s ! b))) (\<lambda>sec.
       bnd (gets lh_sector) (\<lambda>secs.
       let i = log_slot n secs sec in
       thn (set_sector i sec)
       (thn (whenk (int i = n) (modify (\<lambda>s. s\<lparr>lh_n := lh_n s + 1\<rparr>)))
       (mark_dirty b)))))))"

section \<open>Transactions on the cache\<close>

text \<open>What the cache says depends on its fields only.\<close>

lemma cache_cong:
  assumes "bufs t = bufs s" and "memdisk t = memdisk s"
  shows "blk t = blk s" and "pin t = pin s" and "dirt t = dirt s" and "bc_ok t = bc_ok s"
proof -
  have h: "holds t b n = holds s b n" for b n using assms by (simp add: holds_def)
  show "blk t = blk s" unfolding blk_def fun_eq_iff h assms by simp
  show "pin t = pin s" by (intro ext) (simp add: pin_def assms)
  show "dirt t = dirt s" by (simp add: dirt_def h assms)
  show "bc_ok t = bc_ok s" unfolding bc_ok_def h assms ..
qed

lemma lh_n_cache [simp]:
  "blk (s\<lparr>lh_n := x\<rparr>) = blk s" "pin (s\<lparr>lh_n := x\<rparr>) = pin s" "dirt (s\<lparr>lh_n := x\<rparr>) = dirt s"
  "cache_rdy (s\<lparr>lh_n := x\<rparr>) = cache_rdy s"
  using cache_cong [of "s\<lparr>lh_n := x\<rparr>" s] by (simp_all add: cache_rdy_def)

lemma frame_logs:
  fixes s :: "'z logs_scheme"
  assumes "cache_frame s t"
  shows "l_start t = l_start s" "l_size t = l_size s" "l_outstanding t = l_outstanding s" "l_committing t = l_committing s"
    "l_dev t = l_dev s" "lh_n t = lh_n s" "lh_sector t = lh_sector s" "held t = held s"
  using assms by (auto simp: cache_frame_iff)

text \<open>
  \<open>log_ok s n\<close>: the log lies inside the disk with room for \<open>n\<close> blocks after its header, no buffer
  is held, and the blocks in the table are home locations below the log.
\<close>

definition log_ok :: "'z logs_scheme \<Rightarrow> nat \<Rightarrow> bool" where
  "log_ok s n \<longleftrightarrow> cache_rdy s \<and> pin s = Map.empty \<and> l_dev s = 1 \<and> n \<le> 29 \<and>
     length (lh_sector s) = 30 \<and> unat (l_start s) + n < length (memdisk s) \<and> length (memdisk s) < 2 ^ 32 \<and>
     (\<forall>i<n. unat (lh_sector s ! i) < unat (l_start s))"

definition log_blk :: "u32 \<Rightarrow> nat \<Rightarrow> u32" where
  "log_blk st i = st + of_nat i + 1"

lemma unat_log_blk: "unat st + i + 1 < 2 ^ 32 \<Longrightarrow> unat (log_blk st i) = unat st + i + 1"
proof -
  assume a: "unat st + i + 1 < 2 ^ 32"
  have "log_blk st i = of_nat (unat st + i + 1)" by (simp add: log_blk_def)
  then show ?thesis using a by (simp add: unat_of_nat del: of_nat_add of_nat_Suc)
qed

lemma log_ok_blk:
  assumes "log_ok s n" and "i < n"
  shows "unat (log_blk (l_start s) i) = unat (l_start s) + i + 1" "unat (log_blk (l_start s) i) < length (memdisk s)"
    "unat (lh_sector s ! i) < length (memdisk s)" "lh_sector s ! i \<noteq> log_blk (l_start s) j \<or> n \<le> j"
proof -
  have b: "unat (l_start s) + n < length (memdisk s)" "length (memdisk s) < 2 ^ 32" "unat (lh_sector s ! i) < unat (l_start s)"
    using assms by (auto simp: log_ok_def)
  show "unat (log_blk (l_start s) i) = unat (l_start s) + i + 1" using b assms(2) by (intro unat_log_blk) simp
  then show "unat (log_blk (l_start s) i) < length (memdisk s)" using b assms(2) by simp
  show "unat (lh_sector s ! i) < length (memdisk s)" using b by simp
  show "lh_sector s ! i \<noteq> log_blk (l_start s) j \<or> n \<le> j"
  proof (cases "n \<le> j")
    case False
    then have "unat (log_blk (l_start s) j) = unat (l_start s) + j + 1" using b by (intro unat_log_blk) simp
    then show ?thesis using b by auto
  qed simp
qed

lemma fold_upd_other: "x \<notin> fst ` set ps \<Longrightarrow> fold (\<lambda>(n, d) c. c(n := d)) ps c x = c x"
  by (induction ps arbitrary: c) auto

lemma fold_disk_length [simp]: "length (fold (\<lambda>(n, d) k. k[unat n := d]) ps k) = length k"
  by (induction ps arbitrary: k) (auto split: prod.splits)

lemma fold_disk_other:
  "(\<forall>p\<in>set ps. unat (fst p) \<noteq> x) \<Longrightarrow> fold (\<lambda>(n, d) k. k[unat n := d]) ps k ! x = k ! x"
  by (induction ps arbitrary: k) (auto split: prod.splits)

lemma stored_logs:
  fixes s :: "'z logs_scheme"
  assumes "bc.stored_all ps s t"
  shows "l_start t = l_start s" "l_dev t = l_dev s" "lh_n t = lh_n s" "lh_sector t = lh_sector s"
    "length (memdisk t) = length (memdisk s)" "log_ok s n \<Longrightarrow> log_ok t n"
  using assms frame_logs [of s t] by (auto simp: bc.stored_all_def log_ok_def)

lemma stored_content: "bc.stored_all ps s t \<Longrightarrow> x \<notin> fst ` set ps \<Longrightarrow> blk t x = blk s x"
  by (simp add: bc.stored_all_def fold_upd_other)

lemma get_sector_frame:
  "cache_frame s t \<Longrightarrow> i < 30 \<Longrightarrow> get_sector i t = Ok (lh_sector s ! i) t"
  by (simp add: get_sector_def frame_logs)

text \<open>The two rounds of copying, as uses of the contract of the cache.\<close>

lemma write_log_one_Ok:
  assumes ok: "log_ok s n" and i: "i < n" and d: "card (dirt s) < 30" "lh_sector s ! i \<in> dirt s"
  shows "\<exists>t. write_log_one i s = Ok () t \<and> bc.stored_all [(log_blk (l_start s) i, blk s (lh_sector s ! i))] s t"
proof -
  let ?n = "log_blk (l_start s) i" and ?m = "lh_sector s ! i"
  have b: "cache_rdy s" "pin s = Map.empty" "l_dev s = 1" "i < 30" using ok i by (auto simp: log_ok_def)
  have l: "unat ?n < length (memdisk s)" "unat ?m < length (memdisk s)" "?m \<noteq> ?n"
    using log_ok_blk [OF ok i] log_ok_blk(4) [OF ok i, of i] i by auto
  obtain a t where t: "bread 1 ?n s = Ok a t" "cache_frame s t" using bc.rd_law [OF b(1) l(1)] b d by auto
  have "write_log_one i s = bnd (bread 1 ?n) (\<lambda>a. bnd (bread 1 ?m) (\<lambda>b. bnd (look_data b) (\<lambda>d. thn (put_data a d)
      (thn (bwrite a) (thn (brelse b) (brelse a)))))) s"
    using t b get_sector_frame [OF t(2) b(4)] by (simp add: write_log_one_def log_blk_def)
  then show ?thesis
    using bc.copy_dst_first [OF b(1) l(1,2) b(2) d(1) disjI2 [OF d(2)] l(3)] by (simp add: bc.stored_all_one)
qed

lemma install_one_Ok:
  assumes ok: "log_ok s n" and i: "i < n" and d: "card (dirt s) < 30" "card (dirt s) < 29 \<or> lh_sector s ! i \<in> dirt s"
  shows "\<exists>t. install_one i s = Ok () t \<and> bc.stored_all [(lh_sector s ! i, blk s (log_blk (l_start s) i))] s t"
proof -
  let ?m = "log_blk (l_start s) i" and ?n = "lh_sector s ! i"
  have b: "cache_rdy s" "pin s = Map.empty" "l_dev s = 1" "i < 30" using ok i by (auto simp: log_ok_def)
  have l: "unat ?n < length (memdisk s)" "unat ?m < length (memdisk s)" "?m \<noteq> ?n"
    using log_ok_blk [OF ok i] log_ok_blk(4) [OF ok i, of i] i by auto
  obtain a t where t: "bread 1 ?m s = Ok a t" "cache_frame s t" using bc.rd_law [OF b(1) l(2)] b d by auto
  have "install_one i s = bnd (bread 1 ?m) (\<lambda>b. bnd (bread 1 ?n) (\<lambda>a. bnd (look_data b) (\<lambda>d. thn (put_data a d)
      (thn (bwrite a) (thn (brelse b) (brelse a)))))) s"
    using t b get_sector_frame [OF t(2) b(4)] by (simp add: install_one_def log_blk_def)
  then show ?thesis
    using bc.copy_src_first [OF b(1) l(1,2) b(2) d(1) d(2) l(3)] by (simp add: bc.stored_all_one)
qed

lemma card_stored: "bc.stored_all ps s t \<Longrightarrow> finite (dirt s) \<Longrightarrow> card (dirt t) \<le> card (dirt s)"
  by (simp add: bc.stored_all_def card_mono)

lemma finite_dirt: "finite (dirt s)"
proof -
  have "dirt s \<subseteq> (\<lambda>b. b_sector (bufs s ! b)) ` {..<30}" by (auto simp: dirt_def holds_def)
  then show ?thesis using finite_subset by blast
qed

lemma write_log_loop:
  assumes ok: "log_ok s n" and d: "card (dirt s) < 30" and all: "\<forall>i<n. lh_sector s ! i \<in> dirt s" and k: "k \<le> n"
  shows "\<exists>t. for_each [0..<k] write_log_one s = Ok () t \<and>
    bc.stored_all (map (\<lambda>i. (log_blk (l_start s) i, blk s (lh_sector s ! i))) [0..<k]) s t"
  using k
proof (induction k)
  case 0
  then show ?case using ok bc.stored_all_Nil by (auto simp: log_ok_def)
next
  case (Suc k)
  let ?ps = "map (\<lambda>i. (log_blk (l_start s) i, blk s (lh_sector s ! i))) [0..<k]"
  obtain t where t: "for_each [0..<k] write_log_one s = Ok () t" "bc.stored_all ?ps s t" using Suc by auto
  have out: "lh_sector s ! k \<notin> fst ` set ?ps" using log_ok_blk(4) [OF ok, of k] Suc.prems by fastforce
  have "lh_sector s ! k \<in> dirt t" using t(2) out all Suc.prems by (auto simp: bc.stored_all_def)
  moreover have "card (dirt t) < 30" using card_stored [OF t(2) finite_dirt] d by simp
  ultimately obtain u where u: "write_log_one k t = Ok () u"
    "bc.stored_all [(log_blk (l_start t) k, blk t (lh_sector t ! k))] t u"
    using write_log_one_Ok [OF stored_logs(6) [OF t(2) ok], of k] Suc.prems stored_logs(4) [OF t(2)] by auto
  have "bc.stored_all (?ps @ [(log_blk (l_start s) k, blk s (lh_sector s ! k))]) s u"
    using bc.stored_all_append [OF t(2) u(2)] stored_logs [OF t(2)] stored_content [OF t(2) out] by simp
  then show ?case using t(1) u(1) by (intro exI [of _ u]) (simp add: for_each_append)
qed

lemma install_loop:
  assumes ok: "log_ok s n" and d: "card (dirt s) < 30" and all: "card (dirt s) < 29 \<or> (\<forall>i<n. lh_sector s ! i \<in> dirt s)"
    and k: "k \<le> n" and dis: "distinct (take n (lh_sector s))"
  shows "\<exists>t. for_each [0..<k] install_one s = Ok () t \<and>
    bc.stored_all (map (\<lambda>i. (lh_sector s ! i, blk s (log_blk (l_start s) i))) [0..<k]) s t"
  using k
proof (induction k)
  case 0
  then show ?case using ok bc.stored_all_Nil by (auto simp: log_ok_def)
next
  case (Suc k)
  let ?ps = "map (\<lambda>i. (lh_sector s ! i, blk s (log_blk (l_start s) i))) [0..<k]"
  obtain t where t: "for_each [0..<k] install_one s = Ok () t" "bc.stored_all ?ps s t" using Suc by auto
  have "log_blk (l_start s) k \<noteq> lh_sector s ! i" if "i < k" for i
    using log_ok_blk(4) [OF ok, of i k] that Suc.prems by auto
  then have out: "log_blk (l_start s) k \<notin> fst ` set ?ps" by fastforce
  have len: "length (lh_sector s) = 30" "n \<le> 29" using ok by (auto simp: log_ok_def)
  have "lh_sector s ! i \<noteq> lh_sector s ! k" if "i < k" for i
    using dis that Suc.prems len nth_eq_iff_index_eq [OF dis, of i k] by simp
  then have "lh_sector s ! k \<notin> fst ` set ?ps" by fastforce
  then have "card (dirt s) < 29 \<or> lh_sector s ! k \<in> dirt t" using t(2) all Suc.prems by (auto simp: bc.stored_all_def)
  moreover have "card (dirt t) \<le> card (dirt s)" by (rule card_stored [OF t(2) finite_dirt])
  ultimately obtain u where u: "install_one k t = Ok () u"
    "bc.stored_all [(lh_sector t ! k, blk t (log_blk (l_start t) k))] t u"
    using install_one_Ok [OF stored_logs(6) [OF t(2) ok], of k] Suc.prems stored_logs(4) [OF t(2)] d by fastforce
  have "bc.stored_all (?ps @ [(lh_sector s ! k, blk s (log_blk (l_start s) k))]) s u"
    using bc.stored_all_append [OF t(2) u(2)] stored_logs [OF t(2)] stored_content [OF t(2) out] by simp
  then show ?case using t(1) u(1) by (intro exI [of _ u]) (simp add: for_each_append)
qed

section \<open>The header block\<close>

lemma head_fold:
  "length d = 512 \<Longrightarrow> k \<le> 30 \<Longrightarrow>
   length (fold (\<lambda>i d. wr32 d (Suc i) (secs ! i)) [0..<k] d) = 512 \<and>
   (\<forall>j<128. rd32 (fold (\<lambda>i d. wr32 d (Suc i) (secs ! i)) [0..<k] d) j =
      (if 0 < j \<and> j \<le> k then secs ! (j - 1) else rd32 d j))"
proof (induction k)
  case (Suc k)
  let ?e = "fold (\<lambda>i d. wr32 d (Suc i) (secs ! i)) [0..<k] d"
  have e: "length ?e = 512" "\<forall>j<128. rd32 ?e j = (if 0 < j \<and> j \<le> k then secs ! (j - 1) else rd32 d j)"
    using Suc by auto
  have "rd32 (wr32 ?e (Suc k) (secs ! k)) j = (if 0 < j \<and> j \<le> Suc k then secs ! (j - 1) else rd32 d j)" if "j < 128" for j
    using e Suc.prems that by (cases "j = Suc k") auto
  then show ?case using e Suc.prems by simp
qed simp

lemma head_block:
  assumes "length d = 512" and "n \<le> 30"
  shows "length (head_block (int n) secs d) = 512" and "rd32 (head_block (int n) secs d) 0 = of_nat n"
    and "i < n \<Longrightarrow> rd32 (head_block (int n) secs d) (Suc i) = secs ! i"
  using head_fold [of "wr32 d 0 (word_of_int (int n))" n secs] assms
  by (auto simp: head_block_def)

lemma write_head_Ok:
  assumes ok: "log_ok s n" and k: "lh_n s \<le> 30" and d: "card (dirt s) < 30"
  shows "\<exists>t. write_head s = Ok () t \<and> bc.stored_all [(l_start s, head_block (lh_n s) (lh_sector s) (blk s (l_start s)))] s t"
proof -
  let ?n = "l_start s"
  have b: "cache_rdy s" "pin s = Map.empty" "l_dev s = 1" "unat ?n < length (memdisk s)" using ok by (auto simp: log_ok_def)
  obtain a t where t: "bread 1 ?n s = Ok a t" "cache_frame s t" using bc.rd_law [OF b(1,4)] b d by auto
  have "write_head s = bnd (bread 1 ?n) (\<lambda>b. bnd (look_data b) (\<lambda>d. thn (put_data b (head_block (lh_n s) (lh_sector s) d))
      (thn (bwrite b) (brelse b)))) s"
    using t b k frame_logs [OF t(2)] by (simp add: write_head_def look_data_def)
  then show ?thesis using bc.write_block [OF b(1,4,2) d] by (simp add: bc.stored_all_one)
qed

lemma set_sectors:
  assumes "k \<le> 30" and "length (lh_sector s) = 30"
  shows "for_each [0..<k] (\<lambda>i. set_sector i (w i)) s = Ok () (s\<lparr>lh_sector := map w [0..<k] @ drop k (lh_sector s)\<rparr>)"
  using assms(1)
proof (induction k)
  case (Suc k)
  have "drop k (lh_sector s) = lh_sector s ! k # drop (Suc k) (lh_sector s)"
    using Suc.prems assms(2) by (simp add: Cons_nth_drop_Suc)
  then have "(map w [0..<k] @ drop k (lh_sector s))[k := w k] = map w [0..<Suc k] @ drop (Suc k) (lh_sector s)"
    by (simp add: list_update_append)
  then show ?case using Suc by (simp add: for_each_append set_sector_def)
qed simp

lemma log_fields_cache [simp]:
  "blk (s\<lparr>lh_n := x, lh_sector := y\<rparr>) = blk s" "pin (s\<lparr>lh_n := x, lh_sector := y\<rparr>) = pin s"
  "dirt (s\<lparr>lh_n := x, lh_sector := y\<rparr>) = dirt s" "cache_rdy (s\<lparr>lh_n := x, lh_sector := y\<rparr>) = cache_rdy s"
  using cache_cong [of "s\<lparr>lh_n := x, lh_sector := y\<rparr>" s] by (simp_all add: cache_rdy_def)

lemma frame_upd: "cache_frame s t \<Longrightarrow> cache_frame (s\<lparr>lh_n := x, lh_sector := y\<rparr>) (t\<lparr>lh_n := x, lh_sector := y\<rparr>)"
  by (cases s, cases t) (simp add: cache_frame_def)

lemma frame_lh_n: "cache_frame s t \<Longrightarrow> cache_frame (s\<lparr>lh_n := x\<rparr>) (t\<lparr>lh_n := x\<rparr>)"
  by (cases s, cases t) (simp add: cache_frame_def)

lemma stored_lh_n: "bc.stored_all ps s t \<Longrightarrow> bc.stored_all ps (s\<lparr>lh_n := x\<rparr>) (t\<lparr>lh_n := x\<rparr>)"
  by (simp add: bc.stored_all_def frame_lh_n)

lemma read_head_Ok:
  assumes ok: "log_ok s 0" and d: "dirt s = {}" and k: "sint (rd32 (blk s (l_start s)) 0) = int k" "k \<le> 30"
  shows "\<exists>t. read_head s = Ok () t \<and>
    bc.stored_all [] (s\<lparr>lh_n := int k, lh_sector := map (\<lambda>i. rd32 (blk s (l_start s)) (Suc i)) [0..<k] @ drop k (lh_sector s)\<rparr>) t"
proof -
  let ?n = "l_start s" and ?H = "blk s (l_start s)"
  let ?w = "map (\<lambda>i. rd32 ?H (Suc i)) [0..<k] @ drop k (lh_sector s)"
  let ?f = "\<lambda>t. t\<lparr>lh_n := int k, lh_sector := ?w\<rparr>"
  have b: "cache_rdy s" "pin s = Map.empty" "l_dev s = 1" "unat ?n < length (memdisk s)" "length (lh_sector s) = 30"
    using ok by (auto simp: log_ok_def)
  obtain a t where t: "bread 1 ?n s = Ok a t" "cache_frame s t" "cache_rdy t" "pin t = (pin s)(a \<mapsto> ?n)"
    "blk t = blk s" "dirt t = dirt s" "memdisk t = memdisk s" "wtrace t = wtrace s"
    using bc.rd_law [OF b(1,4)] b d by auto
  note fl = frame_logs [OF t(2)]
  have c: "?n \<in> dirt (?f t) \<or> blk (?f t) ?n = memdisk (?f t) ! unat ?n" using bc.clean_law [OF b(1)] b(2) d t by simp
  have p: "pin (?f t) a = Some ?n" "cache_rdy (?f t)" using t by simp_all
  obtain v where v: "brelse a (?f t) = Ok () v" "cache_frame (?f t) v" "cache_rdy v" "pin v = (pin (?f t))(a := None)"
    "blk v = blk (?f t)" "dirt v = dirt (?f t)" "memdisk v = memdisk (?f t)" "wtrace v = wtrace (?f t)"
    using bc.rel_law [OF p(2,1) c] by blast
  have r: "read_head s = Ok () v"
    using t(1) b bc.look_law [OF t(3), of a ?n] t(4,5) k v(1) fl set_sectors [OF k(2), of "t\<lparr>lh_n := int k\<rparr>"]
    by (simp add: read_head_def)
  have "cache_frame (?f s) (?f t)" using t(2) by (rule frame_upd)
  then have "bc.stored_all [] (?f s) v"
    using v t b cache_frame_trans [OF _ v(2)] by (simp add: bc.stored_all_def fun_eq_iff)
  with r show ?thesis by blast
qed

section \<open>Commit and recovery\<close>

text \<open>
  \<open>trans_ok s n\<close>: a transaction that has changed \<open>n\<close> blocks is ready to commit. The blocks are
  distinct, they are those with a dirty buffer, and the header on the disk is that of an empty log.
\<close>

definition trans_ok :: "'z logs_scheme \<Rightarrow> nat \<Rightarrow> bool" where
  "trans_ok s n \<longleftrightarrow> log_ok s n \<and> 0 < n \<and> lh_n s = int n \<and> distinct (take n (lh_sector s)) \<and>
     dirt s = set (take n (lh_sector s)) \<and> (\<forall>d\<in>set (memdisk s). length d = 512) \<and>
     rd32 (memdisk s ! unat (l_start s)) 0 = 0"

text \<open>The writes of \<open>commit\<close>, in order.\<close>

definition head_full :: "'z logs_scheme \<Rightarrow> byte list" where
  "head_full s = head_block (lh_n s) (lh_sector s) (memdisk s ! unat (l_start s))"

definition to_log :: "'z logs_scheme \<Rightarrow> nat \<Rightarrow> (u32 \<times> byte list) list" where
  "to_log s n = map (\<lambda>i. (log_blk (l_start s) i, blk s (lh_sector s ! i))) [0..<n]"

definition to_home :: "'z logs_scheme \<Rightarrow> nat \<Rightarrow> (u32 \<times> byte list) list" where
  "to_home s n = map (\<lambda>i. (lh_sector s ! i, blk s (lh_sector s ! i))) [0..<n]"

definition commit_writes :: "'z logs_scheme \<Rightarrow> nat \<Rightarrow> (u32 \<times> byte list) list" where
  "commit_writes s n = to_log s n @ [(l_start s, head_full s)] @ to_home s n @
     [(l_start s, head_block 0 (lh_sector s) (head_full s))]"

lemma start_not_home: "log_ok s n \<Longrightarrow> i < n \<Longrightarrow> lh_sector s ! i \<noteq> l_start s"
  by (auto simp: log_ok_def)

lemma start_not_log: "log_ok s n \<Longrightarrow> i < n \<Longrightarrow> log_blk (l_start s) i \<noteq> l_start s"
  using log_ok_blk(1) [of s n i] by (metis Suc_eq_plus1 add_Suc_right less_add_same_cancel1 less_irrefl zero_less_Suc)

lemma log_blk_inj:
  assumes "log_ok s n" "i < n" "j < n" "log_blk (l_start s) i = log_blk (l_start s) j"
  shows "i = j"
proof -
  have "unat (l_start s) + i + 1 = unat (l_start s) + j + 1"
    unfolding log_ok_blk(1) [OF assms(1,2), symmetric] log_ok_blk(1) [OF assms(1,3), symmetric] assms(4) ..
  then show ?thesis by simp
qed

lemma set_take_nth: "n \<le> length xs \<Longrightarrow> x \<in> set (take n xs) \<longleftrightarrow> (\<exists>i<n. x = xs ! i)"
  by (auto simp: in_set_conv_nth)

lemma fold_upd_map:
  assumes "\<And>j. j < n \<Longrightarrow> g j = g i \<Longrightarrow> j = i" and "i < n"
  shows "fold (\<lambda>(n, d) c. c(n := d)) (map (\<lambda>i. (g i, h i)) [0..<n]) c (g i) = h i"
proof -
  have e: "[0..<n] = [0..<i] @ i # [Suc i..<n]"
    using assms(2) upt_add_eq_append [of 0 i "n - i"] by (simp add: upt_conv_Cons)
  have "g j \<noteq> g i" if "i < j" "j < n" for j using assms(1) [of j] that by blast
  then have "g i \<notin> g ` {Suc i..<n}" unfolding image_iff by (metis Suc_le_lessD atLeastLessThan_iff)
  then have "g i \<notin> fst ` set (map (\<lambda>i. (g i, h i)) [Suc i..<n])" by (simp add: image_image)
  then show ?thesis by (simp add: e fold_upd_other)
qed

lemma commit_Ok:
  assumes "trans_ok s n"
  shows "\<exists>t. commit s = Ok () t \<and> bc.stored_all (commit_writes s n) (s\<lparr>lh_n := 0\<rparr>) t"
proof -
  have ok: "log_ok s n" and n: "0 < n" "lh_n s = int n" "n \<le> 29" and dis: "distinct (take n (lh_sector s))"
    and d: "dirt s = set (take n (lh_sector s))" and len: "length (lh_sector s) = 30"
    using assms by (auto simp: trans_ok_def log_ok_def)
  have all: "\<forall>i<n. lh_sector s ! i \<in> dirt s" using d len n by (auto simp: in_set_conv_nth)
  have c: "card (dirt s) < 30" using d n card_length [of "take n (lh_sector s)"] by simp
  obtain t where t: "for_each [0..<n] write_log_one s = Ok () t" "bc.stored_all (to_log s n) s t"
    using write_log_loop [OF ok c all order.refl] unfolding to_log_def by blast
  note ft = stored_logs [OF t(2)]
  have ct: "card (dirt t) < 30" using card_stored [OF t(2) finite_dirt] c by simp
  have hs: "l_start s \<notin> fst ` set (to_log s n)" using start_not_log [OF ok] by (fastforce simp: to_log_def)
  have "blk s (l_start s) = memdisk s ! unat (l_start s)"
  proof (rule bc.clean_law)
    show "l_start s \<notin> dirt s" using d start_not_home [OF ok] len n by (auto simp: in_set_conv_nth)
  qed (use ok in \<open>auto simp: log_ok_def\<close>)
  then have bh: "blk t (l_start t) = memdisk s ! unat (l_start s)" using stored_content [OF t(2) hs] ft by simp
  obtain u where u: "write_head t = Ok () u" "bc.stored_all [(l_start s, head_full s)] t u"
    using write_head_Ok [OF ft(6) [OF ok] _ ct] ft n bh by (auto simp: head_full_def)
  note fu = stored_logs [OF u(2)]
  have cu: "card (dirt u) < 30" using card_stored [OF u(2) finite_dirt] ct by simp
  have "x \<noteq> l_start s" "x \<notin> fst ` set (to_log s n)" if x: "x \<in> dirt s" for x
  proof -
    obtain i where i: "i < n" "x = lh_sector s ! i" using x d len n set_take_nth [of n "lh_sector s" x] by auto
    show "x \<noteq> l_start s" using start_not_home [OF ok] i by simp
    show "x \<notin> fst ` set (to_log s n)" using log_ok_blk(4) [OF ok i(1)] i(2) by (force simp: to_log_def)
  qed
  moreover have "dirt u = dirt s - fst ` set (to_log s n) - {l_start s}" using t(2) u(2) by (simp add: bc.stored_all_def)
  ultimately have du: "dirt u = dirt s" by blast
  have "blk u (log_blk (l_start s) i) = blk s (lh_sector s ! i)" if "i < n" for i
    using stored_content [OF u(2), of "log_blk (l_start s) i"] start_not_log [OF ok that] t(2) that
      fold_upd_map [of n "log_blk (l_start s)" i "\<lambda>i. blk s (lh_sector s ! i)"] log_blk_inj [OF ok _ that]
    by (auto simp: bc.stored_all_def to_log_def)
  then have home: "map (\<lambda>i. (lh_sector u ! i, blk u (log_blk (l_start u) i))) [0..<n] = to_home s n"
    using ft fu by (auto simp: to_home_def)
  obtain v where v: "for_each [0..<n] install_one u = Ok () v" "bc.stored_all (to_home s n) u v"
    using install_loop [OF fu(6) [OF ft(6) [OF ok]] cu _ order.refl] du all dis ft fu unfolding home [symmetric] by auto
  note fv = stored_logs [OF v(2)]
  let ?v = "v\<lparr>lh_n := 0\<rparr>"
  have okv: "log_ok ?v n" using fv(6) [OF fu(6) [OF ft(6) [OF ok]]] by (simp add: log_ok_def)
  have hv: "l_start s \<notin> fst ` set (to_home s n)" using start_not_home [OF ok] by (fastforce simp: to_home_def)
  have bv: "blk v (l_start s) = head_full s" using stored_content [OF v(2) hv] u(2) by (simp add: bc.stored_all_def)
  have cv: "card (dirt ?v) < 30" using card_stored [OF v(2) finite_dirt] cu by simp
  obtain w where w: "write_head ?v = Ok () w"
    "bc.stored_all [(l_start s, head_block 0 (lh_sector s) (head_full s))] ?v w"
    using write_head_Ok [OF okv _ cv] ft fu fv bv by auto
  have run: "commit s = Ok () w" using t(1) u(1) v(1) w(1) ft fu fv n
    by (simp add: commit_def write_log_def install_trans_def)
  have "bc.stored_all (to_log s n @ [(l_start s, head_full s)] @ to_home s n) s v"
    using bc.stored_all_append [OF t(2) bc.stored_all_append [OF u(2) v(2)]] by simp
  from bc.stored_all_append [OF stored_lh_n [OF this] w(2)] run show ?thesis
    by (auto simp: commit_writes_def)
qed

text \<open>A machine that has just booted: nothing is cached, and \<open>initlog\<close> has found the log.\<close>

definition booted :: "u32 \<Rightarrow> 'z logs_scheme \<Rightarrow> bool" where
  "booted st r \<longleftrightarrow> cache_rdy r \<and> pin r = Map.empty \<and> dirt r = {} \<and> l_start r = st \<and> l_dev r = 1 \<and>
     length (lh_sector r) = 30 \<and> length (memdisk r) < 2 ^ 32"

abbreviation disk_puts :: "(u32 \<times> byte list) list \<Rightarrow> byte list list \<Rightarrow> byte list list" where
  "disk_puts \<equiv> fold (\<lambda>(n, d) k. k[unat n := d])"

lemma fold_disk_map:
  assumes inj: "\<And>j. j < n \<Longrightarrow> unat (g j) = unat (g i) \<Longrightarrow> j = i" and i: "i < n" and l: "unat (g i) < length k"
  shows "disk_puts (map (\<lambda>i. (g i, h i)) [0..<n]) k ! unat (g i) = h i"
proof -
  have e: "[0..<n] = [0..<i] @ i # [Suc i..<n]"
    using i upt_add_eq_append [of 0 i "n - i"] by (simp add: upt_conv_Cons)
  have "unat (g j) \<noteq> unat (g i)" if "Suc i \<le> j" "j < n" for j using inj [of j] that by fastforce
  then have "\<forall>p\<in>set (map (\<lambda>i. (g i, h i)) [Suc i..<n]). unat (fst p) \<noteq> unat (g i)" by auto
  then show ?thesis using l by (simp add: e fold_disk_other)
qed

lemma recover_Ok:
  assumes r: "booted st r" and H: "H = memdisk r ! unat st" and k: "rd32 H 0 = of_nat k" "k \<le> 29"
    and room: "unat st + k < length (memdisk r)" and below: "\<forall>i<k. unat (rd32 H (Suc i)) < unat st"
    and dis: "distinct (map (\<lambda>i. rd32 H (Suc i)) [0..<k])"
  shows "\<exists>u h. recover_from_log r = Ok () u \<and>
    memdisk u = disk_puts (map (\<lambda>i. (rd32 H (Suc i), memdisk r ! unat (log_blk st i))) [0..<k] @ [(st, h)]) (memdisk r)"
proof -
  have b: "cache_rdy r" "pin r = Map.empty" "dirt r = {}" "l_start r = st" "l_dev r = 1" "length (lh_sector r) = 30"
    "length (memdisk r) < 2 ^ 32" using r by (auto simp: booted_def)
  have clean: "blk r x = memdisk r ! unat x" for x using bc.clean_law [OF b(1)] b(2,3) by simp
  have ok0: "log_ok r 0" using b room by (simp add: log_ok_def)
  have s: "sint (rd32 (blk r (l_start r)) 0) = int k"
    using k by (simp add: clean b(4) H [symmetric] signed_of_nat signed_take_bit_int_eq_self)
  let ?secs = "map (\<lambda>i. rd32 (blk r (l_start r)) (Suc i)) [0..<k] @ drop k (lh_sector r)"
  let ?r = "r\<lparr>lh_n := int k, lh_sector := ?secs\<rparr>"
  obtain t where t: "read_head r = Ok () t" "bc.stored_all [] ?r t"
    using read_head_Ok [OF ok0 b(3) s] k(2) by auto
  note ft = stored_logs [OF t(2)]
  have sec: "lh_sector t ! i = rd32 H (Suc i)" if "i < k" for i
    using ft that by (simp add: nth_append clean b(4) H)
  have "log_ok ?r k" using b room below k(2) by (auto simp: log_ok_def nth_append clean H)
  then have okt: "log_ok t k" by (rule ft(6))
  have dt: "dirt t = {}" "blk t = blk r" "memdisk t = memdisk r" using t(2) b(3) by (auto simp: bc.stored_all_def)
  have "distinct (take k (lh_sector t))" using ft dis by (simp add: clean b(4) H)
  then obtain u where u: "for_each [0..<k] install_one t = Ok () u"
    "bc.stored_all (map (\<lambda>i. (lh_sector t ! i, blk t (log_blk (l_start t) i))) [0..<k]) t u"
    using install_loop [OF okt _ _ order.refl] dt by auto
  note fu = stored_logs [OF u(2)]
  let ?u = "u\<lparr>lh_n := 0\<rparr>"
  have oku: "log_ok ?u k" using fu(6) [OF okt] by (simp add: log_ok_def)
  have du: "dirt u = {}" using u(2) dt by (auto simp: bc.stored_all_def)
  obtain w h where w: "write_head ?u = Ok () w" "bc.stored_all [(st, h)] ?u w"
    using write_head_Ok [OF oku] du ft fu b(4) by auto
  have "recover_from_log r = Ok () w" using t(1) u(1) w(1) ft fu by (simp add: recover_from_log_def install_trans_def)
  moreover have "memdisk w = disk_puts (map (\<lambda>i. (rd32 H (Suc i), memdisk r ! unat (log_blk st i))) [0..<k] @ [(st, h)]) (memdisk r)"
  proof -
    have e: "map (\<lambda>i. (lh_sector t ! i, blk t (log_blk (l_start t) i))) [0..<k] =
        map (\<lambda>i. (rd32 H (Suc i), memdisk r ! unat (log_blk st i))) [0..<k]"
      using sec ft b(4) dt clean by simp
    show ?thesis using u(2) [unfolded e] w(2) dt by (simp add: bc.stored_all_def)
  qed
  ultimately show ?thesis by blast
qed

text \<open>What recovery makes of the blocks below the log.\<close>

lemma recover_below:
  assumes r: "booted st r" and H: "H = memdisk r ! unat st" and k: "rd32 H 0 = of_nat k" "k \<le> 29"
    and room: "unat st + k < length (memdisk r)" and below: "\<forall>i<k. unat (rd32 H (Suc i)) < unat st"
    and dis: "distinct (map (\<lambda>i. rd32 H (Suc i)) [0..<k])"
  shows "\<exists>u. recover_from_log r = Ok () u \<and>
    (\<forall>i<k. memdisk u ! unat (rd32 H (Suc i)) = memdisk r ! unat (log_blk st i)) \<and>
    (\<forall>x<unat st. (\<forall>i<k. unat (rd32 H (Suc i)) \<noteq> x) \<longrightarrow> memdisk u ! x = memdisk r ! x)"
proof -
  obtain u h where u: "recover_from_log r = Ok () u"
    "memdisk u = disk_puts (map (\<lambda>i. (rd32 H (Suc i), memdisk r ! unat (log_blk st i))) [0..<k] @ [(st, h)]) (memdisk r)"
    using recover_Ok [OF assms] by blast
  have inj: "j = i" if "i < k" "j < k" "unat (rd32 H (Suc j)) = unat (rd32 H (Suc i))" for i j
    using dis that by (auto simp: distinct_conv_nth word_unat_eq_iff)
  have "memdisk u ! unat (rd32 H (Suc i)) = memdisk r ! unat (log_blk st i)" if "i < k" for i
    using u(2) fold_disk_map [of k "\<lambda>i. rd32 H (Suc i)" i "memdisk r" "\<lambda>i. memdisk r ! unat (log_blk st i)"]
      inj [OF that] that below room by auto
  moreover have "memdisk u ! x = memdisk r ! x" if "x < unat st" "\<forall>i<k. unat (rd32 H (Suc i)) \<noteq> x" for x
    using u(2) that by (simp add: fold_disk_other)
  ultimately show ?thesis using u(1) by blast
qed

section \<open>Crash atomicity\<close>

definition same_below :: "u32 \<Rightarrow> byte list list \<Rightarrow> byte list list \<Rightarrow> bool" where
  "same_below st d e \<longleftrightarrow> (\<forall>x<unat st. d ! x = e ! x)"

text \<open>The disk when the first \<open>k\<close> writes of a trace have reached it.\<close>

definition replay :: "(nat \<times> byte list) list \<Rightarrow> byte list list \<Rightarrow> byte list list" where
  "replay w d = fold (\<lambda>(n, c) d. d[n := c]) w d"

lemma replay_puts: "replay (map (\<lambda>(n, d). (unat n, d)) ps) d = disk_puts ps d"
  by (induction ps arbitrary: d) (auto simp: replay_def)

text \<open>The disk below the log once the transaction has been installed.\<close>

lemma home_puts:
  assumes ok: "log_ok s n" and dis: "distinct (take n (lh_sector s))" and j: "j \<le> n"
  shows "i < j \<Longrightarrow> length d = length (memdisk s) \<Longrightarrow>
      disk_puts (take j (to_home s n)) d ! unat (lh_sector s ! i) = blk s (lh_sector s ! i)"
    and "(\<forall>i<j. unat (lh_sector s ! i) \<noteq> x) \<Longrightarrow> disk_puts (take j (to_home s n)) d ! x = d ! x"
proof -
  have e: "take j (to_home s n) = map (\<lambda>i. (lh_sector s ! i, blk s (lh_sector s ! i))) [0..<j]"
    using j by (simp add: to_home_def take_map)
  have len: "length (lh_sector s) = 30" "n \<le> 29" using ok by (auto simp: log_ok_def)
  have inj: "a = i" if "a < j" "i < j" "unat (lh_sector s ! a) = unat (lh_sector s ! i)" for a i
    using nth_eq_iff_index_eq [OF dis, of a i] that j len by (simp add: word_unat_eq_iff)
  show "disk_puts (take j (to_home s n)) d ! unat (lh_sector s ! i) = blk s (lh_sector s ! i)"
    if "i < j" "length d = length (memdisk s)"
    unfolding e
    by (rule fold_disk_map [where g = "\<lambda>i. lh_sector s ! i"]) (use that inj j log_ok_blk(3) [OF ok, of i] in simp_all)
  show "disk_puts (take j (to_home s n)) d ! x = d ! x" if "\<forall>i<j. unat (lh_sector s ! i) \<noteq> x"
    unfolding e using that by (intro fold_disk_other) auto
qed

lemma log_puts:
  assumes ok: "log_ok s n"
  shows "i < n \<Longrightarrow> disk_puts (to_log s n) (memdisk s) ! unat (log_blk (l_start s) i) = blk s (lh_sector s ! i)"
    and "x \<le> unat (l_start s) \<Longrightarrow> disk_puts (take k (to_log s n)) d ! x = d ! x"
proof -
  have b: "unat (log_blk (l_start s) j) = unat (l_start s) + j + 1" if "j < n" for j using log_ok_blk(1) [OF ok that] .
  show "disk_puts (to_log s n) (memdisk s) ! unat (log_blk (l_start s) i) = blk s (lh_sector s ! i)" if "i < n"
    unfolding to_log_def
    by (rule fold_disk_map [where g = "log_blk (l_start s)"]) (use that log_ok_blk(2) [OF ok] b in simp_all)
  show "disk_puts (take k (to_log s n)) d ! x = d ! x" if "x \<le> unat (l_start s)"
    using that b by (intro fold_disk_other) (auto simp: to_log_def dest!: in_set_takeD)
qed

text \<open>Crash after the point of commit and before the header has been erased.\<close>

lemma crash_committed:
  assumes tr: "trans_ok s n" and j: "j \<le> n" and r: "booted (l_start s) r"
    and d: "memdisk r = disk_puts (to_log s n @ [(l_start s, head_full s)] @ take j (to_home s n)) (memdisk s)"
  shows "\<exists>u. recover_from_log r = Ok () u \<and> same_below (l_start s) (memdisk u) (disk_puts (to_home s n) (memdisk s))"
proof -
  let ?st = "l_start s" and ?sec = "\<lambda>i. lh_sector s ! i"
  have ok: "log_ok s n" and n: "lh_n s = int n" "n \<le> 29" and dis: "distinct (take n (lh_sector s))"
    and len: "length (lh_sector s) = 30" "unat ?st + n < length (memdisk s)"
    and l5: "length (memdisk s ! unat ?st) = 512" and below: "\<forall>i<n. unat (?sec i) < unat ?st"
    using tr by (auto simp: trans_ok_def log_ok_def)
  let ?l = "disk_puts (to_log s n) (memdisk s)"
  have dr: "memdisk r = disk_puts (take j (to_home s n)) (?l[unat ?st := head_full s])" using d by simp
  have out: "\<forall>i<j. unat (?sec i) \<noteq> x" if "unat ?st \<le> x" for x using below j that by (metis leD less_le_trans)
  have H: "memdisk r ! unat ?st = head_full s"
    unfolding dr using home_puts(2) [OF ok dis j out] len by simp
  have hb: "rd32 (head_full s) 0 = of_nat n" "\<And>i. i < n \<Longrightarrow> rd32 (head_full s) (Suc i) = ?sec i"
    using head_block [OF l5, where n = n and secs = "lh_sector s"] n by (auto simp: head_full_def)
  have secs: "map (\<lambda>i. rd32 (head_full s) (Suc i)) [0..<n] = take n (lh_sector s)"
    using hb(2) len n by (intro nth_equalityI) auto
  have lr: "length (memdisk r) = length (memdisk s)" using dr by simp
  obtain u where u: "recover_from_log r = Ok () u"
    "\<forall>i<n. memdisk u ! unat (rd32 (head_full s) (Suc i)) = memdisk r ! unat (log_blk ?st i)"
    "\<forall>x<unat ?st. (\<forall>i<n. unat (rd32 (head_full s) (Suc i)) \<noteq> x) \<longrightarrow> memdisk u ! x = memdisk r ! x"
    using recover_below [OF r H [symmetric] hb(1) n(2)] len(2) lr hb(2) below dis secs by auto
  have "memdisk u ! x = disk_puts (to_home s n) (memdisk s) ! x" if x: "x < unat ?st" for x
  proof (cases "\<exists>i<n. unat (?sec i) = x")
    case True
    then obtain i where i: "i < n" "unat (?sec i) = x" by blast
    have lb: "unat (log_blk ?st i) = unat ?st + i + 1" by (rule log_ok_blk(1) [OF ok i(1)])
    have "memdisk r ! unat (log_blk ?st i) = blk s (?sec i)"
      unfolding dr using home_puts(2) [OF ok dis j out, of "unat (log_blk ?st i)"] lb log_puts(1) [OF ok i(1)] by simp
    moreover have "disk_puts (to_home s n) (memdisk s) ! x = blk s (?sec i)"
      using home_puts(1) [OF ok dis order.refl i(1) refl] i(2) by (simp add: to_home_def)
    ultimately show ?thesis using u(2) hb(2) i by auto
  next
    case False
    then have "memdisk r ! x = memdisk s ! x" unfolding dr
      using home_puts(2) [OF ok dis j, of x "?l[unat ?st := head_full s]"] j x log_puts(2) [OF ok, of x n "memdisk s"]
      by (simp add: to_log_def)
    moreover have "disk_puts (to_home s n) (memdisk s) ! x = memdisk s ! x"
      using home_puts(2) [OF ok dis order.refl, of x "memdisk s"] False by (simp add: to_home_def)
    ultimately show ?thesis using u(3) hb(2) False x by auto
  qed
  then show ?thesis using u(1) by (auto simp: same_below_def)
qed

text \<open>Crash while the header on the disk says that the log is empty.\<close>

lemma crash_empty:
  assumes "booted st r" and "rd32 (memdisk r ! unat st) 0 = 0" and "unat st < length (memdisk r)"
  shows "\<exists>u. recover_from_log r = Ok () u \<and> same_below st (memdisk u) (memdisk r)"
  using recover_below [OF assms(1) refl, of 0] assms(2,3) by (auto simp: same_below_def)

lemma commit_writes_take:
  "take k (commit_writes s n) =
     (if k \<le> n then take k (to_log s n)
      else if k \<le> 2 * n + 1 then to_log s n @ [(l_start s, head_full s)] @ take (k - n - 1) (to_home s n)
      else commit_writes s n)"
  by (auto simp: commit_writes_def to_log_def to_home_def take_Cons' not_le)

lemma disk_puts_cong: "d ! x = e ! x \<Longrightarrow> length d = length e \<Longrightarrow> disk_puts ps d ! x = disk_puts ps e ! x"
proof (induction ps arbitrary: d e)
  case (Cons p ps)
  obtain a b where p: "p = (a, b)" by force
  have "d[unat a := b] ! x = e[unat a := b] ! x" using Cons.prems by (simp add: nth_update)
  then show ?case unfolding p using Cons.IH [of "d[unat a := b]" "e[unat a := b]"] Cons.prems by simp
qed simp

lemma commit_puts_below:
  assumes "log_ok s n"
  shows "same_below (l_start s) (disk_puts (commit_writes s n) (memdisk s)) (disk_puts (to_home s n) (memdisk s))"
proof -
  let ?e = "disk_puts (to_log s n @ [(l_start s, head_full s)]) (memdisk s)"
  have "?e ! x = memdisk s ! x" if "x < unat (l_start s)" for x
    using that log_puts(2) [OF assms, of x n "memdisk s"] by (simp add: to_log_def)
  then show ?thesis using disk_puts_cong [of ?e _ "memdisk s" "to_home s n"]
    by (auto simp: same_below_def commit_writes_def)
qed

section \<open>Inside a transaction\<close>

text \<open>
  \<open>logged s\<close>: the blocks the transaction has changed so far. \<open>tx s\<close>: a system call is inside a
  transaction; the changed blocks are those with a dirty buffer, so commit will find them.
  \<open>room s m\<close>: \<open>log_write\<close> can take \<open>m\<close> more blocks.
\<close>

definition logged :: "'z logs_scheme \<Rightarrow> u32 list" where
  "logged s = take (nat (lh_n s)) (lh_sector s)"

definition tx :: "'z logs_scheme \<Rightarrow> bool" where
  "tx s \<longleftrightarrow> cache_rdy s \<and> l_dev s = 1 \<and> 1 \<le> l_outstanding s \<and> 0 \<le> lh_n s \<and> lh_n s \<le> 30 \<and>
     length (lh_sector s) = 30 \<and> distinct (logged s) \<and> dirt s = set (logged s)"

definition room :: "'z logs_scheme \<Rightarrow> nat \<Rightarrow> bool" where
  "room s m \<longleftrightarrow> lh_n s + int m \<le> 29 \<and> lh_n s + int m \<le> l_size s - 1"

definition ins :: "'a \<Rightarrow> 'a list \<Rightarrow> 'a list" where
  "ins x xs = (if x \<in> set xs then xs else xs @ [x])"

definition log_frame :: "'z logs_scheme \<Rightarrow> 'z logs_scheme \<Rightarrow> bool" where
  "log_frame s t \<longleftrightarrow> t = s\<lparr>bufs := bufs t, memdisk := memdisk t, wtrace := wtrace t, ptable := ptable t,
     lh_n := lh_n t, lh_sector := lh_sector t\<rparr>"

lemma log_frame_iff:
  "log_frame s t \<longleftrightarrow> (\<exists>B M W P n x. t = s\<lparr>bufs := B, memdisk := M, wtrace := W, ptable := P, lh_n := n, lh_sector := x\<rparr>)"
  unfolding log_frame_def
proof
  assume "t = s\<lparr>bufs := bufs t, memdisk := memdisk t, wtrace := wtrace t, ptable := ptable t, lh_n := lh_n t, lh_sector := lh_sector t\<rparr>"
  then show "\<exists>B M W P n x. t = s\<lparr>bufs := B, memdisk := M, wtrace := W, ptable := P, lh_n := n, lh_sector := x\<rparr>" by (intro exI)
qed auto

lemma log_frame_refl: "log_frame s s"
  by (simp add: log_frame_def)

lemma log_frame_trans: "log_frame s t \<Longrightarrow> log_frame t u \<Longrightarrow> log_frame s u"
  unfolding log_frame_iff by (elim exE) (simp, blast)

lemma cache_log_frame: "cache_frame s t \<Longrightarrow> log_frame s t"
  by (cases s, cases t) (simp add: cache_frame_def log_frame_def)

lemma tx_length: "tx s \<Longrightarrow> int (length (logged s)) = lh_n s"
  by (auto simp: tx_def logged_def min_def)

lemma tx_card: "tx s \<Longrightarrow> card (dirt s) = nat (lh_n s)"
  using tx_length [of s] by (simp add: tx_def distinct_card)

lemma tx_frame:
  assumes "tx s" and "cache_frame s t" and "cache_rdy t" and "dirt t = dirt s"
  shows "tx t" and "logged t = logged s" and "lh_n t = lh_n s" and "room t m = room s m"
  using assms frame_logs [OF assms(2)] by (auto simp: tx_def logged_def room_def)

lemma log_slot_absorb:
  assumes "i < nat n" and "xs ! i = x" and "nat n \<le> length xs" and "distinct (take (nat n) xs)"
  shows "log_slot n xs x = i"
proof -
  have "find_idx (\<lambda>y. y = x) (take (nat n) xs) = Some i"
    using assms nth_eq_iff_index_eq [OF assms(4), of _ i] by (auto simp: find_idx_Some)
  then show ?thesis by (simp add: log_slot_def)
qed

lemma log_slot_new: "x \<notin> set (take (nat n) xs) \<Longrightarrow> log_slot n xs x = nat n"
  using find_idx_None [of "\<lambda>y. y = x" "take (nat n) xs"] by (auto simp: log_slot_def split: option.splits)

lemma log_upd_swap: "s\<lparr>lh_sector := x, lh_n := y\<rparr> = s\<lparr>lh_n := y, lh_sector := x\<rparr>"
  by (cases s) simp

lemma log_write_law:
  fixes s :: "'z logs_scheme"
  assumes t: "tx s" and r: "room s 1" and p: "pin s b = Some n"
  shows "\<exists>t. log_write b s = Ok () t \<and> log_frame s t \<and> tx t \<and> logged t = ins n (logged s) \<and> pin t = pin s \<and>
    blk t = blk s \<and> memdisk t = memdisk s \<and> wtrace t = wtrace s"
proof -
  have c: "cache_rdy s" "0 \<le> lh_n s" "lh_n s \<le> 30" "length (lh_sector s) = 30" "distinct (logged s)" "dirt s = set (logged s)"
    using t by (auto simp: tx_def)
  have sec: "b_sector (bufs s ! b) = n" using p by (auto simp: pin_def split: if_splits)
  let ?i = "log_slot (lh_n s) (lh_sector s) n"
  let ?k = "if int ?i = lh_n s then lh_n s + 1 else lh_n s"
  let ?s = "s\<lparr>lh_n := ?k, lh_sector := (lh_sector s)[?i := n]\<rparr>"
  have guard: "\<not> lh_n s \<ge> 30" "\<not> lh_n s \<ge> l_size s - 1" "\<not> l_outstanding s < 1" using r t by (auto simp: room_def tx_def)
  have lg: "?i < 30 \<and> logged ?s = ins n (logged s) \<and> 0 \<le> ?k \<and> ?k \<le> 30"
  proof (cases "n \<in> set (logged s)")
    case True
    then obtain i where i: "i < nat (lh_n s)" "lh_sector s ! i = n"
      using c set_take_nth [of "nat (lh_n s)" "lh_sector s" n] by (auto simp: logged_def)
    then have e: "?i = i" using c by (intro log_slot_absorb) (auto simp: logged_def)
    have "(lh_sector s)[i := n] = lh_sector s" using i by (metis list_update_id)
    then show ?thesis using e i True c by (auto simp: logged_def ins_def)
  next
    case False
    then have e: "?i = nat (lh_n s)" by (intro log_slot_new) (simp add: logged_def)
    then show ?thesis using False c guard
      by (auto simp: logged_def ins_def nat_add_distrib take_Suc_conv_app_nth)
  qed
  have p1: "pin ?s b = Some n" "cache_rdy ?s" using p c by simp_all
  obtain u where u: "mark_dirty b ?s = Ok () u" "cache_frame ?s u" "cache_rdy u" "pin u = pin ?s" "blk u = blk ?s"
    "dirt u = insert n (dirt ?s)" "memdisk u = memdisk ?s" "wtrace u = wtrace ?s"
    using bc.mark_law [OF p1(2,1)] by blast
  note fu = frame_logs [OF u(2)]
  have run: "log_write b s = Ok () u"
    using guard sec lg u(1)
    by (simp add: log_write_def set_sector_def Let_def log_upd_swap split: if_splits)
  have l: "logged u = ins n (logged s)" using fu lg by (simp add: logged_def)
  moreover have "l_dev u = 1" "1 \<le> l_outstanding u" "0 \<le> lh_n u" "lh_n u \<le> 30" "length (lh_sector u) = 30"
    using fu lg c t by (simp_all add: tx_def)
  moreover have "distinct (ins n (logged s))" "dirt u = set (ins n (logged s))" using c u(6) by (auto simp: ins_def)
  ultimately have "tx u" unfolding tx_def using u(3) by simp
  moreover have "log_frame s ?s" by (cases s) (simp add: log_frame_def)
  then have "log_frame s u" using log_frame_trans cache_log_frame [OF u(2)] by blast
  ultimately show ?thesis using run u l by auto
qed

text \<open>
  The contract that the file system relies on inside a transaction: blocks are read and held,
  changed, logged and released. \<open>spare s m\<close> says that \<open>m\<close> more blocks can be logged.
\<close>

locale tx_blocks =
  fixes rd :: "u32 \<Rightarrow> ('s, nat) kfun" and lw rel :: "nat \<Rightarrow> ('s, unit) kfun"
    and put :: "nat \<Rightarrow> byte list \<Rightarrow> ('s, unit) kfun" and look :: "nat \<Rightarrow> ('s, byte list) kfun"
    and ok :: "'s \<Rightarrow> bool" and content :: "'s \<Rightarrow> u32 \<Rightarrow> byte list" and pins :: "'s \<Rightarrow> nat \<Rightarrow> u32 option"
    and lg :: "'s \<Rightarrow> u32 list" and disk :: "'s \<Rightarrow> byte list list" and spare :: "'s \<Rightarrow> nat \<Rightarrow> bool"
    and frame :: "'s \<Rightarrow> 's \<Rightarrow> bool"
  assumes frame_refl: "frame s s"
    and frame_trans: "frame s t \<Longrightarrow> frame t u \<Longrightarrow> frame s u"
    and rd_law: "ok s \<Longrightarrow> unat n < length (disk s) \<Longrightarrow> n \<notin> ran (pins s) \<Longrightarrow>
      card (dom (pins s)) + length (lg s) < 30 \<or> n \<in> set (lg s) \<Longrightarrow>
      \<exists>b t. rd n s = Ok b t \<and> frame s t \<and> ok t \<and> pins s b = None \<and> pins t = (pins s)(b \<mapsto> n) \<and>
        content t = content s \<and> lg t = lg s \<and> disk t = disk s"
    and look_law: "ok s \<Longrightarrow> pins s b = Some n \<Longrightarrow> look b s = Ok (content s n) s"
    and put_law: "ok s \<Longrightarrow> pins s b = Some n \<Longrightarrow>
      \<exists>t. put b d s = Ok () t \<and> frame s t \<and> ok t \<and> pins t = pins s \<and> content t = (content s)(n := d) \<and>
        lg t = lg s \<and> disk t = disk s"
    and lw_law: "ok s \<Longrightarrow> spare s 1 \<Longrightarrow> pins s b = Some n \<Longrightarrow>
      \<exists>t. lw b s = Ok () t \<and> frame s t \<and> ok t \<and> pins t = pins s \<and> content t = content s \<and>
        lg t = ins n (lg s) \<and> disk t = disk s"
    and rel_law: "ok s \<Longrightarrow> pins s b = Some n \<Longrightarrow> n \<in> set (lg s) \<or> content s n = disk s ! unat n \<Longrightarrow>
      \<exists>t. rel b s = Ok () t \<and> frame s t \<and> ok t \<and> pins t = (pins s)(b := None) \<and> content t = content s \<and>
        lg t = lg s \<and> disk t = disk s"
    and clean_law: "ok s \<Longrightarrow> n \<notin> ran (pins s) \<Longrightarrow> n \<notin> set (lg s) \<Longrightarrow> content s n = disk s ! unat n"
    and spare_law: "ok s \<Longrightarrow> ok t \<Longrightarrow> frame s t \<Longrightarrow> spare s m \<Longrightarrow> length (lg t) + k \<le> length (lg s) + m \<Longrightarrow> spare t k"
    and spare_max: "ok s \<Longrightarrow> spare s m \<Longrightarrow> length (lg s) + m \<le> 29"

context tx_blocks
begin

definition same :: "'s \<Rightarrow> 's \<Rightarrow> bool" where
  "same s t \<longleftrightarrow> frame s t \<and> ok t \<and> pins t = pins s \<and> content t = content s \<and> lg t = lg s \<and> disk t = disk s"

definition changed :: "u32 \<Rightarrow> byte list \<Rightarrow> 's \<Rightarrow> 's \<Rightarrow> bool" where
  "changed n d s t \<longleftrightarrow> frame s t \<and> ok t \<and> pins t = pins s \<and> content t = (content s)(n := d) \<and> lg t = ins n (lg s) \<and> disk t = disk s"

lemma same_refl: "ok s \<Longrightarrow> same s s"
  by (simp add: same_def frame_refl)

lemma same_trans: "same s t \<Longrightarrow> same t u \<Longrightarrow> same s u"
  using frame_trans [of s t u] by (simp add: same_def)

lemma same_changed: "same s t \<Longrightarrow> changed n d t u \<Longrightarrow> changed n d s u"
  using frame_trans [of s t u] by (simp add: same_def changed_def)

lemma changed_same: "changed n d s t \<Longrightarrow> same t u \<Longrightarrow> changed n d s u"
  using frame_trans [of s t u] by (simp add: same_def changed_def)

lemma length_ins: "length (ins x xs) \<le> Suc (length xs)"
  by (simp add: ins_def)

lemma changed_spare: "ok s \<Longrightarrow> changed n d s t \<Longrightarrow> spare s (Suc m) \<Longrightarrow> spare t m"
  using length_ins [of n "lg s"] by (intro spare_law [of s t "Suc m"]) (auto simp: changed_def)

lemma same_spare: "ok s \<Longrightarrow> same s t \<Longrightarrow> spare s m \<Longrightarrow> spare t m"
  by (intro spare_law [of s t m]) (auto simp: same_def)

lemma held_read:
  assumes "ok s" and "unat n < length (disk s)" and "n \<notin> ran (pins s)" and "card (dom (pins s)) + length (lg s) < 30 \<or> n \<in> set (lg s)"
  shows "\<exists>t. bnd (rd n) (\<lambda>b. bnd (look b) (\<lambda>d. thn (rel b) (ret (g d)))) s = Ok (g (content s n)) t \<and> same s t"
proof -
  obtain b t where t: "rd n s = Ok b t" "frame s t" "ok t" "pins s b = None" "pins t = (pins s)(b \<mapsto> n)"
    "content t = content s" "lg t = lg s" "disk t = disk s"
    using rd_law [OF assms] by blast
  have p: "pins t b = Some n" using t by simp
  have c: "n \<in> set (lg t) \<or> content t n = disk t ! unat n" using clean_law [OF assms(1,3)] t by auto
  obtain u where u: "rel b t = Ok () u" "frame t u" "ok u" "pins u = (pins t)(b := None)"
    "content u = content t" "lg u = lg t" "disk u = disk t"
    using rel_law [OF t(3) p c] by blast
  have "pins u = pins s" using u(4) t(4,5) by (simp add: fun_upd_idem)
  then show ?thesis using t u look_law [OF t(3) p] frame_trans [OF t(2) u(2)] by (intro exI [of _ u]) (simp add: same_def)
qed

text \<open>From a held block on: change it, log it, release it.\<close>

lemma finish_update:
  assumes "ok t" and "pins t b = Some n" and "spare t 1"
  shows "\<exists>u. thn (put b d) (thn (lw b) (rel b)) t = Ok () u \<and> frame t u \<and> ok u \<and> pins u = (pins t)(b := None) \<and>
    content u = (content t)(n := d) \<and> lg u = ins n (lg t) \<and> disk u = disk t"
proof -
  obtain v where v: "put b d t = Ok () v" "frame t v" "ok v" "pins v = pins t" "content v = (content t)(n := d)"
    "lg v = lg t" "disk v = disk t" using put_law [OF assms(1,2)] by blast
  have sp: "spare v 1" by (rule spare_law [OF assms(1) v(3,2) assms(3)]) (simp add: v)
  obtain w where w: "lw b v = Ok () w" "frame v w" "ok w" "pins w = pins v" "content w = content v" "lg w = ins n (lg v)" "disk w = disk v"
    using lw_law [OF v(3) sp] v(4) assms(2) by auto
  have i: "n \<in> set (lg w) \<or> content w n = disk w ! unat n" using w(6) by (simp add: ins_def)
  have pw: "pins w b = Some n" using w(4) v(4) assms(2) by simp
  obtain x where x: "rel b w = Ok () x" "frame w x" "ok x" "pins x = (pins w)(b := None)" "content x = content w" "lg x = lg w" "disk x = disk w"
    using rel_law [OF w(3) pw i] by blast
  have "frame t x" using v(2) w(2) x(2) frame_trans by blast
  then show ?thesis using v w x by (intro exI [of _ x]) simp
qed

lemma update_block:
  assumes "ok s" and "unat n < length (disk s)" and "n \<notin> ran (pins s)" and "card (dom (pins s)) \<le> 1" and "spare s 1"
  shows "\<exists>t. bnd (rd n) (\<lambda>b. bnd (look b) (\<lambda>d. thn (put b (f d)) (thn (lw b) (rel b)))) s = Ok () t \<and>
    changed n (f (content s n)) s t"
proof -
  have "card (dom (pins s)) + length (lg s) < 30 \<or> n \<in> set (lg s)" using spare_max [OF assms(1,5)] assms(4) by simp
  then obtain b t where t: "rd n s = Ok b t" "frame s t" "ok t" "pins s b = None" "pins t = (pins s)(b \<mapsto> n)"
    "content t = content s" "lg t = lg s" "disk t = disk s"
    using rd_law [OF assms(1-3)] by blast
  have p: "pins t b = Some n" using t by simp
  have sp: "spare t 1" by (rule spare_law [OF assms(1) t(3,2) assms(5)]) (simp add: t)
  obtain u where u: "thn (put b (f (content s n))) (thn (lw b) (rel b)) t = Ok () u" "frame t u" "ok u" "pins u = (pins t)(b := None)"
    "content u = (content t)(n := f (content s n))" "lg u = ins n (lg t)" "disk u = disk t"
    using finish_update [OF t(3) p sp] by blast
  have "pins u = pins s" using u(4) t(4,5) by (simp add: fun_upd_idem)
  then show ?thesis using t u look_law [OF t(3) p] frame_trans [OF t(2) u(2)]
    by (intro exI [of _ u]) (simp add: changed_def)
qed

end

interpretation tb: tx_blocks "bread 1" log_write brelse put_data look_data tx blk pin logged memdisk room log_frame
proof (unfold_locales, goal_cases)
  case 1 then show ?case by (rule log_frame_refl)
next
  case 2 then show ?case by (rule log_frame_trans)
next
  case (3 s n)
  then have c: "cache_rdy s" "card (dirt s) = length (logged s)" "dirt s = set (logged s)"
    using tx_card [of s] tx_length [of s] by (auto simp: tx_def)
  have r: "card (dom (pin s)) + card (dirt s) < 30 \<or> n \<in> dirt s" using 3(4) c by simp
  obtain b t where t: "bread 1 n s = Ok b t" "cache_frame s t" "cache_rdy t" "pin s b = None" "pin t = (pin s)(b \<mapsto> n)"
    "blk t = blk s" "dirt t = dirt s" "memdisk t = memdisk s" using bc.rd_law [OF c(1) 3(2,3) r] by blast
  then show ?case using tx_frame [OF 3(1) t(2,3,7)] cache_log_frame by blast
next
  case 4 then show ?case by (intro bc.look_law) (simp_all add: tx_def)
next
  case (5 s b n d)
  then have "cache_rdy s" by (simp add: tx_def)
  from bc.put_law [OF this 5(2), of d] obtain t where t: "put_data b d s = Ok () t" "cache_frame s t" "cache_rdy t"
    "pin t = pin s" "blk t = (blk s)(n := d)" "dirt t = dirt s" "memdisk t = memdisk s" by blast
  then show ?case using tx_frame [OF 5(1) t(2,3,6)] cache_log_frame by blast
next
  case 6 then show ?case using log_write_law by blast
next
  case (7 s b n)
  then have c: "cache_rdy s" "n \<in> dirt s \<or> blk s n = memdisk s ! unat n" by (auto simp: tx_def)
  from bc.rel_law [OF c(1) 7(2) c(2)] obtain t where t: "brelse b s = Ok () t" "cache_frame s t" "cache_rdy t"
    "pin t = (pin s)(b := None)" "blk t = blk s" "dirt t = dirt s" "memdisk t = memdisk s" by blast
  then show ?case using tx_frame [OF 7(1) t(2,3,6)] cache_log_frame by blast
next
  case 8 then show ?case by (intro bc.clean_law) (auto simp: tx_def)
next
  case (9 s t m k)
  then show ?case using tx_length [of s] tx_length [of t] by (auto simp: room_def log_frame_iff)
next
  case (10 s m)
  then show ?case using tx_length [of s] by (auto simp: room_def)
qed

section \<open>Properties\<close>

text \<open>
  C17. \<^bold>\<open>Transactions are atomic across crashes\<close>. Let \<open>s\<close> be a state in which a transaction that
  changed \<open>n\<close> blocks is ready to commit. \<open>commit\<close> succeeds and leaves the new contents at their home
  locations. If the machine stops after any number \<open>k\<close> of the disk writes of \<open>commit\<close> and boots with
  the disk as it is then, \<open>recover_from_log\<close> succeeds, and all blocks below the log are either as
  before the transaction or as after it.
\<close>

theorem commit_crash_atomic:
  fixes s :: "'z logs_scheme"
  assumes tr: "trans_ok s n"
  shows "\<exists>t w. commit s = Ok () t \<and> wtrace t = wtrace s @ w \<and>
    (\<forall>i<n. memdisk t ! unat (lh_sector s ! i) = blk s (lh_sector s ! i)) \<and>
    (\<forall>k (r :: 'z logs_scheme). booted (l_start s) r \<longrightarrow> memdisk r = replay (take k w) (memdisk s) \<longrightarrow>
      (\<exists>u. recover_from_log r = Ok () u \<and>
        (same_below (l_start s) (memdisk u) (memdisk s) \<or> same_below (l_start s) (memdisk u) (memdisk t))))"
proof -
  let ?st = "l_start s" and ?cw = "commit_writes s n"
  have ok: "log_ok s n" and dis: "distinct (take n (lh_sector s))" and n: "lh_n s = int n" "n \<le> 29" and l: "unat ?st < length (memdisk s)"
    and l5: "length (memdisk s ! unat ?st) = 512" and h0: "rd32 (memdisk s ! unat ?st) 0 = 0"
    using tr by (auto simp: trans_ok_def log_ok_def)
  obtain t where t: "commit s = Ok () t" "bc.stored_all ?cw (s\<lparr>lh_n := 0\<rparr>) t" using commit_Ok [OF tr] by blast
  then have m: "memdisk t = disk_puts ?cw (memdisk s)" and w: "wtrace t = wtrace s @ map (\<lambda>(n, d). (unat n, d)) ?cw"
    by (simp_all add: bc.stored_all_def)
  note cb = commit_puts_below [OF ok, folded m]
  have "memdisk t ! unat (lh_sector s ! i) = blk s (lh_sector s ! i)" if "i < n" for i
  proof -
    have "unat (lh_sector s ! i) < unat ?st" using ok that by (simp add: log_ok_def)
    then show ?thesis using cb home_puts(1) [OF ok dis order.refl that refl] by (simp add: same_below_def to_home_def)
  qed
  moreover have "\<exists>u. recover_from_log r = Ok () u \<and> (same_below ?st (memdisk u) (memdisk s) \<or> same_below ?st (memdisk u) (memdisk t))"
    if r: "booted ?st r" and d: "memdisk r = replay (take k (map (\<lambda>(n, d). (unat n, d)) ?cw)) (memdisk s)"
    for k and r :: "'z logs_scheme"
  proof -
    have d: "memdisk r = disk_puts (take k ?cw) (memdisk s)" using d by (simp add: take_map replay_puts)
    consider "k \<le> n" | "n < k" "k \<le> 2 * n + 1" | "2 * n + 1 < k" by linarith
    then show ?thesis
    proof cases
      case 1
      then have e: "memdisk r ! x = memdisk s ! x" if "x \<le> unat ?st" for x
        using d log_puts(2) [OF ok that] by (simp add: commit_writes_take)
      then show ?thesis using crash_empty [OF r] h0 l d by (auto simp: same_below_def)
    next
      case 2
      then show ?thesis using crash_committed [OF tr _ r, of "k - n - 1"] d cb
        by (fastforce simp: commit_writes_take same_below_def)
    next
      case 3
      then have e: "memdisk r = memdisk t" using d m by (simp add: commit_writes_take)
      have "memdisk t ! unat ?st = head_block 0 (lh_sector s) (head_full s)" using m l by (simp add: commit_writes_def)
      moreover have "length (head_full s) = 512" using head_block(1) [OF l5] n by (simp add: head_full_def)
      ultimately have "rd32 (memdisk r ! unat ?st) 0 = 0" using head_block(2) [of "head_full s" 0] e by simp
      then show ?thesis using crash_empty [OF r] l e m by auto
    qed
  qed
  ultimately show ?thesis using t(1) w by blast
qed

text \<open>A machine with a disk of five sectors, the log in the last three, and a transaction open.\<close>

definition log0 :: logs where
  "log0 = disks.extend (cold\<lparr>memdisk := replicate 5 (replicate 512 0)\<rparr>) (logs.fields 2 3 1 False 1 0 (replicate 30 0))"

lemma log0_simps: "length (bufs log0) = 31" "\<forall>b<30. \<not> b_busy (bufs log0 ! b) \<and> \<not> b_dirty (bufs log0 ! b)" "held log0 = []"
  "memdisk log0 = replicate 5 (replicate 512 0)" "l_start log0 = 2" "l_size log0 = 3" "l_outstanding log0 = 1"
  "l_committing log0 = False" "l_dev log0 = 1" "lh_n log0 = 0" "lh_sector log0 = replicate 30 0"
  by (simp_all add: log0_def cold_def disks0_def buf0_def disks.defs logs.defs)

text \<open>A transaction that overwrites block 1.\<close>

definition one_change :: "('z, unit) logf" where
  "one_change = bnd (bread 1 1) (\<lambda>b. bnd (look_data b) (\<lambda>d. thn (put_data b (replicate 512 7)) (thn (log_write b) (brelse b))))"

lemma log0_change: "\<exists>s. thn binit one_change log0 = Ok () s \<and> trans_ok s 1 \<and> blk s 1 = replicate 512 7 \<and> lh_sector s ! 0 = 1 \<and>
    l_start s = 2 \<and> memdisk s = replicate 5 (replicate 512 0)"
proof -
  obtain t where t: "binit log0 = Ok () t" "t = log0\<lparr>bufs := bufs t\<rparr>" "ring (bufs t) (rev [0..<30])"
    using binit_ring [OF log0_simps(1,2)] by blast
  obtain B where B: "t = log0\<lparr>bufs := B\<rparr>" using t(2) by blast
  note ro = ring_ok [OF t(3)]
  have f: "held t = []" "memdisk t = replicate 5 (replicate 512 0)" "l_start t = 2" "l_size t = 3" "l_outstanding t = 1"
    "l_dev t = 1" "lh_n t = 0" "lh_sector t = replicate 30 0" unfolding B by (simp_all add: log0_simps)
  have "tx t" using ro f by (simp add: tx_def cache_rdy_def logged_def)
  moreover have "room t 1" using f by (simp add: room_def)
  ultimately obtain s where s: "one_change t = Ok () s" "tb.changed 1 (replicate 512 7) t s"
    using tb.update_block [of t 1 "\<lambda>_. replicate 512 7"] ro(3) f(2) by (auto simp: one_change_def)
  then have c: "tx s" "log_frame t s" "pin s = Map.empty" "blk s 1 = replicate 512 7" "logged s = [1]" "memdisk s = memdisk t"
    using ro(3) f by (auto simp: tb.changed_def ins_def logged_def)
  have g: "l_start s = 2" "l_dev s = 1" using c(2) f by (auto simp: log_frame_iff)
  have n: "lh_n s = 1" using tx_length [OF c(1)] c(5) by simp
  have h: "lh_sector s ! 0 = 1" "length (lh_sector s) = 30" "take 1 (lh_sector s) = [1]"
    using c(1,5) n by (auto simp: tx_def logged_def take_Suc_conv_app_nth)
  have "log_ok s 1" using c(1,3,6) f g h by (simp add: log_ok_def tx_def)
  moreover have "rd32 (replicate 512 0) 0 = 0" by (simp add: rd32_def slice_def word32_def mk32_def)
  ultimately have "trans_ok s 1" using c f g h n by (simp add: trans_ok_def tx_def logged_def)
  then show ?thesis using t(1) s(1) c f g h by auto
qed

theorem commit_crash_atomic_witness:
  "\<exists>s t w. thn binit one_change log0 = Ok () s \<and> commit s = Ok () t \<and> wtrace t = wtrace s @ w \<and>
    memdisk t ! 1 = replicate 512 7 \<and> (\<forall>r :: logs. booted 2 r \<longrightarrow> memdisk r = replay (take 2 w) (memdisk s) \<longrightarrow>
      (\<exists>u. recover_from_log r = Ok () u \<and> (memdisk u ! 1 = replicate 512 0 \<or> memdisk u ! 1 = replicate 512 7)))"
proof -
  obtain s where s: "thn binit one_change log0 = Ok () s" "trans_ok s 1" "blk s 1 = replicate 512 7" "lh_sector s ! 0 = 1"
    "l_start s = 2" "memdisk s = replicate 5 (replicate 512 0)" using log0_change by blast
  obtain t w where t: "commit s = Ok () t" "wtrace t = wtrace s @ w" "memdisk t ! 1 = replicate 512 7"
    and c: "\<forall>k (r :: logs). booted 2 r \<longrightarrow> memdisk r = replay (take k w) (memdisk s) \<longrightarrow>
      (\<exists>u. recover_from_log r = Ok () u \<and> (same_below 2 (memdisk u) (memdisk s) \<or> same_below 2 (memdisk u) (memdisk t)))"
    using commit_crash_atomic [OF s(2)] s(3-5) by auto
  have "same_below 2 d e \<Longrightarrow> d ! 1 = e ! 1" for d e by (simp add: same_below_def)
  then show ?thesis using s t c by (intro exI [of _ s] exI [of _ t] exI [of _ w]) fastforce
qed

text \<open>
  The change of a block as the file system makes it, and a run of such changes inside the
  reserved space.
\<close>

definition change_block :: "(byte list \<Rightarrow> byte list) \<Rightarrow> u32 \<Rightarrow> ('z, unit) logf" where
  "change_block f n = bnd (bread 1 n) (\<lambda>b. bnd (look_data b) (\<lambda>d. thn (put_data b (f d)) (thn (log_write b) (brelse b))))"

lemma change_blocks:
  "tx s \<Longrightarrow> pin s = Map.empty \<Longrightarrow> room s (length ns) \<Longrightarrow> distinct (logged s @ ns) \<Longrightarrow>
   \<forall>n\<in>set ns. unat n < length (memdisk s) \<Longrightarrow>
   \<exists>t. for_each ns (change_block f) s = Ok () t \<and> tx t \<and> pin t = Map.empty \<and> logged t = logged s @ ns \<and>
     memdisk t = memdisk s \<and> log_frame s t"
proof (induction ns arbitrary: s)
  case Nil
  then show ?case by (simp add: log_frame_refl)
next
  case (Cons n ns)
  have r: "room s 1" "room s (Suc (length ns))" using Cons.prems(3) by (auto simp: room_def)
  obtain t where t: "change_block f n s = Ok () t" "tb.changed n (f (blk s n)) s t"
    using tb.update_block [OF Cons.prems(1), of n f] Cons.prems(2,5) r(1) by (auto simp: change_block_def)
  have c: "tx t" "pin t = Map.empty" "logged t = logged s @ [n]" "memdisk t = memdisk s" "log_frame s t"
    using t(2) Cons.prems(2,4) by (auto simp: tb.changed_def ins_def)
  obtain u where u: "for_each ns (change_block f) t = Ok () u" "tx u" "pin u = Map.empty" "logged u = logged t @ ns"
      "memdisk u = memdisk t" "log_frame t u"
    using Cons.IH [OF c(1,2) tb.changed_spare [OF Cons.prems(1) t(2) r(2)]] Cons.prems(4,5) c by auto
  then show ?case using t(1) c log_frame_trans [OF c(5) u(6)] by auto
qed

lemma change_block_full:
  assumes "tx t" and "pin t = Map.empty" and "length (logged t) = 29" and "l_size t = 30" and "unat n < length (memdisk t)"
  shows "change_block f n t = Panic ''too big a transaction''"
proof -
  obtain b u where u: "bread 1 n t = Ok b u" "log_frame t u" "tx u" "pin u = (pin t)(b \<mapsto> n)" "logged u = logged t"
    using tb.rd_law [OF assms(1,5)] assms(2,3) by auto
  obtain v where v: "put_data b (f (blk u n)) u = Ok () v" "log_frame u v" "tx v" "logged v = logged u"
    using tb.put_law [OF u(3), of b n "f (blk u n)"] u(4) by auto
  have "lh_n v = 29" "l_size v = 30"
    using tx_length [OF v(3)] v(2,4) u(2,5) assms(3,4) by (auto simp: log_frame_iff)
  then show ?thesis
    using u v tb.look_law [OF u(3), of b n] by (simp add: change_block_def log_write_def)
qed

text \<open>
  C18. \<^bold>\<open>Reservation of log space\<close>. \<open>begin_op\<close> reserves ten blocks for each system call against
  \<open>LOGSIZE\<close>, thirty blocks, but \<open>log_write\<close> accepts only one block less than the size of the log,
  which \<^verbatim>\<open>mkfs\<close> also makes thirty. With an empty log of that size and a cache without changed
  blocks, three system calls are admitted one after the other; they can change 29 distinct
  blocks, no matter which, and then the next change of a block, within the thirty that they were
  promised, panics in \<open>log_write\<close>.
\<close>

theorem log_reservation_exceeds_log:
  fixes s :: "'z logs_scheme"
  assumes "cache_rdy s" and "pin s = Map.empty" and "dirt s = {}" and "LK_log \<notin> set (held s)" and "\<not> l_committing s"
    and "l_outstanding s = 0" and "lh_n s = 0" and "l_size s = 30" and "l_dev s = 1" and "length (lh_sector s) = 30"
    and "length ns = 29" and "distinct ns" and "\<forall>m\<in>insert n (set ns). unat m < length (memdisk s)"
  shows "thn begin_op (thn begin_op begin_op) s = Ok () (s\<lparr>l_outstanding := 3\<rparr>) \<and>
    (\<exists>t. for_each ns (change_block f) (s\<lparr>l_outstanding := 3\<rparr>) = Ok () t \<and> logged t = ns \<and> l_outstanding t = 3 \<and>
       change_block f n t = Panic ''too big a transaction'')"
proof -
  let ?s = "s\<lparr>l_outstanding := 3\<rparr>"
  have b: "thn begin_op (thn begin_op begin_op) s = Ok () ?s"
    using assms(4-7) by (simp add: begin_op_def begin_op_loop_def acquire_def release_def)
  have "tx ?s" "pin ?s = Map.empty" "room ?s (length ns)" "logged ?s = []" "memdisk ?s = memdisk s" "l_size ?s = 30"
    using assms cache_cong [of ?s s] by (simp_all add: tx_def room_def logged_def cache_rdy_def)
  moreover from this obtain t where t: "for_each ns (change_block f) ?s = Ok () t" "tx t" "pin t = Map.empty"
      "logged t = ns" "memdisk t = memdisk s" "log_frame ?s t"
    using change_blocks [of ?s ns f] assms(12,13) by auto
  moreover have "l_size t = 30" "l_outstanding t = 3" using t(6) assms(8) by (auto simp: log_frame_iff)
  ultimately show ?thesis
    using b change_block_full [of t n f] assms(11,13) by auto
qed

theorem log_reservation_exceeds_log_witness:
  "\<exists>s t. binit (log0\<lparr>l_outstanding := 0, l_size := 30, memdisk := replicate 40 (replicate 512 0)\<rparr>) = Ok () s \<and>
     thn begin_op (thn begin_op begin_op) s = Ok () (s\<lparr>l_outstanding := 3\<rparr>) \<and>
     for_each (map of_nat [0..<29]) (change_block (\<lambda>_. replicate 512 7)) (s\<lparr>l_outstanding := 3\<rparr>) = Ok () t \<and>
     change_block (\<lambda>_. replicate 512 7) 29 t = Panic ''too big a transaction''"
proof -
  let ?r = "log0\<lparr>l_outstanding := 0, l_size := 30, memdisk := replicate 40 (replicate 512 0)\<rparr>"
  let ?ns = "map of_nat [0..<29] :: u32 list"
  obtain s where s: "binit ?r = Ok () s" "s = ?r\<lparr>bufs := bufs s\<rparr>" "ring (bufs s) (rev [0..<30])"
    using binit_ring [of ?r] log0_simps(1,2) by auto
  obtain B where B: "s = ?r\<lparr>bufs := B\<rparr>" using s(2) by blast
  note ro = ring_ok [OF s(3)]
  have f: "held s = []" "memdisk s = replicate 40 (replicate 512 0)" "l_size s = 30" "l_outstanding s = 0"
    "l_dev s = 1" "lh_n s = 0" "lh_sector s = replicate 30 0" "\<not> l_committing s" unfolding B by (simp_all add: log0_simps)
  have u: "unat (of_nat i :: u32) = i" if "i < 40" for i using that by (simp add: unat_of_nat)
  have "distinct ?ns" unfolding distinct_map by (auto simp: inj_on_def dest!: arg_cong [of _ _ unat] simp: u)
  moreover have "\<forall>m\<in>insert 29 (set ?ns). unat m < length (memdisk s)" using u by (auto simp: f(2))
  ultimately show ?thesis
    using log_reservation_exceeds_log [of s ?ns 29 "\<lambda>_. replicate 512 7"] s(1) ro f by (auto simp: cache_rdy_def)
qed

end
