(* ===== verification/Inode.thy ===== *)
theory Inode
  imports Log
begin

unbundle bit_operations_syntax

text \<open>
  The lower half of \<^verbatim>\<open>fs.c\<close>: allocation of disk blocks and inodes, the cache of inodes in memory
  with its locking protocol, the mapping of file blocks to disk blocks, and truncation.
\<close>

section \<open>Disk layout\<close>

text \<open>The layout macros of \<^verbatim>\<open>fs.h\<close>: eight inodes of 64 bytes and 4096 bitmap bits in a block.\<close>

definition IBLOCK :: "u32 \<Rightarrow> u32" where
  "IBLOCK i = i div 8 + 2"

definition BBLOCK :: "u32 \<Rightarrow> u32 \<Rightarrow> u32" where
  "BBLOCK b ninodes = b div 4096 + ninodes div 8 + 3"

text \<open>\<^verbatim>\<open>struct dinode\<close>: its fields at their offsets in a block.\<close>

record dinode =
  d_type :: u16
  d_major :: u16
  d_minor :: u16
  d_nlink :: u16
  d_size :: u32
  d_addrs :: "u32 list"

definition get_dinode :: "nat \<Rightarrow> byte list \<Rightarrow> dinode" where
  "get_dinode k d = \<lparr>d_type = word16 (slice (64 * k) 2 d), d_major = word16 (slice (64 * k + 2) 2 d),
     d_minor = word16 (slice (64 * k + 4) 2 d), d_nlink = word16 (slice (64 * k + 6) 2 d),
     d_size = word32 (slice (64 * k + 8) 4 d),
     d_addrs = map (\<lambda>i. word32 (slice (64 * k + 12 + 4 * i) 4 d)) [0..<13]\<rparr>"

definition dinode_bytes :: "dinode \<Rightarrow> byte list" where
  "dinode_bytes x = bytes16 (d_type x) @ bytes16 (d_major x) @ bytes16 (d_minor x) @ bytes16 (d_nlink x) @
     bytes32 (d_size x) @ concat (map bytes32 (d_addrs x))"

definition put_dinode :: "nat \<Rightarrow> dinode \<Rightarrow> byte list \<Rightarrow> byte list" where
  "put_dinode k x d = patch (64 * k) (dinode_bytes x) d"

abbreviation (input) "T_DIR \<equiv> (1::u16)"
abbreviation (input) "T_FILE \<equiv> (2::u16)"
abbreviation (input) "T_DEV \<equiv> (3::u16)"

section \<open>Blocks\<close>

definition bzero :: "u32 \<Rightarrow> u32 \<Rightarrow> ('z, unit) logf" where
  "bzero dev bno =
     bnd (bread dev bno) (\<lambda>bp.
     thn (put_data bp (replicate BSIZE 0))
     (thn (log_write bp)
     (brelse bp)))"

text \<open>Bit \<open>bi\<close> of a bitmap block, and setting and clearing it.\<close>

definition bit_used :: "byte list \<Rightarrow> nat \<Rightarrow> bool" where
  "bit_used d bi \<longleftrightarrow> d ! (bi div 8) AND push_bit (bi mod 8) 1 \<noteq> 0"

definition set_used :: "nat \<Rightarrow> byte list \<Rightarrow> byte list" where
  "set_used bi d = d[bi div 8 := d ! (bi div 8) OR push_bit (bi mod 8) 1]"

definition set_unused :: "nat \<Rightarrow> byte list \<Rightarrow> byte list" where
  "set_unused bi d = d[bi div 8 := d ! (bi div 8) AND NOT (push_bit (bi mod 8) 1)]"

text \<open>
  \<open>balloc\<close>: the outer loop runs over the first block numbers \<open>b\<close> of the bitmap blocks, the inner
  loop over the bits of one of them that stand for blocks of the disk.
\<close>

primrec balloc_from :: "u32 \<Rightarrow> superblock \<Rightarrow> nat list \<Rightarrow> ('z, u32) logf" where
  "balloc_from dev sb [] = panic ''balloc: out of blocks''"
| "balloc_from dev sb (b # bs) =
     bnd (bread dev (BBLOCK (of_nat b) (sb_ninodes sb))) (\<lambda>bp.
     bnd (look_data bp) (\<lambda>d.
     case find (\<lambda>bi. \<not> bit_used d bi) [0..<min 4096 (unat (sb_size sb) - b)] of
       Some bi \<Rightarrow>
         thn (put_data bp (set_used bi d))
         (thn (log_write bp)
         (thn (brelse bp)
         (thn (bzero dev (of_nat (b + bi)))
         (ret (of_nat (b + bi))))))
     | None \<Rightarrow> thn (brelse bp) (balloc_from dev sb bs)))"

definition balloc :: "u32 \<Rightarrow> ('z, u32) logf" where
  "balloc dev =
     bnd (readsb dev) (\<lambda>sb.
     balloc_from dev sb (map (\<lambda>k. 4096 * k) [0..<(unat (sb_size sb) + 4095) div 4096]))"

definition bfree :: "u32 \<Rightarrow> u32 \<Rightarrow> ('z, unit) logf" where
  "bfree dev b =
     bnd (readsb dev) (\<lambda>sb.
     bnd (bread dev (BBLOCK b (sb_ninodes sb))) (\<lambda>bp.
     bnd (look_data bp) (\<lambda>d.
     let bi = unat b mod 4096 in
     if \<not> bit_used d bi then panic ''freeing free block''
     else
       thn (put_data bp (set_unused bi d))
       (thn (log_write bp)
       (brelse bp)))))"

section \<open>Inodes\<close>

text \<open>\<^verbatim>\<open>struct inode\<close> of \<^verbatim>\<open>file.h\<close>; the bits of \<open>flags\<close> are two fields.\<close>

record inode =
  i_dev :: u32
  i_inum :: u32
  i_ref :: int
  i_busy :: bool
  i_valid :: bool
  i_type :: u16
  i_major :: u16
  i_minor :: u16
  i_nlink :: u16
  i_size :: u32
  i_addrs :: "u32 list"

text \<open>The inode cache. Inode pointers are indices into it; \<open>None\<close> is the null pointer.\<close>

record inodes = logs +
  icache :: "inode list"

type_synonym ('z, 'a) inof = "('z inodes_scheme, 'a) kfun"

definition the_inode :: "nat \<Rightarrow> ('z, inode) inof" where
  "the_inode ip = gets (\<lambda>s. icache s ! ip)"

definition upd_inode :: "nat \<Rightarrow> (inode \<Rightarrow> inode) \<Rightarrow> ('z, unit) inof" where
  "upd_inode ip f = modify (\<lambda>s. s\<lparr>icache := (icache s)[ip := f (icache s ! ip)]\<rparr>)"

definition iget :: "u32 \<Rightarrow> u32 \<Rightarrow> ('z, nat) inof" where
  "iget dev inum =
     thn (acquire LK_icache)
     (bnd (gets icache) (\<lambda>tab.
      case find_idx (\<lambda>x. i_ref x > 0 \<and> i_dev x = dev \<and> i_inum x = inum) tab of
        Some ip \<Rightarrow>
          thn (upd_inode ip (\<lambda>x. x\<lparr>i_ref := i_ref x + 1\<rparr>)) (thn (release LK_icache) (ret ip))
      | None \<Rightarrow>
          (case find_idx (\<lambda>x. i_ref x = 0) tab of
             None \<Rightarrow> panic ''iget: no inodes''
           | Some ip \<Rightarrow>
               thn (upd_inode ip (\<lambda>x. x\<lparr>i_dev := dev, i_inum := inum, i_ref := 1, i_busy := False, i_valid := False\<rparr>))
               (thn (release LK_icache) (ret ip)))))"

text \<open>The loop of \<open>ialloc\<close> over the inode numbers.\<close>

primrec ialloc_from :: "u32 \<Rightarrow> u16 \<Rightarrow> nat list \<Rightarrow> ('z, nat) inof" where
  "ialloc_from dev type [] = panic ''ialloc: no inodes''"
| "ialloc_from dev type (inum # is) =
     bnd (bread dev (IBLOCK (of_nat inum))) (\<lambda>bp.
     bnd (look_data bp) (\<lambda>d.
     if d_type (get_dinode (inum mod 8) d) = 0 then
       thn (put_data bp (put_dinode (inum mod 8)
         \<lparr>d_type = type, d_major = 0, d_minor = 0, d_nlink = 0, d_size = 0, d_addrs = replicate 13 0\<rparr> d))
       (thn (log_write bp)
       (thn (brelse bp)
       (iget dev (of_nat inum))))
     else thn (brelse bp) (ialloc_from dev type is)))"

definition ialloc :: "u32 \<Rightarrow> u16 \<Rightarrow> ('z, nat) inof" where
  "ialloc dev type =
     bnd (readsb dev) (\<lambda>sb. ialloc_from dev type [1..<unat (sb_ninodes sb)])"

definition iupdate :: "nat \<Rightarrow> ('z, unit) inof" where
  "iupdate ip =
     bnd (the_inode ip) (\<lambda>x.
     bnd (bread (i_dev x) (IBLOCK (i_inum x))) (\<lambda>bp.
     bnd (look_data bp) (\<lambda>d.
     bnd (the_inode ip) (\<lambda>x.
     thn (put_data bp (put_dinode (unat (i_inum x) mod 8)
       \<lparr>d_type = i_type x, d_major = i_major x, d_minor = i_minor x, d_nlink = i_nlink x, d_size = i_size x,
        d_addrs = i_addrs x\<rparr> d))
     (thn (log_write bp)
     (brelse bp))))))"

definition idup :: "nat \<Rightarrow> ('z, nat) inof" where
  "idup ip =
     thn (acquire LK_icache)
     (thn (upd_inode ip (\<lambda>x. x\<lparr>i_ref := i_ref x + 1\<rparr>))
     (thn (release LK_icache)
     (ret ip)))"

text \<open>
  \<open>ilock\<close>: the part after the inode has been locked, the loop that waits for the lock (where it
  continues after a wakeup), and the whole.
\<close>

definition ilock_load :: "nat \<Rightarrow> ('z, unit) inof" where
  "ilock_load ip =
     bnd (the_inode ip) (\<lambda>x.
     whenk (\<not> i_valid x)
       (bnd (bread (i_dev x) (IBLOCK (i_inum x))) (\<lambda>bp.
        bnd (look_data bp) (\<lambda>d.
        let y = get_dinode (unat (i_inum x) mod 8) d in
        thn (upd_inode ip (\<lambda>x. x\<lparr>i_type := d_type y, i_major := d_major y, i_minor := d_minor y, i_nlink := d_nlink y,
          i_size := d_size y, i_addrs := d_addrs y\<rparr>))
        (thn (brelse bp)
        (thn (upd_inode ip (\<lambda>x. x\<lparr>i_valid := True\<rparr>))
        (whenk (d_type y = 0) (panic ''ilock: no type''))))))))"

definition ilock_loop :: "nat \<Rightarrow> ('z, unit) inof" where
  "ilock_loop ip =
     bnd (the_inode ip) (\<lambda>x.
     if i_busy x then sleep (CH_inode ip) LK_icache
     else
       thn (upd_inode ip (\<lambda>x. x\<lparr>i_busy := True\<rparr>))
       (thn (release LK_icache)
       (ilock_load ip)))"

definition ilock :: "nat option \<Rightarrow> ('z, unit) inof" where
  "ilock ip = (case ip of None \<Rightarrow> panic ''ilock'' | Some ip \<Rightarrow>
     bnd (the_inode ip) (\<lambda>x. if i_ref x < 1 then panic ''ilock''
       else thn (acquire LK_icache) (ilock_loop ip)))"

definition iunlock :: "nat option \<Rightarrow> ('z, unit) inof" where
  "iunlock ip = (case ip of None \<Rightarrow> panic ''iunlock'' | Some ip \<Rightarrow>
     bnd (the_inode ip) (\<lambda>x. if \<not> i_busy x \<or> i_ref x < 1 then panic ''iunlock''
       else
         thn (acquire LK_icache)
         (thn (upd_inode ip (\<lambda>x. x\<lparr>i_busy := False\<rparr>))
         (thn (upd_inode ip (\<lambda>x. x\<lparr>i_valid := False\<rparr>))
         (thn (wakeup (CH_inode ip))
         (release LK_icache))))))"

section \<open>Contents of an inode\<close>

definition set_addr :: "nat \<Rightarrow> nat \<Rightarrow> u32 \<Rightarrow> ('z, unit) inof" where
  "set_addr ip i a = upd_inode ip (\<lambda>x. x\<lparr>i_addrs := (i_addrs x)[i := a]\<rparr>)"

definition bmap :: "nat \<Rightarrow> nat \<Rightarrow> ('z, u32) inof" where
  "bmap ip bn =
     bnd (the_inode ip) (\<lambda>x.
     if bn < 12 then
       (if i_addrs x ! bn = 0 then bnd (balloc (i_dev x)) (\<lambda>addr. thn (set_addr ip bn addr) (ret addr))
        else ret (i_addrs x ! bn))
     else if bn - 12 < 128 then
       bnd (if i_addrs x ! 12 = 0 then bnd (balloc (i_dev x)) (\<lambda>addr. thn (set_addr ip 12 addr) (ret addr))
            else ret (i_addrs x ! 12)) (\<lambda>ind.
       bnd (bread (i_dev x) ind) (\<lambda>bp.
       bnd (look_data bp) (\<lambda>a.
       bnd (if rd32 a (bn - 12) = 0 then
              bnd (balloc (i_dev x)) (\<lambda>addr.
              bnd (look_data bp) (\<lambda>a.
              thn (put_data bp (wr32 a (bn - 12) addr)) (thn (log_write bp) (ret addr))))
            else ret (rd32 a (bn - 12))) (\<lambda>addr.
       thn (brelse bp) (ret addr)))))
     else panic ''bmap: out of range'')"

definition ex_bmap :: "nat \<Rightarrow> nat \<Rightarrow> ('z, u32) inof" where
  "ex_bmap ip bn =
     bnd (the_inode ip) (\<lambda>x.
     if bn < 12 then
       (if i_addrs x ! bn = 0 then bnd (balloc (i_dev x)) (\<lambda>addr. thn (set_addr ip bn addr) (ret addr))
        else ret (i_addrs x ! bn))
     else if bn - 12 < 128 then ret 0
     else panic ''bmap: out of range'')"

definition itrunc :: "nat \<Rightarrow> ('z, unit) inof" where
  "itrunc ip =
     thn (for_each [0..<12] (\<lambda>i. bnd (the_inode ip) (\<lambda>x.
       whenk (i_addrs x ! i \<noteq> 0)
         (thn (bfree (i_dev x) (i_addrs x ! i)) (set_addr ip i 0)))))
     (thn (bnd (the_inode ip) (\<lambda>x.
       whenk (i_addrs x ! 12 \<noteq> 0)
         (bnd (bread (i_dev x) (i_addrs x ! 12)) (\<lambda>bp.
          thn (for_each [0..<128] (\<lambda>j. bnd (look_data bp) (\<lambda>a.
            whenk (rd32 a j \<noteq> 0) (bfree (i_dev x) (rd32 a j)))))
          (thn (brelse bp)
          (thn (bfree (i_dev x) (i_addrs x ! 12))
          (set_addr ip 12 0)))))))
     (thn (upd_inode ip (\<lambda>x. x\<lparr>i_size := 0\<rparr>))
     (iupdate ip)))"

definition iput :: "nat \<Rightarrow> ('z, unit) inof" where
  "iput ip =
     thn (acquire LK_icache)
     (thn (bnd (the_inode ip) (\<lambda>x.
       whenk (i_ref x = 1 \<and> i_valid x \<and> i_nlink x = 0)
         (if i_busy x then panic ''iput busy''
          else
            thn (upd_inode ip (\<lambda>x. x\<lparr>i_busy := True\<rparr>))
            (thn (release LK_icache)
            (thn (itrunc ip)
            (thn (upd_inode ip (\<lambda>x. x\<lparr>i_type := 0\<rparr>))
            (thn (iupdate ip)
            (thn (acquire LK_icache)
            (thn (upd_inode ip (\<lambda>x. x\<lparr>i_busy := False, i_valid := False\<rparr>))
            (wakeup (CH_inode ip)))))))))))
     (thn (upd_inode ip (\<lambda>x. x\<lparr>i_ref := i_ref x - 1\<rparr>))
     (release LK_icache)))"

definition iunlockput :: "nat \<Rightarrow> ('z, unit) inof" where
  "iunlockput ip = thn (iunlock (Some ip)) (iput ip)"

text \<open>\<^verbatim>\<open>struct stat\<close> as \<open>stati\<close> fills it.\<close>

record stat =
  st_type :: u16
  st_dev :: u32
  st_ino :: u32
  st_nlink :: u16
  st_size :: u32

definition stati :: "nat \<Rightarrow> ('z, stat) inof" where
  "stati ip = bnd (the_inode ip) (\<lambda>x.
     ret \<lparr>st_type = i_type x, st_dev = i_dev x, st_ino = i_inum x, st_nlink = i_nlink x, st_size = i_size x\<rparr>)"

section \<open>Allocation of blocks\<close>

lemma thn_assoc: "thn a (thn b c) s = thn (thn a b) c s"
  by (cases "a s") auto

context tx_blocks
begin

text \<open>Overwriting a block without looking at it.\<close>

lemma overwrite_block:
  assumes "ok s" and "unat n < length (disk s)" and "n \<notin> ran (pins s)" and "card (dom (pins s)) \<le> 1" and "spare s 1"
  shows "\<exists>t. bnd (rd n) (\<lambda>b. thn (put b d) (thn (lw b) (rel b))) s = Ok () t \<and> changed n d s t"
proof -
  have "card (dom (pins s)) + length (lg s) < 30 \<or> n \<in> set (lg s)" using spare_max [OF assms(1,5)] assms(4) by simp
  then obtain b t where t: "rd n s = Ok b t" "ok t" "pins t = (pins s)(b \<mapsto> n)"
    using rd_law [OF assms(1-3)] by blast
  then have "look b t = Ok (content t n) t" by (intro look_law) simp_all
  then show ?thesis using update_block [OF assms, of "\<lambda>_. d"] t(1) by simp
qed

end

text \<open>The superblock as the file system sees it, and whether a block is marked used.\<close>

definition super :: "'z logs_scheme \<Rightarrow> superblock" where
  "super s = \<lparr>sb_size = rd32 (blk s 1) 0, sb_nblocks = rd32 (blk s 1) 1, sb_ninodes = rd32 (blk s 1) 2, sb_nlog = rd32 (blk s 1) 3\<rparr>"

definition bitmap_of :: "'z logs_scheme \<Rightarrow> nat \<Rightarrow> u32" where
  "bitmap_of s n = BBLOCK (of_nat n) (sb_ninodes (super s))"

definition used :: "'z logs_scheme \<Rightarrow> nat \<Rightarrow> bool" where
  "used s n = bit_used (blk s (bitmap_of s n)) (n mod 4096)"

text \<open>The superblock and the bitmap lie on the disk.\<close>

definition disk_ok :: "'z logs_scheme \<Rightarrow> bool" where
  "disk_ok s \<longleftrightarrow> unat (sb_size (super s)) \<le> length (memdisk s) \<and> 1 < length (memdisk s) \<and>
     (\<forall>n<unat (sb_size (super s)). unat (bitmap_of s n) < length (memdisk s))"

lemma tx_free: "tx s \<Longrightarrow> room s m \<Longrightarrow> card (dom (pin s)) \<le> 0 \<Longrightarrow> card (dom (pin s)) + length (logged s) < 30"
  using tb.spare_max [of s m] by auto

lemma readsb_Ok:
  assumes "tx s" and "room s m" and "pin s = Map.empty" and "1 < length (memdisk s)"
  shows "\<exists>t. readsb 1 s = Ok (super s) t \<and> tb.same s t"
proof -
  have "card (dom (pin s)) + length (logged s) < 30 \<or> 1 \<in> set (logged s)" using tx_free [OF assms(1,2)] assms(3) by simp
  from tb.held_read [OF assms(1) _ _ this, of "\<lambda>d. \<lparr>sb_size = rd32 d 0, sb_nblocks = rd32 d 1, sb_ninodes = rd32 d 2, sb_nlog = rd32 d 3\<rparr>"]
  show ?thesis using assms(3,4) by (auto simp: readsb_def super_def)
qed

lemma bzero_Ok:
  assumes "tx s" and "room s 1" and "pin s = Map.empty" and "unat n < length (memdisk s)"
  shows "\<exists>t. bzero 1 n s = Ok () t \<and> tb.changed n (replicate 512 0) s t"
  using tb.overwrite_block [OF assms(1,4), of "replicate 512 0"] assms(2,3) by (simp add: bzero_def)

lemma same_super: "tb.same s t \<Longrightarrow> super t = super s" "tb.same s t \<Longrightarrow> used t n = used s n" "tb.same s t \<Longrightarrow> disk_ok t = disk_ok s"
  "tb.same s t \<Longrightarrow> bitmap_of t n = bitmap_of s n"
  by (simp_all add: tb.same_def super_def used_def disk_ok_def bitmap_of_def)

lemma bitmap_of_add: "bi < 4096 \<Longrightarrow> 4096 * k + bi < 4294967296 \<Longrightarrow> bitmap_of s (4096 * k + bi) = bitmap_of s (4096 * k)"
proof -
  assume a: "bi < 4096" "4096 * k + bi < 4294967296"
  have u: "unat (of_nat n div 4096 :: u32) = n div 4096" if "n < 4294967296" for n
    using that by (simp add: unat_div unat_of_nat)
  have "unat (of_nat (4096 * k + bi) div 4096 :: u32) = unat (of_nat (4096 * k) div 4096 :: u32)"
    using a u [of "4096 * k + bi"] u [of "4096 * k"] by (simp del: of_nat_add of_nat_mult)
  then have "(of_nat (4096 * k + bi) div 4096 :: u32) = of_nat (4096 * k) div 4096" by (simp only: word_unat_eq_iff)
  then show ?thesis by (simp add: bitmap_of_def BBLOCK_def del: of_nat_add of_nat_mult)
qed

text \<open>The state after a block has been allocated.\<close>

definition alloced :: "nat \<Rightarrow> 'z logs_scheme \<Rightarrow> 'z logs_scheme \<Rightarrow> bool" where
  "alloced n s t \<longleftrightarrow> log_frame s t \<and> tx t \<and> pin t = Map.empty \<and> memdisk t = memdisk s \<and>
     blk t = (blk s)(bitmap_of s n := set_used (n mod 4096) (blk s (bitmap_of s n)), of_nat n := replicate 512 0) \<and>
     length (logged t) \<le> length (logged s) + 2"

lemma balloc_from_Ok:
  assumes "\<exists>k\<in>set ks. \<exists>bi<4096. 4096 * k + bi < unat (sb_size (super s)) \<and> \<not> used s (4096 * k + bi)"
    and "\<forall>k\<in>set ks. 4096 * k < unat (sb_size (super s))"
    and "tx s" and "room s 2" and "pin s = Map.empty" and "disk_ok s"
  shows "\<exists>k bi t. bi < 4096 \<and> 4096 * k + bi < unat (sb_size (super s)) \<and> \<not> used s (4096 * k + bi) \<and> (\<forall>j<bi. used s (4096 * k + j)) \<and>
    (\<exists>ys zs. ks = ys @ k # zs \<and> (\<forall>j\<in>set ys. \<forall>i<4096. 4096 * j + i < unat (sb_size (super s)) \<longrightarrow> used s (4096 * j + i))) \<and>
    balloc_from 1 (super s) (map (\<lambda>k. 4096 * k) ks) s = Ok (of_nat (4096 * k + bi)) t \<and> alloced (4096 * k + bi) s t"
  using assms
proof (induction ks arbitrary: s)
  case (Cons k ks)
  let ?sz = "unat (sb_size (super s))" and ?n = "bitmap_of s (4096 * k)"
  have k: "4096 * k < ?sz" using Cons.prems(2) by simp
  then have lt: "4096 * k + i < 4294967296" if "4096 * k + i < ?sz" for i
    using that unat_u32_less [of "sb_size (super s)"] by linarith
  have n: "unat ?n < length (memdisk s)" using Cons.prems(6) k by (simp add: disk_ok_def)
  have fr: "card (dom (pin s)) + length (logged s) < 30 \<or> ?n \<in> set (logged s)"
    using tx_free [OF Cons.prems(3,4)] Cons.prems(5) by simp
  obtain b t where t: "bread 1 ?n s = Ok b t" "log_frame s t" "tx t" "pin s b = None" "pin t = (pin s)(b \<mapsto> ?n)"
    "blk t = blk s" "logged t = logged s" "memdisk t = memdisk s"
    using tb.rd_law [OF Cons.prems(3) n _ fr] Cons.prems(5) by auto
  have p: "pin t b = Some ?n" using t by simp
  have look: "look_data b t = Ok (blk s ?n) t" using tb.look_law [OF t(3) p] t(6) by simp
  have sp: "room t 2" by (rule tb.spare_law [OF Cons.prems(3) t(3,2) Cons.prems(4)]) (simp add: t(7))
  have ub: "bit_used (blk s ?n) i = used s (4096 * k + i)" if "i < 4096" "4096 * k + i < ?sz" for i
    using bitmap_of_add [OF that(1) lt [OF that(2)], of s] that by (simp add: used_def)
  show ?case
  proof (cases "find (\<lambda>bi. \<not> bit_used (blk s ?n) bi) [0..<min 4096 (?sz - 4096 * k)]")
    case (Some bi)
    then have bi: "bi < 4096" "4096 * k + bi < ?sz" "\<not> bit_used (blk s ?n) bi" "\<forall>j<bi. bit_used (blk s ?n) j"
      by (auto simp: find_Some_iff)
    then have uu: "\<not> used s (4096 * k + bi)" "\<forall>j<bi. used s (4096 * k + j)" using ub by auto
    have "room t 1" using sp by (simp add: room_def)
    then obtain v where v: "thn (put_data b (set_used bi (blk s ?n))) (thn (log_write b) (brelse b)) t = Ok () v" "log_frame t v" "tx v"
      "pin v = (pin t)(b := None)" "blk v = (blk t)(?n := set_used bi (blk s ?n))" "logged v = ins ?n (logged t)" "memdisk v = memdisk t"
      using tb.finish_update [OF t(3) p] by blast
    have pv: "pin v = Map.empty" using v(4) t(5) Cons.prems(5) by auto
    have lv: "length (logged v) + 1 \<le> length (logged t) + 2" using v(6) tb.length_ins [of ?n "logged t"] by simp
    have rv: "room v 1" by (rule tb.spare_law [OF t(3) v(3,2) sp lv])
    have "unat (of_nat (4096 * k + bi) :: u32) < length (memdisk v)"
      using bi(2) lt [OF bi(2)] Cons.prems(6) v(7) t(8) by (simp add: disk_ok_def unat_of_nat del: of_nat_add of_nat_mult)
    then obtain w where w: "bzero 1 (of_nat (4096 * k + bi)) v = Ok () w" "tb.changed (of_nat (4096 * k + bi)) (replicate 512 0) v w"
      using bzero_Ok [OF v(3) rv pv] by blast
    have run: "balloc_from 1 (super s) (map (\<lambda>k. 4096 * k) (k # ks)) s = Ok (of_nat (4096 * k + bi)) w"
      using t(1) look Some v(1) w(1) by (simp add: bitmap_of_def thn_assoc del: thn_apply of_nat_add of_nat_mult) (simp del: of_nat_add of_nat_mult)
    have bm: "bitmap_of s (4096 * k + bi) = ?n" "(4096 * k + bi) mod 4096 = bi" using bitmap_of_add [OF bi(1) lt [OF bi(2)], of s] bi(1) by simp_all
    have lw: "length (logged w) \<le> length (logged s) + 2"
      using w(2) v(6) t(7) tb.length_ins [of ?n "logged t"] tb.length_ins [of "of_nat (4096 * k + bi)" "logged v"]
      by (simp add: tb.changed_def del: of_nat_add of_nat_mult)
    have al: "alloced (4096 * k + bi) s w"
      unfolding alloced_def bm using w(2) v t pv lw log_frame_trans by (simp add: tb.changed_def del: of_nat_add of_nat_mult) blast
    show ?thesis
    proof (intro exI conjI)
      show "k # ks = [] @ k # ks" by simp
    qed (use run al bi(1,2) uu in \<open>simp_all del: of_nat_add of_nat_mult balloc_from.simps\<close>)
  next
    case None
    then have all: "bit_used (blk s ?n) i" if "i < 4096" "4096 * k + i < ?sz" for i using that by (auto simp: find_None_iff)
    have c: "?n \<in> set (logged t) \<or> blk t ?n = memdisk t ! unat ?n"
      using tb.clean_law [OF Cons.prems(3), of ?n] Cons.prems(5) t by auto
    obtain v where v: "brelse b t = Ok () v" "log_frame t v" "tx v" "pin v = (pin t)(b := None)" "blk v = blk t" "logged v = logged t" "memdisk v = memdisk t"
      using tb.rel_law [OF t(3) p c] by blast
    have sv: "tb.same s v" using v t log_frame_trans [OF t(2) v(2)] Cons.prems(5) by (auto simp: tb.same_def)
    note sup = same_super [OF sv]
    have ex: "\<exists>k\<in>set ks. \<exists>bi<4096. 4096 * k + bi < unat (sb_size (super v)) \<and> \<not> used v (4096 * k + bi)"
      using Cons.prems(1) all ub sup by auto
    have pv: "pin v = Map.empty" using sv Cons.prems(5) by (simp add: tb.same_def)
    obtain k' bi w ys zs where w: "bi < 4096" "4096 * k' + bi < ?sz" "\<not> used s (4096 * k' + bi)" "\<forall>j<bi. used s (4096 * k' + j)"
      "ks = ys @ k' # zs" "\<forall>j\<in>set ys. \<forall>i<4096. 4096 * j + i < ?sz \<longrightarrow> used s (4096 * j + i)"
      "balloc_from 1 (super s) (map (\<lambda>k. 4096 * k) ks) v = Ok (of_nat (4096 * k' + bi)) w" "alloced (4096 * k' + bi) v w"
      using Cons.IH [OF ex _ v(3) tb.same_spare [OF Cons.prems(3) sv Cons.prems(4)] pv] Cons.prems(2,6) sup by auto
    have run: "balloc_from 1 (super s) (map (\<lambda>k. 4096 * k) (k # ks)) s = Ok (of_nat (4096 * k' + bi)) w"
      using t(1) look None v(1) w(7) by (simp add: bitmap_of_def del: of_nat_add of_nat_mult)
    have al: "alloced (4096 * k' + bi) s w"
      using w(8) sv log_frame_trans by (simp add: alloced_def tb.same_def sup(4)) blast
    have us: "\<forall>j\<in>set (k # ys). \<forall>i<4096. 4096 * j + i < ?sz \<longrightarrow> used s (4096 * j + i)" using w(6) all ub by auto
    show ?thesis
    proof (intro exI conjI)
      show "k # ks = (k # ys) @ k' # zs" using w(5) by simp
    qed (fact w(1-4) us run al)+
  qed
qed simp

section \<open>Inodes on the disk\<close>

lemma slice_patch_in:
  assumes "off \<le> o'" and "o' + n \<le> off + length ys" and "off + length ys \<le> length d"
  shows "slice o' n (patch off ys d) = slice (o' - off) n ys"
  using assms by (intro nth_equalityI) (auto simp: nth_slice nth_patch)

lemma slice_words: "i < length ws \<Longrightarrow> take 4 (drop (4 * i) (concat (map bytes32 ws))) = bytes32 (ws ! i)"
proof (induction ws arbitrary: i)
  case (Cons w ws)
  then show ?case by (cases i) (simp_all add: drop_append)
qed simp

lemma length_words: "length (concat (map bytes32 ws)) = 4 * length ws"
  by (induction ws) simp_all

lemma length_dinode_bytes: "length (d_addrs x) = 13 \<Longrightarrow> length (dinode_bytes x) = 64"
  by (simp add: dinode_bytes_def length_words)

lemma dinode_fields:
  "word16 (slice 0 2 (dinode_bytes x)) = d_type x" "word16 (slice 2 2 (dinode_bytes x)) = d_major x"
  "word16 (slice 4 2 (dinode_bytes x)) = d_minor x" "word16 (slice 6 2 (dinode_bytes x)) = d_nlink x"
  "word32 (slice 8 4 (dinode_bytes x)) = d_size x"
  "i < length (d_addrs x) \<Longrightarrow> word32 (slice (12 + 4 * i) 4 (dinode_bytes x)) = d_addrs x ! i"
  by (simp_all add: dinode_bytes_def slice_def slice_words)

lemma get_put_dinode:
  assumes "length (d_addrs x) = 13" and "64 * k + 64 \<le> length d"
  shows "get_dinode k (put_dinode k x d) = x"
proof -
  have s: "slice (64 * k + o') n (patch (64 * k) (dinode_bytes x) d) = slice o' n (dinode_bytes x)" if "o' + n \<le> 64" for o' n
    using slice_patch_in [of "64 * k" "64 * k + o'" n "dinode_bytes x" d] that assms length_dinode_bytes [OF assms(1)] by simp
  have "map (\<lambda>i. word32 (slice (64 * k + 12 + 4 * i) 4 (patch (64 * k) (dinode_bytes x) d))) [0..<13] = d_addrs x"
    using assms(1) s by (intro nth_equalityI) (simp_all add: add.assoc dinode_fields)
  then show ?thesis using s [of 0 2] s [of 2 2] s by (simp add: get_dinode_def put_dinode_def dinode_fields)
qed

lemma get_put_dinode_other:
  assumes "length (d_addrs x) = 13" and "64 * k + 64 \<le> length d" and "64 * j + 64 \<le> length d" and "j \<noteq> k"
  shows "get_dinode j (put_dinode k x d) = get_dinode j d"
proof -
  have "slice (64 * j + o') n (patch (64 * k) (dinode_bytes x) d) = slice (64 * j + o') n d" if "o' + n \<le> 64" for o' n
    using that assms length_dinode_bytes [OF assms(1)] by (intro slice_patch_other) auto
  from this [of 0 2] this [of 2 2] this show ?thesis by (simp add: get_dinode_def put_dinode_def add.assoc)
qed

lemma length_put_dinode: "length (d_addrs x) = 13 \<Longrightarrow> 64 * k + 64 \<le> length d \<Longrightarrow> length (put_dinode k x d) = length d"
  by (simp add: put_dinode_def length_dinode_bytes)

text \<open>The fields of an inode that are kept on the disk.\<close>

definition to_disk :: "inode \<Rightarrow> dinode" where
  "to_disk x = \<lparr>d_type = i_type x, d_major = i_major x, d_minor = i_minor x, d_nlink = i_nlink x, d_size = i_size x,
     d_addrs = i_addrs x\<rparr>"

lemma icache_frame: "log_frame s t \<Longrightarrow> icache t = icache s" for s :: "'z inodes_scheme"
  by (auto simp: log_frame_iff)

lemma icache_upd [simp]:
  "blk (s\<lparr>icache := c\<rparr>) = blk s" "pin (s\<lparr>icache := c\<rparr>) = pin s" "dirt (s\<lparr>icache := c\<rparr>) = dirt s"
  "logged (s\<lparr>icache := c\<rparr>) = logged s" "tx (s\<lparr>icache := c\<rparr>) = tx s" "room (s\<lparr>icache := c\<rparr>) m = room s m"
  "cache_rdy (s\<lparr>icache := c\<rparr>) = cache_rdy s"
proof -
  note cc = cache_cong [of "s\<lparr>icache := c\<rparr>" s, simplified]
  show "blk (s\<lparr>icache := c\<rparr>) = blk s" "pin (s\<lparr>icache := c\<rparr>) = pin s" "dirt (s\<lparr>icache := c\<rparr>) = dirt s" by (rule cc)+
  show l: "logged (s\<lparr>icache := c\<rparr>) = logged s" "room (s\<lparr>icache := c\<rparr>) m = room s m" by (simp_all add: logged_def room_def)
  show r: "cache_rdy (s\<lparr>icache := c\<rparr>) = cache_rdy s" using cc by (simp add: cache_rdy_def)
  show "tx (s\<lparr>icache := c\<rparr>) = tx s" using cc l r by (simp add: tx_def)
qed

lemma frame_icache: "log_frame s t \<Longrightarrow> log_frame (s\<lparr>icache := c\<rparr>) (t\<lparr>icache := c\<rparr>)"
  by (cases s, cases t) (simp add: log_frame_def)

lemma same_icache: "tb.same s t \<Longrightarrow> tb.same (s\<lparr>icache := c\<rparr>) (t\<lparr>icache := c\<rparr>)"
  by (simp add: tb.same_def frame_icache)

lemma iupdate_Ok:
  fixes s :: "'z inodes_scheme"
  assumes "tx s" and "room s 1" and "pin s = Map.empty" and x: "icache s ! ip = x" "i_dev x = 1"
    and n: "unat (IBLOCK (i_inum x)) < length (memdisk s)"
  shows "\<exists>t. iupdate ip s = Ok () t \<and>
    tb.changed (IBLOCK (i_inum x)) (put_dinode (unat (i_inum x) mod 8) (to_disk x) (blk s (IBLOCK (i_inum x)))) s t"
proof -
  let ?n = "IBLOCK (i_inum x)" and ?f = "put_dinode (unat (i_inum x) mod 8) (to_disk x)"
  obtain b t where t: "bread 1 ?n s = Ok b t" "log_frame s t" "tx t" "pin t = (pin s)(b \<mapsto> ?n)"
    using tb.rd_law [OF assms(1) n] tx_free [OF assms(1,2)] assms(3) by auto
  have "look_data b t = Ok (blk t ?n) t" using t by (intro tb.look_law) simp_all
  then have "iupdate ip s = bnd (bread 1 ?n) (\<lambda>b. bnd (look_data b) (\<lambda>d. thn (put_data b (?f d)) (thn (log_write b) (brelse b)))) s"
    using t x icache_frame [OF t(2)] by (simp add: iupdate_def the_inode_def to_disk_def)
  then show ?thesis using tb.update_block [OF assms(1) n _ _ assms(2), of ?f] assms(3) by simp
qed

lemma ilock_load_Ok:
  fixes s :: "'z inodes_scheme"
  assumes "tx s" and "room s m" and "pin s = Map.empty" and x: "icache s ! ip = x" "i_dev x = 1" "\<not> i_valid x" "ip < length (icache s)"
    and n: "unat (IBLOCK (i_inum x)) < length (memdisk s)"
    and y: "get_dinode (unat (i_inum x) mod 8) (blk s (IBLOCK (i_inum x))) = y" "d_type y \<noteq> 0"
  shows "\<exists>t. ilock_load ip s = Ok () t \<and> tb.same (s\<lparr>icache := (icache s)[ip := x\<lparr>i_type := d_type y, i_major := d_major y,
    i_minor := d_minor y, i_nlink := d_nlink y, i_size := d_size y, i_addrs := d_addrs y, i_valid := True\<rparr>]\<rparr>) t"
proof -
  let ?n = "IBLOCK (i_inum x)"
  let ?z = "x\<lparr>i_type := d_type y, i_major := d_major y, i_minor := d_minor y, i_nlink := d_nlink y, i_size := d_size y, i_addrs := d_addrs y\<rparr>"
  let ?c = "(icache s)[ip := ?z]" and ?e = "(icache s)[ip := ?z\<lparr>i_valid := True\<rparr>]"
  obtain b t where t: "bread 1 ?n s = Ok b t" "log_frame s t" "tx t" "pin s b = None" "pin t = (pin s)(b \<mapsto> ?n)" "blk t = blk s"
    "logged t = logged s" "memdisk t = memdisk s"
    using tb.rd_law [OF assms(1) n] tx_free [OF assms(1,2)] assms(3) by auto
  have look: "look_data b t = Ok (blk s ?n) t" using tb.look_law [OF t(3), of b ?n] t by simp
  let ?t = "t\<lparr>icache := ?c\<rparr>"
  have c: "?n \<in> set (logged ?t) \<or> blk ?t ?n = memdisk ?t ! unat ?n" using tb.clean_law [OF assms(1), of ?n] assms(3) t by auto
  obtain v where v: "brelse b ?t = Ok () v" "log_frame ?t v" "tx v" "pin v = (pin ?t)(b := None)" "blk v = blk ?t" "logged v = logged ?t" "memdisk v = memdisk ?t"
    using tb.rel_law [of ?t b ?n, OF _ _ c] t by auto
  have iv: "icache v = ?c" using icache_frame [OF v(2)] by simp
  have run: "ilock_load ip s = Ok () (v\<lparr>icache := ?e\<rparr>)"
    using t(1) look x y v(1) iv icache_frame [OF t(2)]
    by (simp add: ilock_load_def the_inode_def upd_inode_def Let_def)
  have "log_frame (s\<lparr>icache := ?c\<rparr>) v" using log_frame_trans [OF frame_icache [OF t(2)] v(2)] .
  then have "log_frame ((s\<lparr>icache := ?c\<rparr>)\<lparr>icache := ?e\<rparr>) (v\<lparr>icache := ?e\<rparr>)" by (rule frame_icache)
  then have "tb.same (s\<lparr>icache := ?e\<rparr>) (v\<lparr>icache := ?e\<rparr>)" using v t assms(3) by (auto simp: tb.same_def)
  with run show ?thesis by auto
qed

section \<open>Properties\<close>

text \<open>
  A small file system: superblock, two blocks of inodes, the bitmap in block 4, one data block and
  a log of three blocks. The machine has initialised its buffer cache and opened a transaction.
\<close>

lemma boot_tx:
  assumes "length (bufs s) = 31" and "\<forall>b<30. \<not> b_busy (bufs s ! b) \<and> \<not> b_dirty (bufs s ! b)" and "held s = []"
    and "l_dev s = 1" and "1 \<le> l_outstanding s" and "lh_n s = 0" and "length (lh_sector s) = 30"
  shows "\<exists>t. binit s = Ok () t \<and> t = s\<lparr>bufs := bufs t\<rparr> \<and> tx t \<and> pin t = Map.empty \<and> blk t = (\<lambda>n. memdisk s ! unat n) \<and> logged t = []"
proof -
  obtain t where t: "binit s = Ok () t" "t = s\<lparr>bufs := bufs t\<rparr>" "ring (bufs t) (rev [0..<30])"
    using binit_ring [OF assms(1,2)] by blast
  obtain B where B: "t = s\<lparr>bufs := B\<rparr>" using t(2) by blast
  note ro = ring_ok [OF t(3)]
  have f: "held t = []" "memdisk t = memdisk s" "l_outstanding t = l_outstanding s" "l_dev t = 1" "lh_n t = 0" "length (lh_sector t) = 30"
    unfolding B using assms by simp_all
  then have "logged t = []" "tx t" using ro assms(5) by (simp_all add: tx_def cache_rdy_def logged_def)
  then show ?thesis using t(1,2) ro f by (intro exI [of _ t]) (simp add: fun_eq_iff)
qed

definition inode0 :: inode where
  "inode0 = \<lparr>i_dev = 0, i_inum = 0, i_ref = 0, i_busy = False, i_valid = False, i_type = 0, i_major = 0, i_minor = 0,
     i_nlink = 0, i_size = 0, i_addrs = replicate 13 0\<rparr>"

definition image0 :: "byte list list" where
  "image0 = (replicate 9 (replicate 512 0))[1 := concat (map bytes32 [9, 1, 8, 3]) @ replicate 496 0, 4 := 0x1F # replicate 511 0]"

definition fs0 :: inodes where
  "fs0 = logs.extend (log0\<lparr>memdisk := image0, l_start := 6\<rparr>) (inodes.fields (replicate 50 inode0))"

lemma fs0_simps: "length (bufs fs0) = 31" "\<forall>b<30. \<not> b_busy (bufs fs0 ! b) \<and> \<not> b_dirty (bufs fs0 ! b)" "held fs0 = []"
  "memdisk fs0 = image0" "l_start fs0 = 6" "l_size fs0 = 3" "l_outstanding fs0 = 1" "l_dev fs0 = 1" "lh_n fs0 = 0"
  "length (lh_sector fs0) = 30" "icache fs0 = replicate 50 inode0"
  using log0_simps by (simp_all add: fs0_def logs.defs inodes.defs)

lemma image0_simps: "length image0 = 9" "rd32 (image0 ! 1) 0 = 9" "rd32 (image0 ! 1) 2 = 8" "image0 ! 4 = 0x1F # replicate 511 0"
  "image0 ! 2 = replicate 512 0"
  by (simp_all add: image0_def rd32_def slice_def)

lemma upt_split:
  assumes "[0..<N] = ys @ k # zs"
  shows "set ys = {..<k}"
proof -
  have l: "length ys < N" using arg_cong [OF assms, of length] by simp
  have "take (length ys) [0..<N] = ys" unfolding assms by simp
  then have "ys = [0..<length ys]" using l by (simp add: take_upt)
  moreover have "[0..<N] ! length ys = k" unfolding assms by simp
  then have "k = length ys" using l by simp
  ultimately show ?thesis by (metis atLeast0LessThan set_upt)
qed

text \<open>
  C19. \<^bold>\<open>Block allocation\<close>. Inside a transaction with room for two more blocks, \<open>balloc\<close> returns the
  first block of the disk that the bitmap says is free, marks it used, fills it with zeros, and
  changes nothing else on the disk. It panics only when every block is in use.
\<close>

theorem balloc_first_free:
  fixes s :: "'z logs_scheme"
  assumes "tx s" and "room s 2" and "pin s = Map.empty" and "disk_ok s"
    and free: "n < unat (sb_size (super s))" "\<not> used s n" "\<forall>m<n. used s m"
  shows "\<exists>t. balloc 1 s = Ok (of_nat n) t \<and> tx t \<and> pin t = Map.empty \<and>
    blk t = (blk s)(bitmap_of s n := set_used (n mod 4096) (blk s (bitmap_of s n)), of_nat n := replicate 512 0)"
proof -
  let ?sz = "unat (sb_size (super s))"
  let ?ks = "[0..<(?sz + 4095) div 4096]"
  have one: "1 < length (memdisk s)" using assms(4) by (simp add: disk_ok_def)
  obtain u where u: "readsb 1 s = Ok (super s) u" "tb.same s u" using readsb_Ok [OF assms(1-3) one] by blast
  note sup = same_super [OF u(2)]
  have ks: "k \<in> set ?ks \<longleftrightarrow> 4096 * k < ?sz" for k by auto
  have nn: "4096 * (n div 4096) + n mod 4096 = n" "n mod 4096 < 4096" by simp_all
  have "4096 * (n div 4096) < ?sz" using free(1) nn(1) by linarith
  then have ex: "\<exists>k\<in>set ?ks. \<exists>bi<4096. 4096 * k + bi < unat (sb_size (super u)) \<and> \<not> used u (4096 * k + bi)"
    unfolding sup using ks nn free(1,2) by (intro bexI [of _ "n div 4096"] exI [of _ "n mod 4096"]) auto
  have us: "tx u" "room u 2" "pin u = Map.empty" "disk_ok u"
    using u(2) tb.same_spare [OF assms(1) u(2) assms(2)] assms(3,4) sup by (auto simp: tb.same_def)
  obtain k bi t ys zs where r: "bi < 4096" "4096 * k + bi < ?sz" "\<not> used s (4096 * k + bi)" "\<forall>j<bi. used s (4096 * k + j)"
    "?ks = ys @ k # zs" "\<forall>j\<in>set ys. \<forall>i<4096. 4096 * j + i < ?sz \<longrightarrow> used s (4096 * j + i)"
    "balloc_from 1 (super s) (map (\<lambda>k. 4096 * k) ?ks) u = Ok (of_nat (4096 * k + bi)) t" "alloced (4096 * k + bi) u t"
    using balloc_from_Ok [OF ex _ us] ks unfolding sup by blast
  have ys: "set ys = {..<k}" by (rule upt_split [OF r(5)])
  have "\<not> n < 4096 * k + bi"
  proof
    assume l: "n < 4096 * k + bi"
    then have "n div 4096 \<le> k" using r(1) by (simp add: less_Suc_eq_le [symmetric] div_less_iff_less_mult)
    then consider "n div 4096 < k" | "n div 4096 = k" by linarith
    then show False
    proof cases
      case 1
      then show ?thesis using r(6) ys nn free(1,2) by (metis lessThan_iff)
    next
      case 2
      then have "n mod 4096 < bi" using l nn(1) by linarith
      then show ?thesis using r(4) 2 nn(1) free(2) by metis
    qed
  qed
  moreover have "\<not> 4096 * k + bi < n" using r(3) free(3) by blast
  ultimately have "4096 * k + bi = n" by linarith
  then show ?thesis using u(1) r(7,8) u(2) sup by (auto simp: balloc_def alloced_def tb.same_def)
qed

theorem balloc_first_free_witness:
  "\<exists>s t. binit fs0 = Ok () s \<and> balloc 1 s = Ok 5 t \<and> blk t 5 = replicate 512 0 \<and> blk t 4 = 0x3F # replicate 511 0"
proof -
  obtain s where s: "binit fs0 = Ok () s" "s = fs0\<lparr>bufs := bufs s\<rparr>" "tx s" "pin s = Map.empty" "blk s = (\<lambda>n. image0 ! unat n)" "logged s = []"
    using boot_tx [of fs0] fs0_simps by auto
  obtain B where B: "s = fs0\<lparr>bufs := B\<rparr>" using s(2) by blast
  have f: "memdisk s = image0" "l_size s = 3" "lh_n s = 0" unfolding B by (simp_all add: fs0_simps)
  have sup: "sb_size (super s) = 9" "sb_ninodes (super s) = 8" using s(5) image0_simps by (simp_all add: super_def)
  have bm: "bitmap_of s n = 4" if "n < 9" for n
    using that by (auto simp: bitmap_of_def BBLOCK_def sup word_unat_eq_iff unat_word_ariths unat_div unat_of_nat)
  have u5: "used s n = bit_used (0x1F # replicate 511 0) n" if "n < 9" for n
    using that bm by (simp add: used_def s(5) image0_simps)
  have "m = 0 \<or> m = 1 \<or> m = 2 \<or> m = 3 \<or> m = 4" if "m < 5" for m :: nat using that by linarith
  then have uu: "\<not> used s 5" "\<forall>m<5. used s m"
    using u5 by (simp add: bit_used_def, fastforce simp: bit_used_def)
  have "disk_ok s" unfolding disk_ok_def using f sup bm image0_simps by simp
  moreover have "room s 2" using f by (simp add: room_def)
  ultimately obtain t where t: "balloc 1 s = Ok (of_nat 5) t"
    "blk t = (blk s)(bitmap_of s 5 := set_used (5 mod 4096) (blk s (bitmap_of s 5)), of_nat 5 := replicate 512 0)"
    using balloc_first_free [OF s(3) _ s(4), of 5] uu sup by auto
  have "blk t 4 = 0x3F # replicate 511 0" using t(2) bm [of 5] s(5) image0_simps by (simp add: set_used_def)
  then show ?thesis using s(1) t by (intro exI [of _ s] exI [of _ t]) simp
qed

text \<open>
  C20. \<^bold>\<open>An inode survives on disk\<close>. What \<open>iupdate\<close> writes is what \<open>ilock\<close> reads: after \<open>iupdate(ip)\<close>
  an entry of the inode cache for the same inode that is not valid, whatever its fields, gets
  exactly the fields that \<open>ip\<close> had; the other inodes in the block are not disturbed.
\<close>

theorem iupdate_ilock_roundtrip:
  fixes s :: "'z inodes_scheme"
  assumes "tx s" and "room s 1" and "pin s = Map.empty" and x: "icache s ! ip = x" "i_dev x = 1" "ip < length (icache s)"
    and n: "unat (IBLOCK (i_inum x)) < length (memdisk s)" and l: "length (blk s (IBLOCK (i_inum x))) = 512"
    and a: "length (i_addrs x) = 13" "i_type x \<noteq> 0"
    and y: "i_dev y = 1" "i_inum y = i_inum x" "\<not> i_valid y"
  shows "\<exists>t u. iupdate ip s = Ok () t \<and> ilock_load ip (t\<lparr>icache := (icache t)[ip := y]\<rparr>) = Ok () u \<and>
    to_disk (icache u ! ip) = to_disk x \<and>
    (\<forall>j<8. j \<noteq> unat (i_inum x) mod 8 \<longrightarrow>
       get_dinode j (blk t (IBLOCK (i_inum x))) = get_dinode j (blk s (IBLOCK (i_inum x))))"
proof -
  let ?n = "IBLOCK (i_inum x)" and ?k = "unat (i_inum x) mod 8"
  have k: "64 * ?k + 64 \<le> length (blk s ?n)" and da: "length (d_addrs (to_disk x)) = 13" using l a by (simp_all add: to_disk_def)
  obtain t where t: "iupdate ip s = Ok () t" "tb.changed ?n (put_dinode ?k (to_disk x) (blk s ?n)) s t"
    using iupdate_Ok [OF assms(1-3) x(1,2) n] by blast
  have ct: "tx t" "pin t = Map.empty" "memdisk t = memdisk s" "blk t ?n = put_dinode ?k (to_disk x) (blk s ?n)" "icache t = icache s"
    using t(2) assms(3) icache_frame [of s t] by (auto simp: tb.changed_def)
  let ?t = "t\<lparr>icache := (icache t)[ip := y]\<rparr>"
  have g: "get_dinode ?k (blk ?t ?n) = to_disk x" using get_put_dinode [OF da k] ct by simp
  have "room ?t 0" using tb.changed_spare [OF assms(1) t(2), of 0] assms(2) by simp
  then obtain u where u: "ilock_load ip ?t = Ok () u" "tb.same (?t\<lparr>icache := (icache ?t)[ip := y\<lparr>i_type := d_type (to_disk x),
      i_major := d_major (to_disk x), i_minor := d_minor (to_disk x), i_nlink := d_nlink (to_disk x), i_size := d_size (to_disk x),
      i_addrs := d_addrs (to_disk x), i_valid := True\<rparr>]\<rparr>) u"
    using ilock_load_Ok [of ?t 0 ip y "to_disk x"] ct x n y g a by (auto simp: to_disk_def)
  have "icache u = (icache s)[ip := y\<lparr>i_type := d_type (to_disk x),
      i_major := d_major (to_disk x), i_minor := d_minor (to_disk x), i_nlink := d_nlink (to_disk x), i_size := d_size (to_disk x),
      i_addrs := d_addrs (to_disk x), i_valid := True\<rparr>]"
    using icache_frame u(2) ct(5) by (fastforce simp: tb.same_def)
  then have "to_disk (icache u ! ip) = to_disk x" using x by (simp add: to_disk_def)
  moreover have "get_dinode j (blk t ?n) = get_dinode j (blk s ?n)" if "j < 8" "j \<noteq> ?k" for j
    unfolding ct(4) using get_put_dinode_other [OF da k _ that(2)] that(1) l by simp
  ultimately show ?thesis using t(1) u(1) by blast
qed

definition file3 :: inode where
  "file3 = inode0\<lparr>i_dev := 1, i_inum := 3, i_ref := 1, i_busy := True, i_valid := True, i_type := 2, i_nlink := 1, i_size := 700,
     i_addrs := 5 # replicate 12 0\<rparr>"

theorem iupdate_ilock_roundtrip_witness:
  "\<exists>s t u. binit (fs0\<lparr>icache := [file3]\<rparr>) = Ok () s \<and> iupdate 0 s = Ok () t \<and>
    ilock_load 0 (t\<lparr>icache := (icache t)[0 := inode0\<lparr>i_dev := 1, i_inum := 3\<rparr>]\<rparr>) = Ok () u \<and>
    i_size (icache u ! 0) = 700 \<and> i_addrs (icache u ! 0) ! 0 = 5"
proof -
  let ?f = "fs0\<lparr>icache := [file3]\<rparr>"
  obtain s where s: "binit ?f = Ok () s" "s = ?f\<lparr>bufs := bufs s\<rparr>" "tx s" "pin s = Map.empty" "blk s = (\<lambda>n. image0 ! unat n)"
    using boot_tx [of ?f] fs0_simps by auto
  obtain B where B: "s = ?f\<lparr>bufs := B\<rparr>" using s(2) by blast
  have f: "memdisk s = image0" "room s 1" "icache s = [file3]" unfolding B by (simp_all add: fs0_simps room_def)
  have i: "IBLOCK (i_inum file3) = 2" by (simp add: IBLOCK_def file3_def)
  obtain t u where "iupdate 0 s = Ok () t" "ilock_load 0 (t\<lparr>icache := (icache t)[0 := inode0\<lparr>i_dev := 1, i_inum := 3\<rparr>]\<rparr>) = Ok () u"
    "to_disk (icache u ! 0) = to_disk file3"
    using iupdate_ilock_roundtrip [OF s(3) f(2) s(4), of 0 file3 "inode0\<lparr>i_dev := 1, i_inum := 3\<rparr>"] f i s(5) image0_simps
    by (auto simp: file3_def inode0_def)
  then show ?thesis using s(1) by (intro exI [of _ s] exI [of _ t] exI [of _ u]) (auto simp: to_disk_def file3_def)
qed

text \<open>
  C21. \<^bold>\<open>An unlinked inode is never freed\<close>. \<open>iput\<close> is meant to free the inode and its blocks when
  the last reference to an inode without links goes. But \<open>iunlock\<close> clears \<open>I_VALID\<close>, which \<open>iput\<close> tests:
  after \<open>iunlockput\<close> of the last reference the cache entry is free, and nothing has been written: type,
  size and blocks of the inode on the disk are as before.
\<close>

theorem iunlockput_never_frees:
  fixes s :: "'z inodes_scheme"
  assumes "ip < length (icache s)" and "i_busy (icache s ! ip)" and "i_ref (icache s ! ip) = 1" and "i_nlink (icache s ! ip) = 0"
    and "i_valid (icache s ! ip)" and "LK_icache \<notin> set (held s)" and "LK_ptable \<notin> set (held s)"
  shows "\<exists>t. iunlockput ip s = Ok () t \<and> i_ref (icache t ! ip) = 0 \<and> blk t = blk s \<and> memdisk t = memdisk s \<and>
    logged t = logged s"
proof -
  let ?pt = "map (\<lambda>p. if p_state p = SLEEPING \<and> p_chan p = Some (CH_inode ip) then p\<lparr>p_state := RUNNABLE\<rparr> else p) (ptable s)"
  let ?x = "(icache s ! ip)\<lparr>i_busy := False, i_valid := False, i_ref := 0\<rparr>"
  let ?t = "s\<lparr>ptable := ?pt, icache := (icache s)[ip := ?x]\<rparr>"
  have "iunlockput ip s = Ok () ?t"
    using assms by (simp add: iunlockput_def iunlock_def iput_def the_inode_def upd_inode_def acquire_def release_def wakeup_Ok)
  moreover have "blk ?t = blk s" "logged ?t = logged s" using cache_cong(1) [of ?t s] by (simp_all add: logged_def)
  ultimately show ?thesis using assms(1) by auto
qed

theorem iunlockput_never_frees_witness:
  "\<exists>t. iunlockput 0 (fs0\<lparr>icache := [file3\<lparr>i_nlink := 0\<rparr>]\<rparr>) = Ok () t \<and> i_ref (icache t ! 0) = 0 \<and> memdisk t = image0"
  using iunlockput_never_frees [of 0 "fs0\<lparr>icache := [file3\<lparr>i_nlink := 0\<rparr>]\<rparr>"] fs0_simps by (auto simp: file3_def)

end
