(* ===== verification/Machine.thy ===== *)
theory Machine
  imports Inode
begin

unbundle bit_operations_syntax

text \<open>
  The processors and interrupt controllers of the machine: the tables in which the BIOS
  describes the processors (\<^verbatim>\<open>mp.c\<close>, \<^verbatim>\<open>mp.h\<close>), the 8259A controllers (\<^verbatim>\<open>picirq.c\<close>), the I/O APIC
  (\<^verbatim>\<open>ioapic.c\<close>), the local APIC with the real time clock (\<^verbatim>\<open>lapic.c\<close>) and the timer
  (\<^verbatim>\<open>timer.c\<close>). Registers are fields of the state; \<open>cmos_in\<close> are the contents that the registers
  of the clock have at the successive reads of its data port, which returns the register last
  selected through port \<open>0x70\<close>.
\<close>

record machs = inodes +
  irqmask :: u16
  ismp :: bool
  ncpu :: nat
  bcpu :: nat
  cpu_ids :: "byte list"
  ioapicid :: byte
  io_regs :: "u32 \<Rightarrow> u32"
  lapic :: u32
  lapic_regs :: "u32 \<Rightarrow> u32"
  lapic_log :: "(u32 \<times> u32) list"
  cmos_in :: "(byte \<Rightarrow> byte) list"
  imcr :: byte

type_synonym ('z, 'a) machf = "('z machs_scheme, 'a) kfun"

section \<open>Processors\<close>

text \<open>The bytes of a structure in memory.\<close>

definition rd_bytes :: "mem \<Rightarrow> u32 \<Rightarrow> nat \<Rightarrow> byte list" where
  "rd_bytes m a n = map (\<lambda>i. m (a + of_nat i)) [0..<n]"

definition mp_sum :: "byte list \<Rightarrow> byte" where
  "mp_sum bs = fold (+) bs 0"

text \<open>The search for the signature in steps of 16 bytes.\<close>

primrec mpsearch1_from :: "nat \<Rightarrow> mem \<Rightarrow> u32 \<Rightarrow> u32" where
  "mpsearch1_from 0 m p = 0"
| "mpsearch1_from (Suc n) m p =
     (if memcmp (at m p) (cs (map of_char ''_MP_'')) 4 = 0 \<and> mp_sum (rd_bytes m p 16) = 0 then p
      else mpsearch1_from n m (p + 16))"

definition mpsearch1 :: "mem \<Rightarrow> u32 \<Rightarrow> nat \<Rightarrow> u32" where
  "mpsearch1 m a len = mpsearch1_from (len div 16) m (p2v a)"

definition mpsearch :: "mem \<Rightarrow> u32" where
  "mpsearch m =
     (let bda = p2v 0x400;
          p = push_bit 4 (push_bit 8 (ucast (m (bda + 0x0F))) OR ucast (m (bda + 0x0E)));
          mp = (if p \<noteq> 0 then mpsearch1 m p 1024
                else mpsearch1 m ((push_bit 8 (ucast (m (bda + 0x14))) OR ucast (m (bda + 0x13))) * 1024 - 1024) 1024)
      in if mp \<noteq> 0 then mp else mpsearch1 m 0xF0000 0x10000)"

definition mpconfig :: "mem \<Rightarrow> (u32 \<times> u32) option" where
  "mpconfig m =
     (let mp = mpsearch m in
      if mp = 0 \<or> ld32 m (mp + 4) = 0 then None
      else
        (let conf = p2v (ld32 m (mp + 4)) in
         if memcmp (at m conf) (cs (map of_char ''PCMP'')) 4 \<noteq> 0 then None
         else if m (conf + 6) \<noteq> 1 \<and> m (conf + 6) \<noteq> 4 then None
         else if mp_sum (rd_bytes m conf (unat (word16 (rd_bytes m (conf + 4) 2)))) \<noteq> 0 then None
         else Some (mp, conf)))"

abbreviation (input) "NCPU \<equiv> (8::nat)"

text \<open>
  The loop over the entries of the table. An entry of unknown type is reported and not skipped.
\<close>

definition mp_proc :: "u32 \<Rightarrow> ('z, unit) machf" where
  "mp_proc p =
     bnd (gets (\<lambda>s. mem s)) (\<lambda>m.
     bnd (gets ncpu) (\<lambda>n.
     thn (whenk (n \<noteq> unat (m (p + 1)))
       (thn (cprintf ''mpinit: ncpu apicid'') (modify (\<lambda>s. s\<lparr>ismp := False\<rparr>))))
     (thn (whenk (m (p + 3) AND 2 \<noteq> 0) (modify (\<lambda>s. s\<lparr>bcpu := n\<rparr>)))
     (if n \<ge> NCPU then fault ''cpus[ncpu]''
      else modify (\<lambda>s. s\<lparr>cpu_ids := (cpu_ids s)[n := of_nat n], ncpu := n + 1\<rparr>)))))"

primrec mp_entries :: "nat \<Rightarrow> u32 \<Rightarrow> u32 \<Rightarrow> ('z, unit) machf" where
  "mp_entries 0 p e = diverge"
| "mp_entries (Suc k) p e =
     (if \<not> p < e then ret ()
      else
        bnd (gets (\<lambda>s. mem s p)) (\<lambda>ty.
        if ty = 0 then thn (mp_proc p) (mp_entries k (p + 20) e)
        else if ty = 2 then
          thn (modify (\<lambda>s. s\<lparr>ioapicid := mem s (p + 1)\<rparr>)) (mp_entries k (p + 8) e)
        else if ty = 1 \<or> ty = 3 \<or> ty = 4 then mp_entries k (p + 8) e
        else
          thn (cprintf ''mpinit: unknown config type'')
          (thn (modify (\<lambda>s. s\<lparr>ismp := False\<rparr>))
          (mp_entries k p e))))"

text \<open>
  Every known entry has at least 8 bytes and the table at most \<open>2 ^ 16\<close>, so that the loop over
  known entries ends within the given number of turns.
\<close>

definition mpinit :: "('z, unit) machf" where
  "mpinit =
     thn (modify (\<lambda>s. s\<lparr>bcpu := 0\<rparr>))
     (bnd (gets (\<lambda>s. mpconfig (mem s))) (\<lambda>r. case r of None \<Rightarrow> ret ()
      | Some (mp, conf) \<Rightarrow>
          thn (modify (\<lambda>s. s\<lparr>ismp := True, lapic := ld32 (mem s) (conf + 36)\<rparr>))
          (bnd (gets (\<lambda>s. word16 (rd_bytes (mem s) (conf + 4) 2))) (\<lambda>len.
           thn (mp_entries 8193 (conf + 44) (conf + ucast len))
           (bnd (gets ismp) (\<lambda>b.
            if \<not> b then modify (\<lambda>s. s\<lparr>ncpu := 1, lapic := 0, ioapicid := 0\<rparr>)
            else
              bnd (gets (\<lambda>s. mem s (mp + 12))) (\<lambda>imcrp.
              whenk (imcrp \<noteq> 0)
                (thn (outb 0x22 0x70)
                (bnd (gets imcr) (\<lambda>v. outb 0x23 (v OR 1)))))))))))"

section \<open>The 8259A controllers and the timer\<close>

definition picsetmask :: "u16 \<Rightarrow> ('z, unit) machf" where
  "picsetmask mk =
     thn (modify (\<lambda>s. s\<lparr>irqmask := mk\<rparr>))
     (thn (outb 0x21 (ucast mk))
     (outb 0xA1 (ucast (drop_bit 8 mk))))"

definition picenable :: "nat \<Rightarrow> ('z, unit) machf" where
  "picenable irq = bnd (gets irqmask) (\<lambda>m. picsetmask (m AND NOT (push_bit irq 1)))"

definition picinit :: "('z, unit) machf" where
  "picinit =
     thn (for_each [(0x21, 0xFF), (0xA1, 0xFF), (0x20, 0x11), (0x21, 32), (0x21, push_bit 2 1), (0x21, 0x3),
            (0xA0, 0x11), (0xA1, 40), (0xA1, 2), (0xA1, 0x3), (0x20, 0x68), (0x20, 0x0a), (0xA0, 0x68), (0xA0, 0x0a)]
            (\<lambda>(p, v). outb p v))
     (bnd (gets irqmask) (\<lambda>m. whenk (m \<noteq> 0xFFFF) (picsetmask m)))"

definition TIMER_DIV :: "nat \<Rightarrow> nat" where
  "TIMER_DIV x = (1193182 + x div 2) div x"

definition timerinit :: "('z, unit) machf" where
  "timerinit =
     thn (outb 0x43 (0x00 OR 0x04 OR 0x30))
     (thn (outb 0x40 (of_nat (TIMER_DIV 100 mod 256)))
     (thn (outb 0x40 (of_nat (TIMER_DIV 100 div 256)))
     (picenable 0)))"

section \<open>The I/O APIC\<close>

definition ioapicread :: "u32 \<Rightarrow> ('z, u32) machf" where
  "ioapicread reg = gets (\<lambda>s. io_regs s reg)"

definition ioapicwrite :: "u32 \<Rightarrow> u32 \<Rightarrow> ('z, unit) machf" where
  "ioapicwrite reg data = modify (\<lambda>s. s\<lparr>io_regs := (io_regs s)(reg := data)\<rparr>)"

definition ioapicinit :: "('z, unit) machf" where
  "ioapicinit =
     bnd (gets ismp) (\<lambda>b. whenk b
       (bnd (ioapicread 1) (\<lambda>ver.
        let maxintr = drop_bit 16 ver AND 0xFF in
        bnd (ioapicread 0) (\<lambda>v.
        bnd (gets ioapicid) (\<lambda>id.
        thn (whenk (drop_bit 24 v \<noteq> ucast id) (cprintf ''ioapicinit: id isn't equal to ioapicid; not a MP''))
        (for_each [0..<unat maxintr + 1] (\<lambda>i.
           thn (ioapicwrite (0x10 + 2 * of_nat i) (0x00010000 OR (32 + of_nat i)))
           (ioapicwrite (0x10 + 2 * of_nat i + 1) 0))))))))"

definition ioapicenable :: "nat \<Rightarrow> nat \<Rightarrow> ('z, unit) machf" where
  "ioapicenable irq cpu =
     bnd (gets ismp) (\<lambda>b. whenk b
       (thn (ioapicwrite (0x10 + 2 * of_nat irq) (32 + of_nat irq))
       (ioapicwrite (0x10 + 2 * of_nat irq + 1) (push_bit 24 (of_nat cpu)))))"

section \<open>The local APIC\<close>

definition lapicw :: "u32 \<Rightarrow> u32 \<Rightarrow> ('z, unit) machf" where
  "lapicw index val =
     modify (\<lambda>s. s\<lparr>lapic_regs := (lapic_regs s)(index := val), lapic_log := lapic_log s @ [(index, val)]\<rparr>)"

abbreviation (input) "A_ID \<equiv> (0x0020 div 4 :: u32)"
abbreviation (input) "A_VER \<equiv> (0x0030 div 4 :: u32)"
abbreviation (input) "A_TPR \<equiv> (0x0080 div 4 :: u32)"
abbreviation (input) "A_EOI \<equiv> (0x00B0 div 4 :: u32)"
abbreviation (input) "A_SVR \<equiv> (0x00F0 div 4 :: u32)"
abbreviation (input) "A_ESR \<equiv> (0x0280 div 4 :: u32)"
abbreviation (input) "A_ICRLO \<equiv> (0x0300 div 4 :: u32)"
abbreviation (input) "A_ICRHI \<equiv> (0x0310 div 4 :: u32)"
abbreviation (input) "A_TIMER \<equiv> (0x0320 div 4 :: u32)"
abbreviation (input) "A_PCINT \<equiv> (0x0340 div 4 :: u32)"
abbreviation (input) "A_LINT0 \<equiv> (0x0350 div 4 :: u32)"
abbreviation (input) "A_LINT1 \<equiv> (0x0360 div 4 :: u32)"
abbreviation (input) "A_ERROR \<equiv> (0x0370 div 4 :: u32)"
abbreviation (input) "A_TICR \<equiv> (0x0380 div 4 :: u32)"
abbreviation (input) "A_TDCR \<equiv> (0x03E0 div 4 :: u32)"
abbreviation (input) "A_INIT \<equiv> (0x500 :: u32)"
abbreviation (input) "A_STARTUP \<equiv> (0x600 :: u32)"
abbreviation (input) "A_DELIVS \<equiv> (0x1000 :: u32)"
abbreviation (input) "A_ASSERT \<equiv> (0x4000 :: u32)"
abbreviation (input) "A_LEVEL \<equiv> (0x8000 :: u32)"
abbreviation (input) "A_MASKED \<equiv> (0x10000 :: u32)"
abbreviation (input) "A_BCAST \<equiv> (0x80000 :: u32)"

definition lapicinit :: "('z, unit) machf" where
  "lapicinit =
     bnd (gets lapic) (\<lambda>l. if l = 0 then ret ()
     else
       thn (lapicw A_SVR (0x100 OR (32 + 31)))
       (thn (lapicw A_TDCR 0x0000000B)
       (thn (lapicw A_TIMER (0x00020000 OR (32 + 0)))
       (thn (lapicw A_TICR 10000000)
       (thn (lapicw A_LINT0 A_MASKED)
       (thn (lapicw A_LINT1 A_MASKED)
       (bnd (gets (\<lambda>s. lapic_regs s A_VER)) (\<lambda>ver.
        thn (whenk (drop_bit 16 ver AND 0xFF \<ge> 4) (lapicw A_PCINT A_MASKED))
        (thn (lapicw A_ERROR (32 + 19))
        (thn (lapicw A_ESR 0)
        (thn (lapicw A_ESR 0)
        (thn (lapicw A_EOI 0)
        (thn (lapicw A_ICRHI 0)
        (thn (lapicw A_ICRLO (A_BCAST OR A_INIT OR A_LEVEL))
        (bnd (gets (\<lambda>s. lapic_regs s A_ICRLO)) (\<lambda>v.
         if v AND A_DELIVS \<noteq> 0 then diverge
         else lapicw A_TPR 0))))))))))))))))"

definition cpunum :: "('z, u32) machf" where
  "cpunum = gets (\<lambda>s. if lapic s \<noteq> 0 then drop_bit 24 (lapic_regs s A_ID) else 0)"

definition lapiceoi :: "('z, unit) machf" where
  "lapiceoi = bnd (gets lapic) (\<lambda>l. whenk (l \<noteq> 0) (lapicw A_EOI 0))"

definition lapicstartap :: "byte \<Rightarrow> u32 \<Rightarrow> ('z, unit) machf" where
  "lapicstartap apicid addr =
     thn (outb 0x70 0xF)
     (thn (outb 0x71 0x0A)
     (thn (modify (\<lambda>s. s\<lparr>mem := wr_bytes (mem s) (p2v (push_bit 4 0x40 OR 0x67)) (bytes16 0 @ bytes16 (ucast (drop_bit 4 addr)))\<rparr>))
     (thn (lapicw A_ICRHI (push_bit 24 (ucast apicid)))
     (thn (lapicw A_ICRLO (A_INIT OR A_LEVEL OR A_ASSERT))
     (thn (lapicw A_ICRLO (A_INIT OR A_LEVEL))
     (for_each [0..<2::nat] (\<lambda>i.
        thn (lapicw A_ICRHI (push_bit 24 (ucast apicid)))
        (lapicw A_ICRLO (A_STARTUP OR drop_bit 12 addr)))))))))"

section \<open>The real time clock\<close>

record rtcdate =
  rt_second :: u32
  rt_minute :: u32
  rt_hour :: u32
  rt_day :: u32
  rt_month :: u32
  rt_year :: u32

definition cmos_read :: "byte \<Rightarrow> ('z, u32) machf" where
  "cmos_read reg =
     thn (outb 0x70 reg)
     (\<lambda>s. case cmos_in s of
        [] \<Rightarrow> Diverge
      | v # vs \<Rightarrow> Ok (ucast (v (port (outp s) 0x70))) (s\<lparr>cmos_in := vs\<rparr>))"

definition fill_rtcdate :: "('z, rtcdate) machf" where
  "fill_rtcdate =
     bnd (cmos_read 0x00) (\<lambda>sec.
     bnd (cmos_read 0x02) (\<lambda>mi.
     bnd (cmos_read 0x04) (\<lambda>h.
     bnd (cmos_read 0x07) (\<lambda>d.
     bnd (cmos_read 0x08) (\<lambda>mo.
     bnd (cmos_read 0x09) (\<lambda>y.
     ret \<lparr>rt_second = sec, rt_minute = mi, rt_hour = h, rt_day = d, rt_month = mo, rt_year = y\<rparr>))))))"

text \<open>The loop of \<open>cmostime\<close>: each turn reads at least seven values.\<close>

primrec cmos_stable :: "nat \<Rightarrow> ('z, rtcdate) machf" where
  "cmos_stable 0 = diverge"
| "cmos_stable (Suc n) =
     bnd fill_rtcdate (\<lambda>t1.
     bnd (cmos_read 0x0a) (\<lambda>a.
     if a AND push_bit 7 1 \<noteq> 0 then cmos_stable n
     else bnd fill_rtcdate (\<lambda>t2. if t1 = t2 then ret t1 else cmos_stable n)))"

definition bcd_conv :: "u32 \<Rightarrow> u32" where
  "bcd_conv x = drop_bit 4 x * 10 + (x AND 0xf)"

definition conv_rtcdate :: "rtcdate \<Rightarrow> rtcdate" where
  "conv_rtcdate t = \<lparr>rt_second = bcd_conv (rt_second t), rt_minute = bcd_conv (rt_minute t), rt_hour = bcd_conv (rt_hour t),
     rt_day = bcd_conv (rt_day t), rt_month = bcd_conv (rt_month t), rt_year = bcd_conv (rt_year t)\<rparr>"

definition cmostime :: "('z, rtcdate) machf" where
  "cmostime =
     bnd (cmos_read 0x0b) (\<lambda>sb.
     bnd (gets (\<lambda>s. length (cmos_in s))) (\<lambda>n.
     bnd (cmos_stable (Suc n)) (\<lambda>t1.
     let t1 = (if sb AND push_bit 2 1 = 0 then conv_rtcdate t1 else t1) in
     ret (t1\<lparr>rt_year := rt_year t1 + 2000\<rparr>))))"

section \<open>An initial machine\<close>

definition mach0 :: machs where
  "mach0 = inodes.extend fs0 (machs.fields 0xFFFB False 1 0 (replicate 8 0) 0 (\<lambda>_. 0) 0 (\<lambda>_. 0) [] [] 0)"

lemma mach0_held [simp]: "held mach0 = []"
  by (simp add: mach0_def inodes.defs machs.defs fs0_simps(3) [symmetric])

section \<open>The table of processors\<close>

text \<open>Where the loop over the table is after \<open>j\<close> turns, as long as it meets known entries.\<close>

primrec entry_pos :: "nat \<Rightarrow> mem \<Rightarrow> u32 \<Rightarrow> u32" where
  "entry_pos 0 m p = p"
| "entry_pos (Suc j) m p = entry_pos j m (if m p = 0 then p + 20 else p + 8)"

definition known :: "byte \<Rightarrow> bool" where
  "known ty \<longleftrightarrow> ty \<in> {0, 1, 2, 3, 4}"

lemma mp_proc_cases: "mp_proc p s = Fault ''cpus[ncpu]'' \<or> (\<exists>t. mp_proc p s = Ok () t \<and> mem t = mem s)"
  by (simp add: mp_proc_def cprintf_def)

lemma unat_step: "unat p + k < 2 ^ 32 \<Longrightarrow> k < 2 ^ 32 \<Longrightarrow> unat ((p::u32) + of_nat k) = unat p + k"
  by (simp add: unat_word_ariths unat_of_nat)

lemma mp_entries_ends:
  fixes s :: "'z machs_scheme"
  assumes "unat e + 20 < 2 ^ 32" and "unat e < unat p + 8 * k"
    and "\<And>j. entry_pos j (mem s) p < e \<Longrightarrow> known (mem s (entry_pos j (mem s) p))"
  shows "mp_entries (Suc k) p e s \<noteq> Diverge"
  using assms
proof (induction k arbitrary: p s)
  case 0
  then have "\<not> p < e" by (simp add: word_less_nat_alt)
  then show ?case by simp
next
  case (Suc k)
  show ?case
  proof (cases "p < e")
    case False
    then show ?thesis by simp
  next
    case lt: True
    have k: "known (mem s p)" using Suc.prems(3) [of 0] lt by simp
    have b: "unat p + 20 < 2 ^ 32" using lt Suc.prems(1) by (simp add: word_less_nat_alt)
    have u: "unat (p + 20) = unat p + 20" "unat (p + 8) = unat p + 8"
      using unat_step [of p 20] unat_step [of p 8] b by simp_all
    have next8: "mp_entries (Suc k) (p + 8) e t \<noteq> Diverge" if "mem t = mem s" "mem s p \<noteq> 0" for t :: "'z machs_scheme"
      using Suc.IH [of "p + 8" t] Suc.prems(1,2) Suc.prems(3) [of "Suc j" for j] that u by simp
    have next20: "mp_entries (Suc k) (p + 20) e t \<noteq> Diverge" if "mem t = mem s" "mem s p = 0" for t :: "'z machs_scheme"
      using Suc.IH [of "p + 20" t] Suc.prems(1,2) Suc.prems(3) [of "Suc j" for j] that u by simp
    from k consider "mem s p = 0" | "mem s p = 2" | "mem s p = 1 \<or> mem s p = 3 \<or> mem s p = 4"
      by (auto simp: known_def)
    then show ?thesis
    proof cases
      case 1
      then show ?thesis using lt mp_proc_cases [of p s] next20
        by (subst mp_entries.simps(2)) (auto simp del: mp_entries.simps)
    next
      case 2
      then show ?thesis using lt next8 [of "s\<lparr>ioapicid := mem s (p + 1)\<rparr>"]
        by (subst mp_entries.simps(2)) (simp del: mp_entries.simps)
    next
      case 3
      then show ?thesis using lt next8 [of s]
        by (subst mp_entries.simps(2)) (auto simp del: mp_entries.simps)
    qed
  qed
qed

lemma mp_entries_stuck:
  assumes "p < e" and "\<not> known (mem s p)"
  shows "mp_entries k p e s = Diverge"
  using assms(2)
proof (induction k arbitrary: s)
  case (Suc k)
  then show ?case using assms(1) by (auto simp: known_def cprintf_def)
qed simp

text \<open>
  C37. The loop over the table ends. If every entry that the loop of \<open>mpinit\<close> comes to has one of
  the known types, the loop returns (or indexes past the table of processors) within the number
  of turns the model gives it: each turn advances by at least 8 bytes, and the length of a table
  is a 16-bit number.
\<close>

theorem mp_table_loop_ends:
  assumes "unat conf + 70000 < 2 ^ 32"
    and "\<forall>j. entry_pos j (mem s) (conf + 44) < conf + ucast len \<longrightarrow> known (mem s (entry_pos j (mem s) (conf + 44)))"
  shows "mp_entries 8193 (conf + 44) (conf + ucast (len :: u16)) s \<noteq> Diverge"
proof -
  have l: "unat (ucast len :: u32) < 65536"
  proof -
    have "unat len < 2 ^ LENGTH(16)" by (rule unsigned_less)
    then show ?thesis by (simp add: unsigned_ucast_eq take_bit_nat_eq_self)
  qed
  have e: "unat (conf + ucast len) = unat conf + unat (ucast len :: u32)"
    using unat_step [of conf "unat (ucast len :: u32)"] assms(1) l by simp
  have p: "unat (conf + 44) = unat conf + 44" using unat_step [of conf 44] assms(1) by simp
  have "mp_entries (Suc 8192) (conf + 44) (conf + ucast len) s \<noteq> Diverge"
    by (rule mp_entries_ends) (use assms e p l in simp_all)
  then show ?thesis by simp
qed

theorem mp_table_loop_ends_witness:
  "mp_entries 8193 (0x80001000 + 44) (0x80001000 + ucast (100 :: u16)) (mach0\<lparr>mem := (\<lambda>_. 1)\<rparr>) \<noteq> Diverge"
  by (rule mp_table_loop_ends) (simp_all add: known_def)

text \<open>
  C38. An unknown entry is never skipped. When the loop of \<open>mpinit\<close> comes to an entry of another
  type it reports it, and then looks at the same entry again: it never ends, although the code
  that follows is meant to fall back to one processor.
\<close>

theorem mp_unknown_entry_hangs:
  assumes "p < e" and "mem s p \<notin> {0, 1, 2, 3, 4}"
  shows "mp_entries k p e s = Diverge"
  using mp_entries_stuck [of p e s k] assms by (simp add: known_def)

theorem mp_unknown_entry_hangs_witness:
  "mp_entries 8193 0x80001000 0x80001100 (mach0\<lparr>mem := (\<lambda>_. 9)\<rparr>) = Diverge"
  by (rule mp_unknown_entry_hangs) simp_all

section \<open>The clock\<close>

definition bcd :: "nat \<Rightarrow> byte" where
  "bcd d = of_nat (16 * (d div 10) + d mod 10)"

lemma and_0xf: "(x::u32) AND 0xf = take_bit 4 x"
  by (simp add: take_bit_eq_mask mask_eq_exp_minus_1)

lemma bcd_conv_decodes:
  assumes "d \<le> 99"
  shows "bcd_conv (ucast (bcd d)) = of_nat d"
proof -
  let ?n = "16 * (d div 10) + d mod 10"
  have n: "?n < 256" using assms by (simp add: div_le_mono [of d 99 10, simplified])
  have "unat (ucast (of_nat k :: byte) :: u32) = k" if "k < 256" for k
    using that by (simp add: unsigned_ucast_eq unat_of_nat take_bit_nat_eq_self)
  then have u: "unat (ucast (bcd d) :: u32) = ?n" using n unfolding bcd_def by blast
  have "unat (drop_bit 4 (ucast (bcd d) :: u32)) = ?n div 16" using u by (simp add: drop_bit_eq_div unat_div)
  moreover have "unat ((ucast (bcd d) :: u32) AND 0xf) = ?n mod 16"
    using u by (simp add: and_0xf take_bit_eq_mod unat_mod)
  ultimately show ?thesis
    using assms by (simp add: bcd_conv_def word_unat_eq_iff unat_word_ariths unat_of_nat)
qed

text \<open>
  The date that six successive reads of the registers give, an attempt of the loop of
  \<open>cmostime\<close> that fails because an update is in progress or because the two readings differ,
  and one that succeeds.
\<close>

definition raw_date :: "(byte \<Rightarrow> byte) list \<Rightarrow> rtcdate" where
  "raw_date r = \<lparr>rt_second = ucast ((r ! 0) 0x00), rt_minute = ucast ((r ! 1) 0x02), rt_hour = ucast ((r ! 2) 0x04),
     rt_day = ucast ((r ! 3) 0x07), rt_month = ucast ((r ! 4) 0x08), rt_year = ucast ((r ! 5) 0x09)\<rparr>"

definition busy_attempt :: "(byte \<Rightarrow> byte) list \<Rightarrow> bool" where
  "busy_attempt x \<longleftrightarrow> length x = 7 \<and> bit ((x ! 6) 0x0a) 7"

definition torn_attempt :: "(byte \<Rightarrow> byte) list \<Rightarrow> bool" where
  "torn_attempt x \<longleftrightarrow> length x = 13 \<and> \<not> bit ((x ! 6) 0x0a) 7 \<and> raw_date (take 6 x) \<noteq> raw_date (drop 7 x)"

definition good_attempt :: "(byte \<Rightarrow> byte) list \<Rightarrow> bool" where
  "good_attempt x \<longleftrightarrow> length x = 13 \<and> \<not> bit ((x ! 6) 0x0a) 7 \<and> raw_date (take 6 x) = raw_date (drop 7 x)"

lemma cmos_read_Ok:
  "cmos_in s = v # vs \<Longrightarrow> \<exists>q. cmos_read r s = Ok (ucast (v r)) (s\<lparr>outp := q, cmos_in := vs\<rparr>)"
  by (simp add: cmos_read_def outb_def port_def) blast

lemma fill_rtcdate_Ok:
  assumes "cmos_in s = r @ vs" and "length r = 6"
  shows "\<exists>q. fill_rtcdate s = Ok (raw_date r) (s\<lparr>outp := q, cmos_in := vs\<rparr>)"
proof -
  from assms(2) obtain a b c d e f where "r = [a, b, c, d, e, f]"
    by (auto simp: eval_nat_numeral length_Suc_conv)
  then show ?thesis
    using assms(1) by (simp add: fill_rtcdate_def cmos_read_def outb_def port_def raw_date_def) blast
qed

lemma and_uip: "((ucast (a :: byte) :: u32) AND push_bit 7 1 \<noteq> 0) = bit a 7"
proof -
  have "((ucast a :: u32) AND push_bit 7 1 \<noteq> 0) = bit (ucast a :: u32) 7"
    by (simp only: bit_iff_and_push_bit_not_eq_0)
  then show ?thesis by (simp add: bit_ucast_iff)
qed

text \<open>One turn of the loop: the first reading, the update flag, and the second reading.\<close>

lemma cmos_turn_flag:
  assumes "cmos_in s = x @ vs" and "7 \<le> length x"
  shows "\<exists>q. cmos_stable (Suc n) s =
     (if bit ((x ! 6) 0x0a) 7 then cmos_stable n (s\<lparr>outp := q, cmos_in := drop 7 x @ vs\<rparr>)
      else bnd fill_rtcdate (\<lambda>t2. if raw_date (take 6 x) = t2 then ret (raw_date (take 6 x)) else cmos_stable n)
        (s\<lparr>outp := q, cmos_in := drop 7 x @ vs\<rparr>))"
proof -
  have x: "x = take 6 x @ x ! 6 # drop 7 x"
    using assms(2) id_take_nth_drop [of 6 x] by simp
  then have "cmos_in s = take 6 x @ (x ! 6 # drop 7 x @ vs)" using assms(1) by (metis append.assoc append_Cons)
  then obtain q where q: "fill_rtcdate s = Ok (raw_date (take 6 x)) (s\<lparr>outp := q, cmos_in := x ! 6 # drop 7 x @ vs\<rparr>)"
    using fill_rtcdate_Ok [of s "take 6 x"] assms(2) by auto
  let ?t = "s\<lparr>outp := q, cmos_in := x ! 6 # drop 7 x @ vs\<rparr>"
  obtain q2 where q2: "cmos_read 0x0a ?t = Ok (ucast ((x ! 6) 0x0a)) (?t\<lparr>outp := q2, cmos_in := drop 7 x @ vs\<rparr>)"
    using cmos_read_Ok [of ?t "x ! 6" "drop 7 x @ vs" "0x0a"] by auto
  have "cmos_stable (Suc n) s =
     (if bit ((x ! 6) 0x0a) 7 then cmos_stable n (s\<lparr>outp := q2, cmos_in := drop 7 x @ vs\<rparr>)
      else bnd fill_rtcdate (\<lambda>t2. if raw_date (take 6 x) = t2 then ret (raw_date (take 6 x)) else cmos_stable n)
        (s\<lparr>outp := q2, cmos_in := drop 7 x @ vs\<rparr>))"
    using q q2 and_uip [of "(x ! 6) 0x0a"] by (simp add: push_bit_eq_mult)
  then show ?thesis by blast
qed

lemma cmos_turn:
  fixes s :: "'z machs_scheme"
  assumes "cmos_in s = x @ vs" and "busy_attempt x \<or> torn_attempt x \<or> good_attempt x"
  shows "\<exists>q. cmos_stable (Suc n) s =
     (if good_attempt x then Ok (raw_date (take 6 x)) (s\<lparr>outp := q, cmos_in := vs\<rparr>)
      else cmos_stable n (s\<lparr>outp := q, cmos_in := vs\<rparr>))"
proof -
  have "7 \<le> length x" using assms(2) by (auto simp: busy_attempt_def torn_attempt_def good_attempt_def)
  then obtain q where q: "cmos_stable (Suc n) s =
     (if bit ((x ! 6) 0x0a) 7 then cmos_stable n (s\<lparr>outp := q, cmos_in := drop 7 x @ vs\<rparr>)
      else bnd fill_rtcdate (\<lambda>t2. if raw_date (take 6 x) = t2 then ret (raw_date (take 6 x)) else cmos_stable n)
        (s\<lparr>outp := q, cmos_in := drop 7 x @ vs\<rparr>))" using cmos_turn_flag [OF assms(1)] by blast
  show ?thesis
  proof (cases "busy_attempt x")
    case True
    then show ?thesis using q by (auto simp: busy_attempt_def good_attempt_def)
  next
    case False
    let ?t = "s\<lparr>outp := q, cmos_in := drop 7 x @ vs\<rparr>"
    have x: "length (drop 7 x) = 6" "\<not> bit ((x ! 6) 0x0a) 7" "raw_date (take 6 x) = raw_date (drop 7 x) \<longleftrightarrow> good_attempt x"
      using assms(2) False by (auto simp: torn_attempt_def good_attempt_def)
    obtain q2 where "fill_rtcdate ?t = Ok (raw_date (drop 7 x)) (?t\<lparr>outp := q2, cmos_in := vs\<rparr>)"
      using fill_rtcdate_Ok [of ?t "drop 7 x" vs] x(1) by auto
    then show ?thesis using q x(2,3) by (simp add: bnd_def) blast
  qed
qed

lemma cmos_stable_Ok:
  fixes s :: "'z machs_scheme"
  assumes "cmos_in s = concat xs @ x @ vs" and "\<forall>z\<in>set xs. busy_attempt z \<or> torn_attempt z" and "good_attempt x"
    and "length xs < n"
  shows "\<exists>q. cmos_stable n s = Ok (raw_date (take 6 x)) (s\<lparr>outp := q, cmos_in := vs\<rparr>)"
  using assms
proof (induction xs arbitrary: s n)
  case Nil
  then obtain k where n: "n = Suc k" by (cases n) auto
  show ?case using cmos_turn [of s x vs k] Nil.prems unfolding n by auto
next
  case (Cons z xs)
  from Cons.prems(4) obtain k where n: "n = Suc k" "length xs < k" by (cases n) auto
  have "\<not> good_attempt z" using Cons.prems(2) by (auto simp: busy_attempt_def torn_attempt_def good_attempt_def)
  then obtain q where q: "cmos_stable n s = cmos_stable k (s\<lparr>outp := q, cmos_in := concat xs @ x @ vs\<rparr>)"
    using cmos_turn [of s z "concat xs @ x @ vs" k] Cons.prems(1,2) unfolding n(1) by auto
  show ?case using Cons.IH [of "s\<lparr>outp := q, cmos_in := concat xs @ x @ vs\<rparr>" k] Cons.prems(2,3) n(2) unfolding q by auto
qed

text \<open>
  The registers of a clock that shows a date: in binary when bit 2 of status register B is set,
  else in BCD.
\<close>

definition clock_code :: "byte \<Rightarrow> nat \<Rightarrow> byte" where
  "clock_code sb d = (if bit sb 2 then of_nat d else bcd d)"

definition clock_at :: "byte \<Rightarrow> byte \<Rightarrow> nat \<Rightarrow> nat \<Rightarrow> nat \<Rightarrow> nat \<Rightarrow> nat \<Rightarrow> nat \<Rightarrow> byte \<Rightarrow> byte" where
  "clock_at sa sb sec mi h d mo y = (\<lambda>_. 0)(0x00 := clock_code sb sec, 0x02 := clock_code sb mi, 0x04 := clock_code sb h,
     0x07 := clock_code sb d, 0x08 := clock_code sb mo, 0x09 := clock_code sb y, 0x0a := sa, 0x0b := sb)"

lemma ucast_of_nat_byte: "d \<le> 99 \<Longrightarrow> (ucast (of_nat d :: byte) :: u32) = of_nat d"
  by (simp add: word_unat_eq_iff unsigned_ucast_eq unat_of_nat take_bit_nat_eq_self)

lemma good_attempt_still:
  "\<not> bit sa 7 \<Longrightarrow> good_attempt (replicate 13 (clock_at sa sb sec mi h d mo y))"
  by (simp add: good_attempt_def raw_date_def clock_at_def)

text \<open>
  C39. The time of day. Let the loop of \<open>cmostime\<close> first meet any number of readings during which
  an update is in progress or in which the date changes between the first and the second
  reading, in any order, and then a clock that stands still for one turn. \<open>cmostime\<close> discards
  the former and returns the date that the clock then shows, converted from BCD unless the clock
  is in binary mode, with the year in the 21st century.
\<close>

theorem cmostime_decodes_date:
  fixes s :: "'z machs_scheme"
  assumes "\<forall>z\<in>set xs. busy_attempt z \<or> torn_attempt z" and "\<not> bit sa 7" and "c 0x0b = sb"
    and "sec \<le> 99" "mi \<le> 99" "h \<le> 99" "d \<le> 99" "mo \<le> 99" "y \<le> 99"
    and "cmos_in s = c # concat xs @ replicate 13 (clock_at sa sb sec mi h d mo y) @ vs"
  shows "\<exists>t. cmostime s = Ok \<lparr>rt_second = of_nat sec, rt_minute = of_nat mi, rt_hour = of_nat h, rt_day = of_nat d,
      rt_month = of_nat mo, rt_year = of_nat (2000 + y)\<rparr> t \<and> cmos_in t = vs"
proof -
  let ?x = "replicate 13 (clock_at sa sb sec mi h d mo y)"
  let ?vs = "concat xs @ ?x @ vs"
  obtain q where q: "cmos_read 0x0b s = Ok (ucast sb) (s\<lparr>outp := q, cmos_in := ?vs\<rparr>)"
    using cmos_read_Ok [of s c ?vs "0x0b"] assms(3,10) by auto
  let ?t = "s\<lparr>outp := q, cmos_in := ?vs\<rparr>"
  have "length xs \<le> length (concat xs)" using assms(1)
    by (induction xs) (auto simp: busy_attempt_def torn_attempt_def)
  then have n: "length xs < Suc (length ?vs)" by simp
  define z where "z = raw_date (take 6 ?x)"
  from n obtain q2 where q2: "cmos_stable (Suc (length ?vs)) ?t = Ok z (?t\<lparr>outp := q2, cmos_in := vs\<rparr>)"
    using cmos_stable_Ok [of ?t xs ?x vs "Suc (length ?vs)"] assms(1) good_attempt_still [OF assms(2)] by (auto simp: z_def)
  have "((ucast sb :: u32) AND push_bit 2 1 \<noteq> 0) = bit (ucast sb :: u32) 2" by (simp only: bit_iff_and_push_bit_not_eq_0)
  then have b: "((ucast sb :: u32) AND push_bit 2 1 = 0) = (\<not> bit sb 2)" by (auto simp: bit_ucast_iff)
  have "(if \<not> bit sb 2 then conv_rtcdate z else z) =
      \<lparr>rt_second = of_nat sec, rt_minute = of_nat mi, rt_hour = of_nat h, rt_day = of_nat d,
       rt_month = of_nat mo, rt_year = of_nat y\<rparr>"
    using assms(4-9) unfolding z_def
    by (simp add: conv_rtcdate_def raw_date_def clock_at_def clock_code_def bcd_conv_decodes ucast_of_nat_byte)
  then show ?thesis using q q2 b unfolding cmostime_def
    by (cases "bit sb 2") (simp_all add: Let_def del: cmos_stable.simps)
qed

theorem cmostime_decodes_date_witness:
  "\<exists>t. cmostime (mach0\<lparr>cmos_in := clock_at 0x26 0x02 59 59 23 31 12 25 #
      replicate 7 (clock_at 0xa6 0x02 59 59 23 31 12 25) @
      (replicate 7 (clock_at 0x26 0x02 59 59 23 31 12 25) @ replicate 6 (clock_at 0x26 0x02 0 0 0 1 1 26)) @
      replicate 13 (clock_at 0x26 0x02 0 0 0 1 1 26)\<rparr>) =
    Ok \<lparr>rt_second = 0, rt_minute = 0, rt_hour = 0, rt_day = 1, rt_month = 1, rt_year = 2026\<rparr> t \<and> cmos_in t = []"
proof -
  let ?o = "clock_at 0x26 0x02 59 59 23 31 12 25" and ?n = "clock_at 0x26 0x02 0 0 0 1 1 26"
  let ?b = "replicate 7 (clock_at 0xa6 0x02 59 59 23 31 12 25)" and ?m = "replicate 7 ?o @ replicate 6 ?n"
  have "bit (0xa6 :: byte) 7" "\<not> bit (0x26 :: byte) 7" by (simp_all add: bit_simps)
  moreover have "busy_attempt ?b" using calculation by (simp add: busy_attempt_def clock_at_def)
  moreover have "torn_attempt ?m"
    using calculation by (simp add: torn_attempt_def raw_date_def clock_at_def clock_code_def bcd_def nth_append)
  moreover have "?o 0x0b = 0x02" by (simp add: clock_at_def)
  ultimately show ?thesis
    using cmostime_decodes_date [of "[?b, ?m]" "0x26" ?o "0x02" 0 0 0 1 1 26
      "mach0\<lparr>cmos_in := ?o # ?b @ ?m @ replicate 13 ?n\<rparr>" "[]"] by simp
qed

end
