(* ===== verification/Ring.thy ===== *)
theory Ring
  imports Kernel_Prelude
begin

text \<open>
  The ring buffers of the kernel: an array of \<open>N\<close> bytes with a read counter and a write counter
  that run freely modulo \<open>2 ^ 32\<close> and are reduced modulo \<open>N\<close> when the array is indexed. The input
  buffer of the console (\<open>N = 128\<close>) and the buffer of a pipe (\<open>N = 512\<close>) are such rings. The
  locale states what they share; the counters may wrap around because \<open>N\<close> divides \<open>2 ^ 32\<close>.
\<close>

definition ring_at :: "nat \<Rightarrow> u32 \<Rightarrow> nat" where
  "ring_at N i = unat i mod N"

text \<open>The bytes between the two counters, oldest first.\<close>

definition ring_contents :: "nat \<Rightarrow> byte list \<Rightarrow> u32 \<Rightarrow> u32 \<Rightarrow> byte list" where
  "ring_contents N buf r w = map (\<lambda>i. buf ! ring_at N (r + of_nat i)) [0..<unat (w - r)]"

lemma length_ring_contents [simp]: "length (ring_contents N buf r w) = unat (w - r)"
  by (simp add: ring_contents_def)

lemma ring_contents_empty [simp]: "ring_contents N buf r r = []"
  by (simp add: ring_contents_def)

lemma ring_empty_iff: "ring_contents N buf r w = [] \<longleftrightarrow> r = w"
  by (auto simp: ring_contents_def unat_eq_0)

locale ring_buffer =
  fixes N :: nat
  assumes pos: "0 < N" and small: "N < 2 ^ 32" and divides: "N dvd 2 ^ 32"
begin

lemma at_less: "ring_at N i < N"
  using pos by (simp add: ring_at_def)

lemma at_add: "ring_at N (r + of_nat i) = (unat r + i) mod N"
proof -
  have "unat (r + of_nat i) = (unat r + i) mod 2 ^ 32"
    by (simp add: unat_word_ariths unat_of_nat mod_add_right_eq)
  then show ?thesis using divides by (simp add: ring_at_def mod_mod_cancel)
qed

lemma at_less_distinct:
  assumes "i < j" and "j < N"
  shows "ring_at N (r + of_nat i) \<noteq> ring_at N (r + of_nat j)"
proof
  assume "ring_at N (r + of_nat i) = ring_at N (r + of_nat j)"
  then have "(unat r + j) mod N = (unat r + i) mod N" by (simp add: at_add)
  then have "N dvd (unat r + j) - (unat r + i)" using assms(1) mod_eq_dvd_iff_nat [of "unat r + i" "unat r + j" N] by simp
  then show False using assms nat_dvd_not_less [of "j - i" N] by simp
qed

text \<open>Storing a byte at the write counter, taking one at the read counter, dropping the last one.\<close>

lemma push:
  assumes "unat (w - r) < N" and "length buf = N"
  shows "ring_contents N (buf[ring_at N w := c]) r (w + 1) = ring_contents N buf r w @ [c]"
proof -
  let ?n = "unat (w - r)"
  have w: "w = r + of_nat ?n" by simp
  have e: "w + 1 - r = 1 + (w - r)" by simp
  have "1 + (w - r) \<noteq> 0"
  proof
    assume "1 + (w - r) = 0"
    then have "w - r = -1" by (metis add.commute add_eq_0_iff)
    then show False using assms(1) small by simp
  qed
  then have n: "unat (w + 1 - r) = Suc ?n" unfolding e by (rule unatSuc)
  have "buf[ring_at N w := c] ! ring_at N (r + of_nat i) = buf ! ring_at N (r + of_nat i)" if "i < ?n" for i
    using at_less_distinct [of i ?n r] that assms(1) w by simp
  then show ?thesis using at_less [of w] assms(2) by (simp add: ring_contents_def n)
qed

lemma pop: "r \<noteq> w \<Longrightarrow> ring_contents N buf r w = buf ! ring_at N r # ring_contents N buf (r + 1) w"
  by (simp add: ring_contents_def unat_offset_Suc [of w r] upt_conv_Cons map_Suc_upt [symmetric] algebra_simps del: upt_Suc)

lemma unpush:
  assumes "w \<noteq> r"
  shows "ring_contents N buf r (w - 1) = butlast (ring_contents N buf r w)"
proof -
  have e: "w - 1 - r = (w - r) - 1" by simp
  have "unat (w - 1 - r) = unat (w - r) - 1" unfolding e using assms by (intro unat_minus_one) simp
  then show ?thesis by (simp add: ring_contents_def butlast_conv_take take_map)
qed

end

interpretation ring128: ring_buffer 128
  by unfold_locales simp_all

interpretation ring512: ring_buffer 512
  by unfold_locales simp_all

end
