(* ===== verification/Console.thy ===== *)
theory Console
  imports Machine Ring
begin

unbundle bit_operations_syntax

text \<open>
  The console: formatted output of \<^verbatim>\<open>console.c\<close> to the screen and the serial line (\<^verbatim>\<open>uart.c\<close>), the
  keyboard driver \<^verbatim>\<open>kbd.c\<close> with its tables \<^verbatim>\<open>kbd.h\<close>, and the line editing of the input buffer. The
  registers of the devices are fields of the state: the cursor position and the text memory of
  the screen, the bytes sent over the serial line, the bytes that wait in the two input ports.
\<close>

section \<open>State\<close>

datatype device = Dev_Console

record conss = machs +
  panicked :: bool
  cons_locking :: bool
  crt :: "u16 list"
  crt_pos :: nat
  uart_on :: bool
  uart_out :: "byte list"
  uart_in :: "byte list"
  kbd_in :: "byte list"
  kbd_shift :: byte
  input_buf :: "byte list"
  input_r :: u32
  input_w :: u32
  input_e :: u32
  devsw :: "nat \<Rightarrow> device option"

type_synonym ('z, 'a) consf = "('z conss_scheme, 'a) kfun"

text \<open>The current process, and strings as bytes.\<close>

definition curp :: "('z, proc) core" where
  "curp = bnd myproc (\<lambda>i. gets (\<lambda>s. ptable s ! i))"

definition chars :: "string \<Rightarrow> byte list" where
  "chars xs = map of_char xs"

section \<open>Output\<close>

text \<open>The digits that the loop of \<open>printint\<close> puts in its buffer, lowest first.\<close>

definition digit_char :: "nat \<Rightarrow> byte" where
  "digit_char d = chars ''0123456789abcdef'' ! d"

function digits_rev :: "nat \<Rightarrow> nat \<Rightarrow> byte list" where
  "digits_rev base x =
     digit_char (x mod base) # (if base < 2 \<or> x div base = 0 then [] else digits_rev base (x div base))"
  by auto
termination
  by (relation "measure snd") (auto simp: div_eq_0_iff not_less intro: div_less_dividend)

declare digits_rev.simps [simp del]

definition printint :: "u32 \<Rightarrow> nat \<Rightarrow> bool \<Rightarrow> byte list" where
  "printint xx base sign =
     (let neg = (sign \<and> sint xx < 0);
          x = (if neg then - xx else xx);
          buf = digits_rev base (unat x) @ (if neg then chars ''-'' else [])
      in rev buf)"

datatype parg = PInt u32 | PStr "byte list option"

text \<open>
  The characters that \<open>cprintf\<close> sends to \<open>consputc\<close>, from a format and its arguments; \<open>None\<close> when
  the arguments do not match the format.
\<close>

fun cprintf_out :: "byte list \<Rightarrow> parg list \<Rightarrow> byte list option" where
  "cprintf_out [] as = Some []"
| "cprintf_out [c] as = (if c \<noteq> of_char CHR ''%'' then Some [c] else Some [])"
| "cprintf_out (c # f # fs) as =
     (if c \<noteq> of_char CHR ''%'' then map_option (\<lambda>r. c # r) (cprintf_out (f # fs) as)
      else if f = of_char CHR ''d'' then
        (case as of PInt x # as' \<Rightarrow> map_option (\<lambda>r. printint x 10 True @ r) (cprintf_out fs as') | _ \<Rightarrow> None)
      else if f = of_char CHR ''x'' \<or> f = of_char CHR ''p'' then
        (case as of PInt x # as' \<Rightarrow> map_option (\<lambda>r. printint x 16 False @ r) (cprintf_out fs as') | _ \<Rightarrow> None)
      else if f = of_char CHR ''s'' then
        (case as of
           PStr (Some t) # as' \<Rightarrow> map_option (\<lambda>r. t @ r) (cprintf_out fs as')
         | PStr None # as' \<Rightarrow> map_option (\<lambda>r. chars ''(null)'' @ r) (cprintf_out fs as')
         | _ \<Rightarrow> None)
      else if f = of_char CHR ''%'' then map_option (\<lambda>r. of_char CHR ''%'' # r) (cprintf_out fs as)
      else map_option (\<lambda>r. of_char CHR ''%'' # f # r) (cprintf_out fs as))"

text \<open>The serial line.\<close>

definition uartputc :: "int \<Rightarrow> ('z, unit) consf" where
  "uartputc c = modify (\<lambda>s. if uart_on s then s\<lparr>uart_out := uart_out s @ [word_of_int c]\<rparr> else s)"

text \<open>\<open>uartinit\<close>: \<open>st\<close> is what the line status port reads.\<close>

definition uartinit :: "byte \<Rightarrow> ('z, unit) consf" where
  "uartinit st =
     thn (for_each [(0x3fa, 0), (0x3fb, 0x80), (0x3f8, 12), (0x3f9, 0), (0x3fb, 3), (0x3fc, 0), (0x3f9, 1)]
            (\<lambda>(p, v). outb p v))
     (if st = 0xFF then ret ()
      else
        thn (modify (\<lambda>s. s\<lparr>uart_on := True\<rparr>))
        (thn (modify (\<lambda>s. s\<lparr>uart_in := drop 1 (uart_in s)\<rparr>))
        (thn (picenable 4)
        (thn (ioapicenable 4 0)
        (for_each (chars ''xv6...'' @ [10]) (\<lambda>c. uartputc (uint c)))))))"

definition uartgetc :: "('z, int) consf" where
  "uartgetc s = (if \<not> uart_on s then Ok (-1) s
     else case uart_in s of [] \<Rightarrow> Ok (-1) s | c # rest \<Rightarrow> Ok (uint c) (s\<lparr>uart_in := rest\<rparr>))"

abbreviation (input) "BACKSPACE \<equiv> (0x100::int)"

text \<open>The screen: 25 rows of 80 characters, of which the cursor uses the first 24.\<close>

definition crt_scroll :: "nat \<Rightarrow> u16 list \<Rightarrow> u16 list" where
  "crt_scroll pos m =
     (let up = patch 0 (slice 80 (23 * 80) m) m
      in patch pos (replicate (24 * 80 - pos) 0) up)"

definition cgaputc :: "int \<Rightarrow> ('z, unit) consf" where
  "cgaputc c =
     bnd (gets crt_pos) (\<lambda>pos0.
     bnd (if c = 10 then ret (pos0 + (80 - pos0 mod 80))
          else if c = BACKSPACE then ret (pos0 - 1)
          else bnd (gets (\<lambda>s. length (crt s))) (\<lambda>n.
            if pos0 \<ge> n then fault ''crt[pos++]''
            else thn (modify (\<lambda>s. s\<lparr>crt := (crt s)[pos0 := word_of_int (c mod 256) OR 0x0700]\<rparr>)) (ret (pos0 + 1)))) (\<lambda>pos1.
     bnd (if pos1 div 80 \<ge> 24 then
            thn (modify (\<lambda>s. s\<lparr>crt := crt_scroll (pos1 - 80) (crt s)\<rparr>)) (ret (pos1 - 80))
          else ret pos1) (\<lambda>pos2.
     thn (modify (\<lambda>s. s\<lparr>crt_pos := pos2 mod 65536\<rparr>))
     (bnd (gets (\<lambda>s. length (crt s))) (\<lambda>n.
      if pos2 \<ge> n then fault ''crt[pos]''
      else modify (\<lambda>s. s\<lparr>crt := (crt s)[pos2 := 0x0720]\<rparr>))))))"

definition consputc :: "int \<Rightarrow> ('z, unit) consf" where
  "consputc c =
     bnd (gets panicked) (\<lambda>p. if p then diverge
     else
       thn (if c = BACKSPACE then thn (uartputc 8) (thn (uartputc 32) (uartputc 8)) else uartputc c)
       (cgaputc c))"

definition consputs :: "byte list \<Rightarrow> ('z, unit) consf" where
  "consputs out = for_each out (\<lambda>c. consputc (uint c))"

definition cprintf_to :: "byte list option \<Rightarrow> parg list \<Rightarrow> ('z, unit) consf" where
  "cprintf_to fmt as =
     bnd (gets cons_locking) (\<lambda>locking.
     thn (whenk locking (acquire LK_cons))
     (case fmt of None \<Rightarrow> panic ''null fmt''
      | Some fmt \<Rightarrow>
        (case cprintf_out fmt as of
           None \<Rightarrow> fault ''cprintf''
         | Some out \<Rightarrow> thn (consputs out) (whenk locking (release LK_cons)))))"

text \<open>What \<open>panic\<close> prints before it stops; \<open>m\<close> is memory and \<open>v\<close> the address of its argument.\<close>

definition panic_report :: "u32 \<Rightarrow> u32 \<Rightarrow> byte list \<Rightarrow> ('z, unit) consf" where
  "panic_report cpu v msg =
     thn (modify (\<lambda>s. s\<lparr>cons_locking := False\<rparr>))
     (thn (cprintf_to (Some (chars ''cpu%d: panic: '')) [PInt cpu])
     (thn (cprintf_to (Some msg) [])
     (thn (cprintf_to (Some [10]) [])
     (bnd (gets (\<lambda>s. getcallerpcs (mem s) v)) (\<lambda>pcs.
      thn (for_each pcs (\<lambda>pc. cprintf_to (Some (chars '' %p'')) [PInt pc]))
      (modify (\<lambda>s. s\<lparr>panicked := True\<rparr>)))))))"

text \<open>\<open>procdump\<close> of \<^verbatim>\<open>proc.c\<close>, which runs when control-P is typed.\<close>

definition state_name :: "procstate \<Rightarrow> byte list" where
  "state_name st = (case st of UNUSED \<Rightarrow> chars ''unused'' | EMBRYO \<Rightarrow> chars ''embryo'' | SLEEPING \<Rightarrow> chars ''sleep ''
     | RUNNABLE \<Rightarrow> chars ''runble'' | RUNNING \<Rightarrow> chars ''run   '' | ZOMBIE \<Rightarrow> chars ''zombie'')"

definition procdump_one :: "nat \<Rightarrow> ('z, unit) consf" where
  "procdump_one i =
     bnd (gets (\<lambda>s. ptable s ! i)) (\<lambda>p.
     whenk (p_state p \<noteq> UNUSED)
       (thn (cprintf_to (Some (chars ''%d %s %s''))
          [PInt (p_pid p), PStr (Some (state_name (p_state p))), PStr (Some (takeWhile (\<lambda>c. c \<noteq> 0) (p_name p)))])
       (thn (whenk (p_state p = SLEEPING)
         (bnd (gets (\<lambda>s. getcallerpcs (mem s) (cx_ebp (p_context p) + 8))) (\<lambda>pcs.
          for_each (takeWhile (\<lambda>pc. pc \<noteq> 0) pcs) (\<lambda>pc. cprintf_to (Some (chars '' %p'')) [PInt pc]))))
       (cprintf_to (Some [10]) []))))"

definition procdump :: "('z, unit) consf" where
  "procdump = bnd (gets (\<lambda>s. length (ptable s))) (\<lambda>n. for_each [0..<n] procdump_one)"

section \<open>Keyboard\<close>

abbreviation (input) "SHIFT \<equiv> (1::byte)"
abbreviation (input) "CTL \<equiv> (2::byte)"
abbreviation (input) "ALT \<equiv> (4::byte)"
abbreviation (input) "CAPSLOCK \<equiv> (8::byte)"
abbreviation (input) "NUMLOCK \<equiv> (16::byte)"
abbreviation (input) "SCROLLLOCK \<equiv> (32::byte)"
abbreviation (input) "E0ESC \<equiv> (64::byte)"

text \<open>A table of 256 entries from its first entries and those with an explicit index.\<close>

definition set_keys :: "byte list \<Rightarrow> (nat \<times> byte) list \<Rightarrow> byte list" where
  "set_keys xs ys = fold (\<lambda>(i, c) t. t[i := c]) ys (xs @ replicate (256 - length xs) 0)"

definition shiftcode :: "byte list" where
  "shiftcode = set_keys [] [(0x1D, CTL), (0x2A, SHIFT), (0x36, SHIFT), (0x38, ALT), (0x9D, CTL), (0xB8, ALT)]"

definition togglecode :: "byte list" where
  "togglecode = set_keys [] [(0x3A, CAPSLOCK), (0x45, NUMLOCK), (0x46, SCROLLLOCK)]"

definition normalmap :: "byte list" where
  "normalmap = set_keys
     [0, 27, 49, 50, 51, 52, 53, 54,
      55, 56, 57, 48, 45, 61, 8, 9,
      113, 119, 101, 114, 116, 121, 117, 105,
      111, 112, 91, 93, 10, 0, 97, 115,
      100, 102, 103, 104, 106, 107, 108, 59,
      39, 96, 0, 92, 122, 120, 99, 118,
      98, 110, 109, 44, 46, 47, 0, 42,
      0, 32, 0, 0, 0, 0, 0, 0,
      0, 0, 0, 0, 0, 0, 0, 55,
      56, 57, 45, 52, 53, 54, 43, 49,
      50, 51, 48, 46, 0, 0, 0, 0]
     [(0x9C, 0xA), (0xB5, 0x2F), (0xC8, 0xE2), (0xD0, 0xE3), (0xC9, 0xE6), (0xD1, 0xE7), (0xCB, 0xE4), (0xCD, 0xE5), (0x97, 0xE0), (0xCF, 0xE1), (0xD2, 0xE8), (0xD3, 0xE9)]"

definition shiftmap :: "byte list" where
  "shiftmap = set_keys
     [0, 27, 33, 64, 35, 36, 37, 94,
      38, 42, 40, 41, 95, 43, 8, 9,
      81, 87, 69, 82, 84, 89, 85, 73,
      79, 80, 123, 125, 10, 0, 65, 83,
      68, 70, 71, 72, 74, 75, 76, 58,
      34, 126, 0, 124, 90, 88, 67, 86,
      66, 78, 77, 60, 62, 63, 0, 42,
      0, 32, 0, 0, 0, 0, 0, 0,
      0, 0, 0, 0, 0, 0, 0, 55,
      56, 57, 45, 52, 53, 54, 43, 49,
      50, 51, 48, 46, 0, 0, 0, 0]
     [(0x9C, 0xA), (0xB5, 0x2F), (0xC8, 0xE2), (0xD0, 0xE3), (0xC9, 0xE6), (0xD1, 0xE7), (0xCB, 0xE4), (0xCD, 0xE5), (0x97, 0xE0), (0xCF, 0xE1), (0xD2, 0xE8), (0xD3, 0xE9)]"

definition ctlmap :: "byte list" where
  "ctlmap = set_keys
     [0, 0, 0, 0, 0, 0, 0, 0,
      0, 0, 0, 0, 0, 0, 0, 0,
      17, 23, 5, 18, 20, 25, 21, 9,
      15, 16, 0, 0, 13, 0, 1, 19,
      4, 6, 7, 8, 10, 11, 12, 0,
      0, 0, 0, 28, 26, 24, 3, 22,
      2, 14, 13, 0, 0, 239, 0, 0]
     [(0x9C, 0xD), (0xB5, 0xEF), (0xC8, 0xE2), (0xD0, 0xE3), (0xC9, 0xE6), (0xD1, 0xE7), (0xCB, 0xE4), (0xCD, 0xE5), (0x97, 0xE0), (0xCF, 0xE1), (0xD2, 0xE8), (0xD3, 0xE9)]"

definition charcode :: "byte \<Rightarrow> byte list" where
  "charcode sh = (if sh = 0 then normalmap else if sh = SHIFT then shiftmap else ctlmap)"

text \<open>What one scan code does: the new shift state and the value of \<open>kbdgetc\<close>.\<close>

definition kbd_code :: "byte \<Rightarrow> byte \<Rightarrow> byte \<times> int" where
  "kbd_code shift data =
     (if data = 0xE0 then (shift OR E0ESC, 0)
      else if data AND 0x80 \<noteq> 0 then
        (let data = (if shift AND E0ESC \<noteq> 0 then data else data AND 0x7F)
         in (shift AND NOT (shiftcode ! unat data OR E0ESC), 0))
      else
        (let (data, shift) = (if shift AND E0ESC \<noteq> 0 then (data OR 0x80, shift AND NOT E0ESC) else (data, shift));
             shift = shift OR shiftcode ! unat data;
             shift = shift XOR togglecode ! unat data;
             c = uint (charcode (shift AND (CTL OR SHIFT)) ! unat data)
         in (shift,
             if shift AND CAPSLOCK \<noteq> 0 then
               (if 97 \<le> c \<and> c \<le> 122 then c - 32 else if 65 \<le> c \<and> c \<le> 90 then c + 32 else c)
             else c)))"

definition kbdgetc :: "('z, int) consf" where
  "kbdgetc s = (case kbd_in s of
       [] \<Rightarrow> Ok (-1) s
     | data # rest \<Rightarrow>
         (let (sh, c) = kbd_code (kbd_shift s) data
          in Ok c (s\<lparr>kbd_in := rest, kbd_shift := sh\<rparr>)))"

section \<open>Input\<close>

abbreviation (input) "INPUT_BUF \<equiv> (128::nat)"

text \<open>The loop of control-U: it erases up to the beginning of the line or the committed input.\<close>

primrec kill_line :: "nat \<Rightarrow> ('z, unit) consf" where
  "kill_line 0 = diverge"
| "kill_line (Suc n) s =
     (if input_e s \<noteq> input_w s \<and> input_buf s ! ring_at INPUT_BUF (input_e s - 1) \<noteq> 10
      then thn (modify (\<lambda>s. s\<lparr>input_e := input_e s - 1\<rparr>)) (thn (consputc BACKSPACE) (kill_line n)) s
      else Ok () s)"

text \<open>What \<open>consoleintr\<close> does with one character.\<close>

definition input_char :: "int \<Rightarrow> ('z, unit) consf" where
  "input_char c =
     (if c = 16 then procdump
      else if c = 21 then kill_line (INPUT_BUF + 1)
      else if c = 8 \<or> c = 127 then
        bnd (gets (\<lambda>s. input_e s \<noteq> input_w s)) (\<lambda>b. whenk b
          (thn (modify (\<lambda>s. s\<lparr>input_e := input_e s - 1\<rparr>)) (consputc BACKSPACE)))
      else
        bnd (gets (\<lambda>s. unat (input_e s - input_r s) < INPUT_BUF)) (\<lambda>b. whenk (c \<noteq> 0 \<and> b)
          (let c = (if c = 13 then 10 else c) in
           thn (modify (\<lambda>s. s\<lparr>input_buf := (input_buf s)[ring_at INPUT_BUF (input_e s) := word_of_int c], input_e := input_e s + 1\<rparr>))
           (thn (consputc c)
           (bnd (gets (\<lambda>s. c = 10 \<or> c = 4 \<or> input_e s = input_r s + of_nat INPUT_BUF)) (\<lambda>d. whenk d
             (thn (modify (\<lambda>s. s\<lparr>input_w := input_e s\<rparr>)) (wakeup CH_input))))))))"

primrec consoleintr_loop :: "nat \<Rightarrow> ('z, int) consf \<Rightarrow> ('z, unit) consf" where
  "consoleintr_loop 0 getc = diverge"
| "consoleintr_loop (Suc n) getc =
     bnd getc (\<lambda>c. if c \<ge> 0 then thn (input_char c) (consoleintr_loop n getc) else ret ())"

definition consoleintr :: "nat \<Rightarrow> ('z, int) consf \<Rightarrow> ('z, unit) consf" where
  "consoleintr n getc = thn (acquire LK_input) (thn (consoleintr_loop n getc) (release LK_input))"

text \<open>The interrupt handlers; each call of \<open>getc\<close> takes one byte that waits in the port.\<close>

definition kbdintr :: "('z, unit) consf" where
  "kbdintr = bnd (gets (\<lambda>s. length (kbd_in s))) (\<lambda>n. consoleintr (Suc n) kbdgetc)"

definition uartintr :: "('z, unit) consf" where
  "uartintr = bnd (gets (\<lambda>s. length (uart_in s))) (\<lambda>n. consoleintr (Suc n) uartgetc)"

text \<open>How \<open>consoleread\<close> leaves: the result and the bytes it has copied.\<close>

definition read_done :: "nat \<Rightarrow> int \<times> byte list \<Rightarrow> ('z, int \<times> byte list) consf" where
  "read_done ip r = thn (release LK_input) (thn (ilock (Some ip)) (ret r))"

text \<open>
  \<open>consoleread\<close>: result and the bytes copied to \<open>dst\<close>. The loop continues with the same arguments
  after a wakeup.
\<close>

primrec consoleread_loop :: "nat \<Rightarrow> nat \<Rightarrow> nat \<Rightarrow> byte list \<Rightarrow> ('z, int \<times> byte list) consf" where
  "consoleread_loop 0 ip target acc =
     read_done ip (int target, acc)"
| "consoleread_loop (Suc n) ip target acc =
     bnd (gets (\<lambda>s. input_r s = input_w s)) (\<lambda>empty.
     if empty then
       bnd curp (\<lambda>p.
       if p_killed p then read_done ip (-1, acc)
       else sleep CH_input LK_input)
     else
       bnd (gets (\<lambda>s. input_buf s ! ring_at INPUT_BUF (input_r s))) (\<lambda>c.
       thn (modify (\<lambda>s. s\<lparr>input_r := input_r s + 1\<rparr>))
       (if c = 4 then
          thn (whenk (Suc n < target) (modify (\<lambda>s. s\<lparr>input_r := input_r s - 1\<rparr>)))
          (read_done ip (int target - int (Suc n), acc))
        else if c = 10 then
          read_done ip (int target - int n, acc @ [c])
        else consoleread_loop n ip target (acc @ [c]))))"

definition consoleread :: "nat \<Rightarrow> int \<Rightarrow> ('z, int \<times> byte list) consf" where
  "consoleread ip n =
     thn (iunlock (Some ip))
     (thn (acquire LK_input)
     (if n \<le> 0 then read_done ip (0, [])
      else consoleread_loop (nat n) ip (nat n) []))"

definition consolewrite :: "nat \<Rightarrow> byte list \<Rightarrow> ('z, int) consf" where
  "consolewrite ip buf =
     thn (iunlock (Some ip))
     (thn (acquire LK_cons)
     (thn (consputs buf)
     (thn (release LK_cons)
     (thn (ilock (Some ip))
     (ret (int (length buf)))))))"

definition consoleinit :: "('z, unit) consf" where
  "consoleinit =
     thn (modify (\<lambda>s. s\<lparr>devsw := (devsw s)(1 := Some Dev_Console)\<rparr>))
     (thn (modify (\<lambda>s. s\<lparr>cons_locking := True\<rparr>))
     (thn (picenable 1)
     (ioapicenable 1 0)))"

section \<open>The screen\<close>

definition screen_ok :: "'z conss_scheme \<Rightarrow> bool" where
  "screen_ok s \<longleftrightarrow> length (crt s) = 2000 \<and> crt_pos s < 1920 \<and> \<not> panicked s"

lemma length_crt_scroll [simp]: "length m = 2000 \<Longrightarrow> pos \<le> 1920 \<Longrightarrow> length (crt_scroll pos m) = 2000"
  by (simp add: crt_scroll_def Let_def)

text \<open>What output may change: screen and serial line.\<close>

definition out_frame :: "'z conss_scheme \<Rightarrow> 'z conss_scheme \<Rightarrow> bool" where
  "out_frame s t \<longleftrightarrow> t = s\<lparr>crt := crt t, crt_pos := crt_pos t, uart_out := uart_out t\<rparr>"

lemma out_frame_iff: "out_frame s t \<longleftrightarrow> (\<exists>m p u. t = s\<lparr>crt := m, crt_pos := p, uart_out := u\<rparr>)"
  by (auto simp: out_frame_def)

lemma out_frame_refl: "out_frame s s"
  by (simp add: out_frame_def)

lemma out_frame_trans: "out_frame s t \<Longrightarrow> out_frame t u \<Longrightarrow> out_frame s u"
  unfolding out_frame_iff by (elim exE) (simp, blast)

lemma cgaputc_Ok:
  assumes "screen_ok s"
  shows "\<exists>t. cgaputc c s = Ok () t \<and> screen_ok t \<and> out_frame s t \<and> uart_out t = uart_out s"
proof -
  have c: "length (crt s) = 2000" "crt_pos s < 1920" "\<not> panicked s" using assms by (auto simp: screen_ok_def)
  define m where "m = (if c = 10 \<or> c = BACKSPACE then crt s else (crt s)[crt_pos s := word_of_int (c mod 256) OR 0x0700])"
  define pos where "pos = (if c = 10 then crt_pos s + (80 - crt_pos s mod 80) else if c = BACKSPACE then crt_pos s - 1 else crt_pos s + 1)"
  have lm: "length m = 2000" using c by (simp add: m_def)
  have "crt_pos s + (80 - crt_pos s mod 80) = 80 * (crt_pos s div 80) + 80" 
    using mult_div_mod_eq [of 80 "crt_pos s"] mod_less_divisor [of 80 "crt_pos s"] by linarith
  moreover have "crt_pos s div 80 < 24" using c by (simp add: div_less_iff_less_mult)
  ultimately have p: "pos \<le> 1920" using c by (auto simp: pos_def)
  define q where "q = (if pos div 80 \<ge> 24 then pos - 80 else pos)"
  define m2 where "m2 = (if pos div 80 \<ge> 24 then crt_scroll (pos - 80) m else m)"
  have q: "q < 1920" using p by (auto simp: q_def div_less_iff_less_mult not_le)
  have l2: "length m2 = 2000" using lm p by (simp add: m2_def)
  have A: "(if c = 10 then ret (crt_pos s + (80 - crt_pos s mod 80))
          else if c = BACKSPACE then ret (crt_pos s - 1)
          else bnd (gets (\<lambda>s. length (crt s))) (\<lambda>n.
            if crt_pos s \<ge> n then fault ''crt[pos++]''
            else thn (modify (\<lambda>u. u\<lparr>crt := (crt u)[crt_pos s := word_of_int (c mod 256) OR 0x0700]\<rparr>)) (ret (crt_pos s + 1)))) s
      = Ok pos (s\<lparr>crt := m\<rparr>)"
    using c by (cases "c = 10"; cases "c = BACKSPACE") (simp_all add: pos_def m_def)
  have B: "(if pos div 80 \<ge> 24 then
            thn (modify (\<lambda>s. s\<lparr>crt := crt_scroll (pos - 80) (crt s)\<rparr>)) (ret (pos - 80))
          else ret pos) (s\<lparr>crt := m\<rparr>) = Ok q (s\<lparr>crt := m2\<rparr>)"
    by (cases "pos div 80 \<ge> 24") (simp_all add: q_def m2_def)
  have "cgaputc c s = Ok () (s\<lparr>crt := m2[q := 0x0720], crt_pos := q\<rparr>)"
    unfolding cgaputc_def by (simp only: bnd_apply gets_apply outcome.case A B) (use q l2 in simp)
  moreover have "out_frame s (s\<lparr>crt := m2[q := 0x0720], crt_pos := q\<rparr>)" by (cases s) (simp add: out_frame_def)
  ultimately show ?thesis using q l2 c by (intro exI) (auto simp: screen_ok_def)
qed

lemma uartputc_Ok: "\<exists>t. uartputc c s = Ok () t \<and> out_frame s t \<and> (screen_ok s \<longrightarrow> screen_ok t)"
  by (cases s) (simp add: uartputc_def out_frame_def screen_ok_def)

lemma consputc_Ok:
  assumes "screen_ok s"
  shows "\<exists>t. consputc c s = Ok () t \<and> screen_ok t \<and> out_frame s t"
proof -
  let ?u = "if c = BACKSPACE then thn (uartputc 8) (thn (uartputc 32) (uartputc 8)) else uartputc c"
  have "\<exists>t. ?u s = Ok () t \<and> screen_ok t \<and> out_frame s t"
  proof (cases "c = BACKSPACE")
    case True
    obtain t where t: "uartputc 8 s = Ok () t" "out_frame s t" "screen_ok t" using uartputc_Ok assms by blast
    obtain u where u: "uartputc 32 t = Ok () u" "out_frame t u" "screen_ok u" using uartputc_Ok t(3) by blast
    obtain v where v: "uartputc 8 u = Ok () v" "out_frame u v" "screen_ok v" using uartputc_Ok u(3) by blast
    have "out_frame s v" using t(2) u(2) v(2) out_frame_trans by blast
    with True t u v show ?thesis by simp
  qed (use uartputc_Ok assms in auto)
  then obtain t where t: "?u s = Ok () t" "screen_ok t" "out_frame s t" by blast
  obtain v where v: "cgaputc c t = Ok () v" "screen_ok v" "out_frame t v" using cgaputc_Ok [OF t(2)] by blast
  have "\<not> panicked s" using assms by (simp add: screen_ok_def)
  then have "consputc c s = Ok () v" using t(1) v(1) by (simp add: consputc_def)
  then show ?thesis using v t out_frame_trans by blast
qed

lemma consputs_Ok: "screen_ok s \<Longrightarrow> \<exists>t. consputs out s = Ok () t \<and> screen_ok t \<and> out_frame s t"
  unfolding consputs_def
proof (induction out arbitrary: s)
  case Nil
  then show ?case by (auto simp: out_frame_refl)
next
  case (Cons c out)
  obtain t where t: "consputc (uint c) s = Ok () t" "screen_ok t" "out_frame s t" using consputc_Ok [OF Cons.prems] by blast
  then show ?case using Cons.IH [OF t(2)] out_frame_trans by fastforce
qed

section \<open>Numbers\<close>

text \<open>Reading a number back.\<close>

definition digit_val :: "byte \<Rightarrow> nat" where
  "digit_val c = (if unat c < 58 then unat c - 48 else unat c - 87)"

definition num_val :: "nat \<Rightarrow> byte list \<Rightarrow> nat" where
  "num_val base ds = foldl (\<lambda>n c. n * base + digit_val c) 0 ds"

definition parse_int :: "byte list \<Rightarrow> int" where
  "parse_int ds = (if ds \<noteq> [] \<and> hd ds = 45 then - int (num_val 10 (tl ds)) else int (num_val 10 ds))"

lemma digit_table: "chars ''0123456789abcdef'' = [48, 49, 50, 51, 52, 53, 54, 55, 56, 57, 97, 98, 99, 100, 101, 102]"
  by (simp add: chars_def of_char_def)

lemma less_16: "(d::nat) < 16 \<Longrightarrow> d \<in> {0, 1, 2, 3, 4, 5, 6, 7, 8, 9, 10, 11, 12, 13, 14, 15}"
  by (simp add: eval_nat_numeral less_Suc_eq)

lemma digit_val_char: "d < 16 \<Longrightarrow> digit_val (digit_char d) = d"
  by (drule less_16, elim insertE) (simp_all add: digit_val_def digit_char_def digit_table)

lemma digit_char_not_minus: "d < 16 \<Longrightarrow> digit_char d \<noteq> 45"
  by (drule less_16, elim insertE) (simp_all add: digit_char_def digit_table)

lemma num_val_digits:
  assumes "2 \<le> base" and "base \<le> 16"
  shows "num_val base (rev (digits_rev base x)) = x"
  using assms
proof (induction base x rule: digits_rev.induct)
  case (1 base x)
  have d: "digit_val (digit_char (x mod base)) = x mod base" 
    using 1(2,3) by (intro digit_val_char less_le_trans [OF mod_less_divisor]) simp_all
  show ?case
  proof (cases "x div base = 0")
    case True
    then show ?thesis using d 1(2) by (subst digits_rev.simps) (simp add: num_val_def div_eq_0_iff)
  next
    case False
    then have "num_val base (rev (digits_rev base (x div base))) = x div base" using 1 by simp
    then show ?thesis using d False 1(2) by (subst digits_rev.simps) (simp add: num_val_def)
  qed
qed

lemma hd_digits: "2 \<le> base \<Longrightarrow> base \<le> 16 \<Longrightarrow> \<exists>d ds. rev (digits_rev base x) = digit_char d # ds \<and> d < 16"
proof (induction base x rule: digits_rev.induct)
  case (1 base x)
  show ?case
  proof (cases "x div base = 0")
    case True
    have "x mod base < 16" using 1(2,3) by (intro less_le_trans [OF mod_less_divisor]) simp_all
    with True show ?thesis using 1(2) by (subst digits_rev.simps) auto
  next
    case False
    then show ?thesis using 1 by (subst digits_rev.simps) fastforce
  qed
qed

section \<open>The input buffer\<close>

text \<open>What has been typed and not been read: committed lines, and the line being edited.\<close>

definition input_ok :: "'z conss_scheme \<Rightarrow> bool" where
  "input_ok s \<longleftrightarrow> length (input_buf s) = 128 \<and> unat (input_e s - input_r s) \<le> 128 \<and>
     unat (input_w s - input_r s) \<le> unat (input_e s - input_r s)"

definition pending :: "'z conss_scheme \<Rightarrow> byte list" where
  "pending s = ring_contents 128 (input_buf s) (input_r s) (input_e s)"

definition plain :: "byte \<Rightarrow> bool" where
  "plain c \<longleftrightarrow> c \<notin> {0, 4, 8, 10, 13, 16, 21, 127}"

lemma plain_codes: "plain c \<Longrightarrow> uint c \<noteq> 0 \<and> uint c \<noteq> 4 \<and> uint c \<noteq> 8 \<and> uint c \<noteq> 10 \<and> uint c \<noteq> 13 \<and> uint c \<noteq> 16 \<and> uint c \<noteq> 21 \<and> uint c \<noteq> 127"
  by (auto simp: plain_def word_uint_eq_iff)

lemma out_frame_input:
  assumes "out_frame s t"
  shows "input_buf t = input_buf s" "input_r t = input_r s" "input_w t = input_w s" "input_e t = input_e s" "held t = held s"
    "uart_on t = uart_on s" "uart_in t = uart_in s" "ptable t = ptable s"
  using assms by (auto simp: out_frame_iff)

text \<open>Typing an ordinary character while there is room and the buffer does not become full.\<close>

lemma input_plain:
  assumes "screen_ok s" and "length (input_buf s) = 128" and "unat (input_e s - input_r s) < 127" and "plain c"
  shows "\<exists>t. input_char (uint c) s = Ok () t \<and> screen_ok t \<and> pending t = pending s @ [c] \<and> length (input_buf t) = 128 \<and>
    input_r t = input_r s \<and> input_w t = input_w s \<and> input_e t = input_e s + 1 \<and> held t = held s \<and> uart_on t = uart_on s \<and> uart_in t = uart_in s"
proof -
  let ?s = "s\<lparr>input_buf := (input_buf s)[ring_at 128 (input_e s) := c], input_e := input_e s + 1\<rparr>"
  have "screen_ok ?s" using assms(1) by (simp add: screen_ok_def)
  then obtain t where t: "consputc (uint c) ?s = Ok () t" "screen_ok t" "out_frame ?s t" using consputc_Ok by blast
  note f = out_frame_input [OF t(3)]
  have "input_e s + 1 \<noteq> input_r s + 128"
  proof
    assume "input_e s + 1 = input_r s + 128"
    then have "input_e s - input_r s = 127" by (simp add: algebra_simps)
    then show False using assms(3) by simp
  qed
  then have run: "input_char (uint c) s = Ok () t"
    using assms(3) plain_codes [OF assms(4)] t(1) f by (simp add: input_char_def)
  have "pending t = pending s @ [c]"
    unfolding pending_def using f ring128.push [of "input_e s" "input_r s" "input_buf s" c] assms(2,3) by simp
  then show ?thesis using run t f assms(2) by auto
qed

text \<open>A newline commits what is pending.\<close>

lemma input_newline:
  assumes "screen_ok s" and "length (input_buf s) = 128" and "unat (input_e s - input_r s) < 128" and "LK_ptable \<notin> set (held s)"
  shows "\<exists>t. input_char 10 s = Ok () t \<and> pending t = pending s @ [10] \<and> input_r t = input_r s \<and>
    input_w t = input_e t \<and> held t = held s \<and> uart_on t = uart_on s \<and> uart_in t = uart_in s"
proof -
  let ?s = "s\<lparr>input_buf := (input_buf s)[ring_at 128 (input_e s) := 10], input_e := input_e s + 1\<rparr>"
  have "screen_ok ?s" using assms(1) by (simp add: screen_ok_def)
  then obtain t where t: "consputc 10 ?s = Ok () t" "screen_ok t" "out_frame ?s t" using consputc_Ok by blast
  note f = out_frame_input [OF t(3)]
  let ?u = "t\<lparr>input_w := input_e t\<rparr>"
  have "LK_ptable \<notin> set (held ?u)" using f assms(4) by simp
  note w = wakeup_Ok [OF this, of CH_input]
  have "pending t = pending s @ [10]"
    unfolding pending_def using f ring128.push [of "input_e s" "input_r s" "input_buf s" 10] assms(2,3) by simp
  then show ?thesis
    using assms(3) t(1) f w by (simp add: input_char_def pending_def)
qed

lemma typed_plain:
  assumes "screen_ok s" and "length (input_buf s) = 128" and "uart_on s" and "uart_in s = line @ later"
    and "list_all plain line" and "unat (input_e s - input_r s) + length line < 128"
  shows "\<exists>t. consoleintr_loop (length line + n) uartgetc s = consoleintr_loop n uartgetc t \<and> screen_ok t \<and>
    pending t = pending s @ line \<and> length (input_buf t) = 128 \<and> input_r t = input_r s \<and> input_w t = input_w s \<and>
    unat (input_e t - input_r t) < 128 \<and> held t = held s \<and> uart_on t \<and> uart_in t = later"
  using assms
proof (induction line arbitrary: s)
  case Nil
  then show ?case by (intro exI [of _ s]) simp
next
  case (Cons c line)
  let ?s = "s\<lparr>uart_in := line @ later\<rparr>"
  have "screen_ok ?s" using Cons.prems(1) by (simp add: screen_ok_def)
  then obtain t where t: "input_char (uint c) ?s = Ok () t" "screen_ok t" "pending t = pending ?s @ [c]" "length (input_buf t) = 128"
      "input_r t = input_r s" "input_w t = input_w s" "input_e t = input_e s + 1" "held t = held s" "uart_on t = uart_on s" "uart_in t = line @ later"
    using input_plain [of ?s c] Cons.prems by auto
  have g: "uartgetc s = Ok (uint c) ?s" using Cons.prems(3,4) by (simp add: uartgetc_def)
  have "unat (input_e t - input_r t) = Suc (unat (input_e s - input_r s))"
  proof -
    have "length (pending t) = Suc (length (pending s))" using t(3) by (simp add: pending_def)
    then show ?thesis by (simp add: pending_def)
  qed
  then obtain u where u: "consoleintr_loop (length line + n) uartgetc t = consoleintr_loop n uartgetc u" "screen_ok u"
      "pending u = pending t @ line" "length (input_buf u) = 128" "input_r u = input_r t" "input_w u = input_w t"
      "unat (input_e u - input_r u) < 128" "held u = held t" "uart_on u" "uart_in u = later"
    using Cons.IH [of t] t Cons.prems by auto
  have "consoleintr_loop (length (c # line) + n) uartgetc s = consoleintr_loop n uartgetc u"
    using g t(1) u(1) by simp
  moreover have "pending ?s = pending s" by (simp add: pending_def)
  ultimately show ?case using u t by (intro exI [of _ u]) simp
qed

text \<open>Reading a committed line.\<close>

lemma consoleread_line:
  assumes "ring_contents 128 (input_buf s) (input_r s) (input_w s) = line @ [10]" and "10 \<notin> set line" and "4 \<notin> set line"
    and "length line < n"
  shows "consoleread_loop n ip target acc s =
    read_done ip (int target - int n + int (length line) + 1, acc @ line @ [10])
      (s\<lparr>input_r := input_w s\<rparr>)"
  using assms
proof (induction line arbitrary: s n acc)
  case Nil
  then obtain m where m: "n = Suc m" using gr0_conv_Suc by auto
  have ne: "input_r s \<noteq> input_w s" using Nil.prems(1) by (auto simp: ring_contents_empty)
  from ring128.pop [OF ne, of "input_buf s"] Nil.prems(1)
  have c: "input_buf s ! ring_at 128 (input_r s) = 10" "ring_contents 128 (input_buf s) (input_r s + 1) (input_w s) = []" by auto
  then have "input_r s + 1 = input_w s" by (simp add: ring_empty_iff)
  then show ?case using ne c(1) m by (simp split: outcome.splits)
next
  case (Cons c line)
  then obtain m where m: "n = Suc m" by (cases n) auto
  have ne: "input_r s \<noteq> input_w s" using Cons.prems(1) by (auto simp: ring_contents_empty)
  from ring128.pop [OF ne, of "input_buf s"] Cons.prems(1)
  have c: "input_buf s ! ring_at 128 (input_r s) = c" "ring_contents 128 (input_buf s) (input_r s + 1) (input_w s) = line @ [10]" by auto
  have "consoleread_loop m ip target (acc @ [c]) (s\<lparr>input_r := input_r s + 1\<rparr>) =
    read_done ip (int target - int m + int (length line) + 1, (acc @ [c]) @ line @ [10])
      (s\<lparr>input_r := input_w s\<rparr>)"
    using Cons.IH [of "s\<lparr>input_r := input_r s + 1\<rparr>" m "acc @ [c]"] c(2) Cons.prems m by simp
  then show ?case using ne c(1) m Cons.prems(2,3) by (simp add: algebra_simps)
qed

text \<open>
  \<open>consoleread\<close> gives up the lock of the inode of the console while it reads and takes it again
  at the end; since \<open>iunlock\<close> invalidates the entry, \<open>ilock\<close> reads the inode from the disk
  again. \<open>locked_inode ip s\<close>: the caller has locked an inode with a type, whose block can be
  read because a buffer is free.
\<close>

definition locked_inode :: "nat \<Rightarrow> 'z inodes_scheme \<Rightarrow> bool" where
  "locked_inode ip s \<longleftrightarrow> (let x = icache s ! ip in
     ip < length (icache s) \<and> i_busy x \<and> 1 \<le> i_ref x \<and> i_dev x = 1 \<and> unat (IBLOCK (i_inum x)) < length (memdisk s) \<and>
     d_type (get_dinode (unat (i_inum x) mod 8) (blk s (IBLOCK (i_inum x)))) \<noteq> 0 \<and>
     cache_rdy s \<and> pin s = Map.empty \<and> card (dirt s) < 30)"

lemma frame_cache_icache: "cache_frame s t \<Longrightarrow> cache_frame (s\<lparr>icache := c\<rparr>) (t\<lparr>icache := c\<rparr>)"
  by (cases s, cases t) (simp add: cache_frame_def)

lemma frame_same_icache: "cache_frame s t \<Longrightarrow> icache t = icache s" for s :: "'z inodes_scheme"
  by (auto simp: cache_frame_iff)

lemma ilock_load_reads:
  fixes s :: "'z inodes_scheme"
  assumes "cache_rdy s" and "pin s = Map.empty" and "card (dirt s) < 30" and x: "icache s ! ip = x" "i_dev x = 1" "\<not> i_valid x"
    and n: "unat (IBLOCK (i_inum x)) < length (memdisk s)" and ip: "ip < length (icache s)"
    and y: "get_dinode (unat (i_inum x) mod 8) (blk s (IBLOCK (i_inum x))) = y" "d_type y \<noteq> 0"
  shows "\<exists>t. ilock_load ip s = Ok () t \<and> cache_frame (s\<lparr>icache := icache t\<rparr>) t \<and> i_busy (icache t ! ip) = i_busy x \<and>
     i_valid (icache t ! ip)"
proof -
  let ?n = "IBLOCK (i_inum x)"
  let ?z = "x\<lparr>i_type := d_type y, i_major := d_major y, i_minor := d_minor y, i_nlink := d_nlink y, i_size := d_size y, i_addrs := d_addrs y\<rparr>"
  let ?c = "(icache s)[ip := ?z]" and ?e = "(icache s)[ip := ?z\<lparr>i_valid := True\<rparr>]"
  obtain b t where t: "bread 1 ?n s = Ok b t" "cache_frame s t" "cache_rdy t" "pin t = (pin s)(b \<mapsto> ?n)" "blk t = blk s"
    "dirt t = dirt s" "memdisk t = memdisk s"
    using bc.rd_law [OF assms(1) n] assms(2,3) by auto
  have look: "look_data b t = Ok (blk s ?n) t" using bc.look_law [OF t(3), of b ?n] t by simp
  let ?t = "t\<lparr>icache := ?c\<rparr>"
  have c: "?n \<in> dirt ?t \<or> blk ?t ?n = memdisk ?t ! unat ?n" using bc.clean_law [OF assms(1), of ?n] assms(2) t by auto
  obtain v where v: "brelse b ?t = Ok () v" "cache_frame ?t v"
    using bc.rel_law [of ?t b ?n, OF _ _ c] t by auto
  have iv: "icache v = ?c" using frame_same_icache [OF v(2)] by simp
  have "ilock_load ip s = Ok () (v\<lparr>icache := ?e\<rparr>)"
    using t(1) look x y v(1) iv ip frame_same_icache [OF t(2)]
    by (simp add: ilock_load_def the_inode_def upd_inode_def Let_def)
  moreover have "cache_frame (s\<lparr>icache := ?c\<rparr>) v" using cache_frame_trans [OF frame_cache_icache [OF t(2)] v(2)] .
  then have "cache_frame ((s\<lparr>icache := ?c\<rparr>)\<lparr>icache := ?e\<rparr>) (v\<lparr>icache := ?e\<rparr>)" by (rule frame_cache_icache)
  ultimately show ?thesis using ip by auto
qed

lemma iunlock_ilock:
  fixes s :: "'z inodes_scheme"
  assumes L: "locked_inode ip s" and h: "held s = []"
  shows "\<exists>t. iunlock (Some ip) s = Ok () t \<and> t = s\<lparr>icache := icache t, ptable := ptable t\<rparr> \<and>
     (\<forall>u :: 'z inodes_scheme. cache_rdy u \<and> pin u = pin t \<and> dirt u = dirt t \<and> blk u = blk t \<and> memdisk u = memdisk t \<and> icache u = icache t \<and>
        held u = [] \<longrightarrow> (\<exists>v. ilock (Some ip) u = Ok () v \<and> cache_frame (u\<lparr>icache := icache v\<rparr>) v \<and> i_busy (icache v ! ip)))"
proof -
  let ?x = "icache s ! ip"
  let ?y = "?x\<lparr>i_busy := False, i_valid := False\<rparr>"
  from L have l: "ip < length (icache s)" "i_busy ?x" "1 \<le> i_ref ?x" "i_dev ?x = 1" "unat (IBLOCK (i_inum ?x)) < length (memdisk s)"
      "d_type (get_dinode (unat (i_inum ?x) mod 8) (blk s (IBLOCK (i_inum ?x)))) \<noteq> 0" "cache_rdy s" "pin s = Map.empty" "card (dirt s) < 30"
    by (simp_all add: locked_inode_def Let_def)
  define t where "t = s\<lparr>icache := (icache s)[ip := ?y], ptable := map (\<lambda>p. if p_state p = SLEEPING \<and> p_chan p = Some (CH_inode ip)
      then p\<lparr>p_state := RUNNABLE\<rparr> else p) (ptable s)\<rparr>"
  have run: "iunlock (Some ip) s = Ok () t"
    using l(1-3) h by (simp add: iunlock_def the_inode_def upd_inode_def acquire_def release_def wakeup_Ok t_def)
  have tc: "blk t = blk s" "pin t = pin s" "dirt t = dirt s" "memdisk t = memdisk s" "icache t ! ip = ?y" "length (icache t) = length (icache s)"
    using cache_cong [of t s] l(1) by (simp_all add: t_def)
  have "\<exists>v. ilock (Some ip) u = Ok () v \<and> cache_frame (u\<lparr>icache := icache v\<rparr>) v \<and> i_busy (icache v ! ip)"
    if u: "cache_rdy u" "pin u = pin t" "dirt u = dirt t" "blk u = blk t" "memdisk u = memdisk t" "icache u = icache t" "held u = []"
    for u :: "'z inodes_scheme"
  proof -
    let ?u = "u\<lparr>icache := (icache u)[ip := ?y\<lparr>i_busy := True\<rparr>]\<rparr>"
    have e: "?u\<lparr>held := []\<rparr> = ?u" using u(7) by (cases u) simp
    have "ilock (Some ip) u = ilock_load ip (?u\<lparr>held := []\<rparr>)"
      using u(6,7) l(1,3) tc(5,6)
      by (simp add: ilock_def ilock_loop_def the_inode_def upd_inode_def acquire_def release_def)
    then have "ilock (Some ip) u = ilock_load ip ?u" unfolding e .
    moreover have "\<exists>v. ilock_load ip ?u = Ok () v \<and> cache_frame (?u\<lparr>icache := icache v\<rparr>) v \<and>
        i_busy (icache v ! ip) = i_busy (?y\<lparr>i_busy := True\<rparr>) \<and> i_valid (icache v ! ip)"
      by (rule ilock_load_reads) (use u l tc in auto)
    ultimately show ?thesis by auto
  qed
  moreover have "t = s\<lparr>icache := icache t, ptable := ptable t\<rparr>" by (simp add: t_def)
  ultimately show ?thesis using run by blast
qed

lemma consoleread_Ok:
  fixes s :: "'z conss_scheme"
  assumes "ring_contents 128 (input_buf s) (input_r s) (input_w s) = line @ [10]" and "10 \<notin> set line" and "4 \<notin> set line"
    and "int (length line) < n" and L: "locked_inode ip s" and h: "held s = []"
  shows "\<exists>v. consoleread ip n s = Ok (int (length line) + 1, line @ [10]) v \<and> input_r v = input_w v \<and> held v = [] \<and>
     i_busy (icache v ! ip)"
proof -
  obtain t where t: "iunlock (Some ip) s = Ok () t" "t = s\<lparr>icache := icache t, ptable := ptable t\<rparr>"
      and again: "\<And>u :: 'z conss_scheme. cache_rdy u \<Longrightarrow> pin u = pin t \<Longrightarrow> dirt u = dirt t \<Longrightarrow> blk u = blk t \<Longrightarrow> memdisk u = memdisk t \<Longrightarrow>
        icache u = icache t \<Longrightarrow> held u = [] \<Longrightarrow>
        \<exists>v. ilock (Some ip) u = Ok () v \<and> cache_frame (u\<lparr>icache := icache v\<rparr>) v \<and> i_busy (icache v ! ip)"
    using iunlock_ilock [OF L h] by blast
  have tf: "held t = []" "input_buf t = input_buf s" "input_r t = input_r s" "input_w t = input_w s" "bufs t = bufs s" "memdisk t = memdisk s"
    using h by (subst t(2); simp)+
  let ?u = "t\<lparr>input_r := input_w t, held := []\<rparr>"
  have "cache_rdy s" using L by (simp add: locked_inode_def Let_def)
  then have "cache_rdy ?u" using cache_cong [of ?u s] tf h by (simp add: cache_rdy_def)
  then obtain v where v: "ilock (Some ip) ?u = Ok () v" "cache_frame (?u\<lparr>icache := icache v\<rparr>) v" "i_busy (icache v ! ip)"
    using again [of ?u] cache_cong [of ?u t] tf by auto
  have "consoleread_loop (nat n) ip (nat n) [] (t\<lparr>held := [LK_input]\<rparr>) =
      read_done ip (int (length line) + 1, line @ [10]) (t\<lparr>held := [LK_input], input_r := input_w t\<rparr>)"
    using consoleread_line [of "t\<lparr>held := [LK_input]\<rparr>" line "nat n" ip "nat n" "[]"] assms(1-4) tf by simp
  then have "consoleread ip n s = Ok (int (length line) + 1, line @ [10]) v"
    using t(1) v(1) tf(1) assms(4) by (simp add: consoleread_def read_done_def acquire_def release_def)
  moreover obtain c where "cache_frame (?u\<lparr>icache := c\<rparr>) v" using v(2) by blast
  then have "input_r v = input_w v" "held v = []" by (auto simp: cache_frame_iff)
  ultimately show ?thesis using v(3) by blast
qed

section \<open>Properties\<close>

text \<open>An initial console, and the command line \<^verbatim>\<open>ls\<close>.\<close>

definition cons0 :: conss where
  "cons0 = machs.extend mach0 (conss.fields False True (replicate 2000 0) 0 True [] (chars ''ls'' @ [10]) [] 0
     (replicate 128 0) 0 0 0 (\<lambda>_. None))"

lemma cons0_simps [simp]:
  "screen_ok cons0" "uart_on cons0" "uart_in cons0 = [108, 115, 10]" "input_buf cons0 = replicate 128 0"
  "input_r cons0 = 0" "input_w cons0 = 0" "input_e cons0 = 0" "held cons0 = []"
  by (simp_all add: cons0_def machs.defs conss.defs screen_ok_def chars_def of_char_def mach0_held)

text \<open>
  C22. Output stays on the screen. Whatever characters are printed, the console returns, the cursor
  stays within the first 24 rows and no write leaves the text memory; only the screen and the
  serial line change.
\<close>

theorem output_stays_on_screen:
  assumes "screen_ok s"
  shows "\<exists>t. consputs out s = Ok () t \<and> screen_ok t \<and> t = s\<lparr>crt := crt t, crt_pos := crt_pos t, uart_out := uart_out t\<rparr>"
  using consputs_Ok [OF assms, of out] by (simp add: out_frame_def)

theorem output_stays_on_screen_witness:
  "screen_ok cons0 \<and> (\<exists>t. consputs [104, 105, 10] cons0 = Ok () t \<and> screen_ok t \<and>
     t = cons0\<lparr>crt := crt t, crt_pos := crt_pos t, uart_out := uart_out t\<rparr>)"
  using output_stays_on_screen [of cons0 "[104, 105, 10]"] by simp

text \<open>
  C23. Printed numbers. The decimal digits that \<open>printint\<close> produces, with the sign it puts in
  front, denote the signed value of the argument, also for the smallest integer, which has no
  positive counterpart.
\<close>

theorem printint_decimal: "parse_int (printint xx 10 True) = sint xx"
proof -
  have v: "num_val 10 (rev (digits_rev 10 n)) = n" for n by (rule num_val_digits) simp_all
  show ?thesis
  proof (cases "sint xx < 0")
    case True
    have r: "-2147483648 \<le> sint xx" using sint_range_size [of xx] by (simp add: word_size)
    have "(sint xx + 4294967296) mod 4294967296 = sint xx + 4294967296" using True r by (intro mod_pos_pos_trivial) simp_all
    then have u: "uint xx = sint xx + 4294967296" by (simp add: uint_sint take_bit_eq_mod)
    have "- uint xx = - sint xx + (-1) * 4294967296" using u by simp
    then have "- uint xx mod 4294967296 = - sint xx mod 4294967296" by (simp only: mod_mult_self1)
    also have "\<dots> = - sint xx" using True r by (intro mod_pos_pos_trivial) simp_all
    finally have "- uint xx mod 4294967296 = - sint xx" .
    then have "int (unat (- xx)) = - sint xx" using u by (simp add: uint_word_ariths(4) flip: uint_nat)
    then show ?thesis using True v by (simp add: printint_def parse_int_def digit_table chars_def of_char_def)
  next
    case False
    obtain d ds where d: "rev (digits_rev 10 (unat xx)) = digit_char d # ds" "d < 16" using hd_digits [of 10 "unat xx"] by auto
    have "sint xx < 2147483648" using sint_range_size [of xx] by (simp add: word_size)
    then have "uint xx = sint xx" unfolding uint_sint [of xx] take_bit_eq_mod using False by (intro mod_pos_pos_trivial) simp_all
    then have "int (unat xx) = sint xx" by (simp flip: uint_nat)
    then show ?thesis using False v [of "unat xx"] d digit_char_not_minus [OF d(2)] by (simp add: printint_def parse_int_def)
  qed
qed

text \<open>
  C24. Typed lines. Let a line of fewer than 128 bytes without control characters, and its newline,
  arrive over the serial port while the input buffer is empty. The interrupt handler takes every
  byte from the port and commits the line. A process that has locked the inode of the console
  and then calls \<open>consoleread\<close> for more bytes than the line has, whatever else has happened since
  as long as nobody else used the input buffer, gets exactly the line and the newline with their
  number, leaves the buffer empty, and holds the inode again. The two counters may have any value,
  and may wrap around.
\<close>

theorem typed_line_is_read:
  fixes s :: "'z conss_scheme"
  assumes "screen_ok s" and "length (input_buf s) = 128" and "input_w s = input_r s" and "input_e s = input_r s"
    and "held s = []" and "uart_on s" and "uart_in s = line @ [10]" and "list_all plain line" and "length line < 128"
  shows "\<exists>t. uartintr s = Ok () t \<and> uart_in t = [] \<and> held t = [] \<and>
    (\<forall>(u::'z conss_scheme) n ip. input_buf u = input_buf t \<and> input_r u = input_r t \<and> input_w u = input_w t \<and>
       int (length line) < n \<and> locked_inode ip u \<and> held u = [] \<longrightarrow>
       (\<exists>v. consoleread ip n u = Ok (int (length line) + 1, line @ [10]) v \<and> input_r v = input_w v \<and> held v = [] \<and>
          i_busy (icache v ! ip)))"
proof -
  let ?s = "s\<lparr>held := [LK_input]\<rparr>"
  have "screen_ok ?s" using assms(1) by (simp add: screen_ok_def)
  then obtain t where t: "consoleintr_loop (length line + 2) uartgetc ?s = consoleintr_loop 2 uartgetc t" "screen_ok t"
      "pending t = line" "length (input_buf t) = 128" "input_r t = input_r s" "unat (input_e t - input_r t) < 128"
      "held t = [LK_input]" "uart_on t" "uart_in t = [10]"
    using typed_plain [of ?s line "[10]" 2] assms by (auto simp: pending_def)
  let ?t = "t\<lparr>uart_in := []\<rparr>"
  have "screen_ok ?t" using t(2) by (simp add: screen_ok_def)
  then obtain u where u: "input_char 10 ?t = Ok () u" "pending u = pending ?t @ [10]" "input_r u = input_r t"
      "input_w u = input_e u" "held u = [LK_input]" "uart_on u" "uart_in u = []"
    using input_newline [of ?t] t by auto
  have g: "uartgetc t = Ok 10 ?t" "uartgetc u = Ok (-1) u" using t(8,9) u(6,7) by (simp_all add: uartgetc_def)
  have two: "consoleintr_loop 2 uartgetc t = Ok () u"
    using g u(1) by (simp add: numeral_2_eq_2)
  have run: "uartintr s = Ok () (u\<lparr>held := []\<rparr>)"
    using two t(1) u(5) assms(5,7) by (simp add: uartintr_def consoleintr_def acquire_Ok release_Ok)
  have "pending u = line @ [10]" using u(2) t(3) by (simp add: pending_def)
  then have p: "ring_contents 128 (input_buf u) (input_r u) (input_w u) = line @ [10]" by (simp add: pending_def u(4))
  have c: "10 \<notin> set line" "4 \<notin> set line" using assms(8) by (auto simp: list_all_iff plain_def)
  have "\<exists>v. consoleread ip n w = Ok (int (length line) + 1, line @ [10]) v \<and> input_r v = input_w v \<and> held v = [] \<and> i_busy (icache v ! ip)"
    if "input_buf w = input_buf u" "input_r w = input_r u" "input_w w = input_w u" "int (length line) < n" "locked_inode ip w" "held w = []"
    for w :: "'z conss_scheme" and n ip
    using consoleread_Ok [of w line n ip] p c that by simp
  then show ?thesis using run u(7) by (intro exI [of _ "u\<lparr>held := []\<rparr>"]) auto
qed

text \<open>The same console with an inode that is locked and has a type on the disk.\<close>

definition cons_ino :: conss where
  "cons_ino = cons0\<lparr>memdisk := image0[2 := put_dinode 3 (to_disk file3) (replicate 512 0)], icache := [file3]\<rparr>"

theorem typed_line_is_read_witness:
  "\<exists>s t u v. binit cons_ino = Ok () s \<and> uartintr s = Ok () t \<and> uart_in t = [] \<and>
     u = s\<lparr>input_buf := input_buf t, input_r := input_r t, input_w := input_w t\<rparr> \<and>
     consoleread 0 100 u = Ok (3, [108, 115, 10]) v \<and> input_r v = input_w v"
proof -
  have b: "length (bufs cons_ino) = 31" "\<forall>b<30. \<not> b_busy (bufs cons_ino ! b) \<and> \<not> b_dirty (bufs cons_ino ! b)"
    by (simp_all add: cons_ino_def cons0_def mach0_def conss.defs machs.defs inodes.defs fs0_simps)
  obtain s where s: "binit cons_ino = Ok () s" "s = cons_ino\<lparr>bufs := bufs s\<rparr>" "ring (bufs s) (rev [0..<30])"
    using binit_ring [OF b] by blast
  obtain B where B: "s = cons_ino\<lparr>bufs := B\<rparr>" using s(2) by blast
  note ro = ring_ok [OF s(3)]
  have f: "screen_ok s" "uart_on s" "uart_in s = [108, 115] @ [10]" "length (input_buf s) = 128" "input_r s = 0" "input_w s = 0"
      "input_e s = 0" "held s = []" "icache s = [file3]" "memdisk s = image0[2 := put_dinode 3 (to_disk file3) (replicate 512 0)]"
    unfolding B cons_ino_def by (simp_all add: screen_ok_def cons0_simps [unfolded screen_ok_def])
  obtain t where t: "uartintr s = Ok () t" "uart_in t = []" "\<forall>(u::conss) n ip. input_buf u = input_buf t \<and> input_r u = input_r t \<and>
      input_w u = input_w t \<and> int (length [108, 115::byte]) < n \<and> locked_inode ip u \<and> held u = [] \<longrightarrow>
      (\<exists>v. consoleread ip n u = Ok (int (length [108, 115::byte]) + 1, [108, 115] @ [10]) v \<and> input_r v = input_w v \<and> held v = [] \<and>
         i_busy (icache v ! ip))"
    using typed_line_is_read [of s "[108, 115]"] f by (auto simp: plain_def)
  let ?u = "s\<lparr>input_buf := input_buf t, input_r := input_r t, input_w := input_w t\<rparr>"
  have "get_dinode 3 (put_dinode 3 (to_disk file3) (replicate 512 0)) = to_disk file3"
    by (rule get_put_dinode) (simp_all add: to_disk_def file3_def)
  moreover have "IBLOCK 3 = 2" by (simp add: IBLOCK_def)
  ultimately have "locked_inode 0 ?u"
    using ro f cache_cong [of ?u s] image0_simps(1)
    by (simp add: locked_inode_def cache_rdy_def file3_def inode0_def to_disk_def)
  then show ?thesis using s(1) t(1,2) t(3) [rule_format, of ?u 100 0] f(8) by auto
qed

end
