(* ===== verification/Fs_Dir.thy ===== *)
theory Fs_Dir
  imports Console
begin

unbundle bit_operations_syntax

text \<open>
  The upper part of \<^verbatim>\<open>fs.c\<close>: reading and writing the content of an inode, directories and path
  names. The kernel copies between the buffer cache and an address of its caller; here \<open>readi\<close>
  returns the bytes it copies out and \<open>writei\<close> is given the bytes it copies in. An inode of a
  device is passed on to the console, the only device that \<^verbatim>\<open>devsw\<close> has.
\<close>

section \<open>Content\<close>

text \<open>The bytes of a block that one turn of the loops of \<open>readi\<close> and \<open>writei\<close> copies.\<close>

definition chunk :: "nat \<Rightarrow> nat \<Rightarrow> nat" where
  "chunk off n = min n (512 - off mod 512)"

lemma chunk_pos [simp]: "0 < n \<Longrightarrow> 0 < chunk off n"
  by (simp add: chunk_def)

lemma chunk_le [simp]: "chunk off n \<le> n"
  by (simp add: chunk_def)

lemma chunk_in_block: "off mod 512 + chunk off n \<le> 512"
proof -
  have "off mod 512 < 512" by simp
  then show ?thesis unfolding chunk_def by linarith
qed

function readi_loop :: "nat \<Rightarrow> nat \<Rightarrow> nat \<Rightarrow> ('z, byte list) inof" where
  "readi_loop ip off n =
     (if n = 0 then ret []
      else
        bnd (bmap ip (off div 512)) (\<lambda>a.
        bnd (the_inode ip) (\<lambda>x.
        bnd (bread (i_dev x) a) (\<lambda>bp.
        bnd (look_data bp) (\<lambda>d.
        thn (brelse bp)
        (bnd (readi_loop ip (off + chunk off n) (n - chunk off n)) (\<lambda>r.
         ret (slice (off mod 512) (chunk off n) d @ r))))))))"
  by auto
termination
  by (relation "measure (\<lambda>(ip, off, n). n)") auto

declare readi_loop.simps [simp del]

text \<open>The device of an inode, when \<^verbatim>\<open>devsw\<close> has functions for its major number.\<close>

definition dev_of :: "inode \<Rightarrow> ('z, device option) consf" where
  "dev_of x = gets (\<lambda>s. if sint (i_major x) < 0 \<or> sint (i_major x) \<ge> 10 then None
     else devsw s (nat (sint (i_major x))))"

definition readi :: "nat \<Rightarrow> u32 \<Rightarrow> u32 \<Rightarrow> ('z, int \<times> byte list) consf" where
  "readi ip off n =
     bnd (the_inode ip) (\<lambda>x.
     if i_type x = T_DEV then
       bnd (dev_of x) (\<lambda>dev. case dev of None \<Rightarrow> ret (-1, []) | Some Dev_Console \<Rightarrow> consoleread ip (sint n))
     else if off > i_size x \<or> off + n < off then ret (-1, [])
     else
       (let n = (if off + n > i_size x then i_size x - off else n) in
        bnd (readi_loop ip (unat off) (unat n)) (\<lambda>r. ret (sint n, r))))"

function writei_loop :: "nat \<Rightarrow> nat \<Rightarrow> byte list \<Rightarrow> ('z, nat) inof" where
  "writei_loop ip off src =
     (if src = [] then ret off
      else
        bnd (bmap ip (off div 512)) (\<lambda>a.
        bnd (the_inode ip) (\<lambda>x.
        bnd (bread (i_dev x) a) (\<lambda>bp.
        bnd (look_data bp) (\<lambda>d.
        thn (put_data bp (patch (off mod 512) (take (chunk off (length src)) src) d))
        (thn (log_write bp)
        (thn (brelse bp)
        (writei_loop ip (off + chunk off (length src)) (drop (chunk off (length src)) src)))))))))"
  by auto
termination
  by (relation "measure (\<lambda>(ip, off, src). length src)") auto

declare writei_loop.simps [simp del]

definition writei :: "nat \<Rightarrow> byte list \<Rightarrow> u32 \<Rightarrow> ('z, int) consf" where
  "writei ip src off =
     bnd (the_inode ip) (\<lambda>x.
     let n = (of_nat (length src) :: u32) in
     if i_type x = T_DEV then
       bnd (dev_of x) (\<lambda>dev. case dev of None \<Rightarrow> ret (-1) | Some Dev_Console \<Rightarrow> consolewrite ip src)
     else if off > i_size x \<or> off + n < off then ret (-1)
     else if off + n > 140 * 512 then ret (-1)
     else
       bnd (writei_loop ip (unat off) src) (\<lambda>off.
       bnd (the_inode ip) (\<lambda>x.
       thn (whenk (n > 0 \<and> of_nat off > i_size x)
             (thn (upd_inode ip (\<lambda>x. x\<lparr>i_size := of_nat off\<rparr>)) (iupdate ip)))
       (ret (sint n)))))"

section \<open>Directories\<close>

definition namecmp :: "byte list \<Rightarrow> byte list \<Rightarrow> int" where
  "namecmp s t = strncmp (cs s) (cs t) 14"

text \<open>\<^verbatim>\<open>struct dirent\<close> in its 16 bytes.\<close>

definition de_inum :: "byte list \<Rightarrow> u16" where
  "de_inum de = word16 (slice 0 2 de)"

definition de_name :: "byte list \<Rightarrow> byte list" where
  "de_name de = slice 2 14 de"

definition dirent_bytes :: "u16 \<Rightarrow> byte list \<Rightarrow> byte list" where
  "dirent_bytes inum name = bytes16 inum @ take 14 (takeWhile (\<lambda>c. c \<noteq> 0) name @ replicate 14 0)"

definition dir_offs :: "u32 \<Rightarrow> u32 list" where
  "dir_offs sz = map (\<lambda>k. of_nat (16 * k)) [0..<(unat sz + 15) div 16]"

text \<open>One entry of a directory, and the loop of \<open>dirlookup\<close>; it returns the inode and the offset of the entry.\<close>

definition read_dirent :: "string \<Rightarrow> nat \<Rightarrow> u32 \<Rightarrow> ('z, byte list) consf" where
  "read_dirent msg dp off =
     bnd (readi dp off 16) (\<lambda>(r, de). if r \<noteq> 16 then panic msg else ret de)"

primrec dirlookup_from :: "nat \<Rightarrow> byte list \<Rightarrow> u32 list \<Rightarrow> ('z, (nat \<times> u32) option) consf" where
  "dirlookup_from dp name [] = ret None"
| "dirlookup_from dp name (off # offs) =
     bnd (read_dirent ''dirlink read'' dp off) (\<lambda>de.
     if de_inum de = 0 then dirlookup_from dp name offs
     else if namecmp name (de_name de) = 0 then
       bnd (the_inode dp) (\<lambda>x.
       bnd (iget (i_dev x) (ucast (de_inum de))) (\<lambda>ip. ret (Some (ip, off))))
     else dirlookup_from dp name offs)"

definition dirlookup :: "nat \<Rightarrow> byte list \<Rightarrow> ('z, (nat \<times> u32) option) consf" where
  "dirlookup dp name =
     bnd (the_inode dp) (\<lambda>x.
     if i_type x \<noteq> T_DIR then panic ''dirlookup not DIR''
     else dirlookup_from dp name (dir_offs (i_size x)))"

text \<open>The first entry that is not in use, or the end of the directory.\<close>

primrec empty_dirent :: "nat \<Rightarrow> u32 \<Rightarrow> u32 list \<Rightarrow> ('z, u32) consf" where
  "empty_dirent dp past [] = ret past"
| "empty_dirent dp past (off # offs) =
     bnd (read_dirent ''dirlink read'' dp off) (\<lambda>de.
     if de_inum de = 0 then ret off else empty_dirent dp past offs)"

definition dirlink :: "nat \<Rightarrow> byte list \<Rightarrow> u32 \<Rightarrow> ('z, int) consf" where
  "dirlink dp name inum =
     bnd (dirlookup dp name) (\<lambda>r. case r of
       Some (ip, _) \<Rightarrow> thn (iput ip) (ret (-1))
     | None \<Rightarrow>
         bnd (the_inode dp) (\<lambda>x.
         bnd (empty_dirent dp (of_nat (16 * length (dir_offs (i_size x)))) (dir_offs (i_size x))) (\<lambda>off.
         bnd (writei dp (dirent_bytes (ucast inum) name) off) (\<lambda>r.
         if r \<noteq> 16 then panic ''dirlink'' else ret 0))))"

section \<open>Paths\<close>

text \<open>
  A path is a string without its NUL. \<open>skipelem\<close> returns the next element, cut to 14
  characters, and the path after it; \<open>None\<close> when there is no element.
\<close>

definition skipelem :: "byte list \<Rightarrow> (byte list \<times> byte list) option" where
  "skipelem path =
     (let path = dropWhile (\<lambda>c. c = 47) path in
      if path = [] then None
      else
        (let s = takeWhile (\<lambda>c. c \<noteq> 47) path;
             path = dropWhile (\<lambda>c. c \<noteq> 47) path
         in Some (if length s \<ge> 14 then take 14 s else s, dropWhile (\<lambda>c. c = 47) path)))"

lemma skipelem_shorter: "skipelem path = Some (name, rest) \<Longrightarrow> length rest < length path"
proof -
  assume a: "skipelem path = Some (name, rest)"
  define p where "p = dropWhile (\<lambda>c. c = 47) path"
  have p: "p \<noteq> []" "rest = dropWhile (\<lambda>c. c = 47) (dropWhile (\<lambda>c. c \<noteq> 47) p)"
    using a by (auto simp: skipelem_def Let_def p_def split: if_splits)
  have "hd p \<noteq> 47" using p(1) hd_dropWhile [of "\<lambda>c. c = 47" path] by (simp add: p_def)
  then have "length (dropWhile (\<lambda>c. c \<noteq> 47) p) < length p"
    using p(1) by (cases p) (auto intro: le_imp_less_Suc length_dropWhile_le)
  moreover have "length p \<le> length path" by (simp add: p_def length_dropWhile_le)
  moreover have "length rest \<le> length (dropWhile (\<lambda>c. c \<noteq> 47) p)" by (simp add: p(2) length_dropWhile_le)
  ultimately show ?thesis by linarith
qed

text \<open>The loop of \<open>namex\<close>: the inode it ends at, with the last element when the parent is asked for.\<close>

function namex_loop :: "nat \<Rightarrow> bool \<Rightarrow> byte list \<Rightarrow> ('z, (nat \<times> byte list) option) consf" where
  "namex_loop ip parent path =
     (case skipelem path of
        None \<Rightarrow> if parent then thn (iput ip) (ret None) else ret (Some (ip, []))
      | Some (name, rest) \<Rightarrow>
          thn (ilock (Some ip))
          (bnd (the_inode ip) (\<lambda>x.
           if i_type x \<noteq> T_DIR then thn (iunlockput ip) (ret None)
           else if parent \<and> rest = [] then thn (iunlock (Some ip)) (ret (Some (ip, name)))
           else
             bnd (dirlookup ip name) (\<lambda>r. case r of
               None \<Rightarrow> thn (iunlockput ip) (ret None)
             | Some (next, _) \<Rightarrow> thn (iunlockput ip) (namex_loop next parent rest)))))"
  by auto
termination
  by (relation "measure (\<lambda>(ip, parent, path). length path)") (auto dest: skipelem_shorter)

declare namex_loop.simps [simp del]

definition namex :: "byte list \<Rightarrow> bool \<Rightarrow> ('z, (nat \<times> byte list) option) consf" where
  "namex path parent =
     bnd (if path \<noteq> [] \<and> hd path = 47 then iget 1 1
          else bnd curp (\<lambda>p. case p_cwd p of None \<Rightarrow> fault ''proc->cwd'' | Some d \<Rightarrow> idup d)) (\<lambda>ip.
     namex_loop ip parent path)"

definition namei :: "byte list \<Rightarrow> ('z, nat option) consf" where
  "namei path = bnd (namex path False) (\<lambda>r. ret (map_option fst r))"

definition nameiparent :: "byte list \<Rightarrow> ('z, (nat \<times> byte list) option) consf" where
  "nameiparent path = namex path True"

section \<open>Content of a file\<close>

text \<open>
  The block that holds the bytes \<open>512 * k\<close> to \<open>512 * k + 511\<close> of an inode: a direct block, or an
  entry of the indirect block. \<open>blocks_ok s x m\<close>: the blocks of the first \<open>m\<close> bytes are
  allocated, on the disk and distinct, and none of them is the indirect block, which is there
  when the direct blocks do not suffice. \<open>fbyte\<close> is the byte at an offset.
\<close>

definition baddr :: "'z inodes_scheme \<Rightarrow> inode \<Rightarrow> nat \<Rightarrow> u32" where
  "baddr s x k = (if k < 12 then i_addrs x ! k else rd32 (blk s (i_addrs x ! 12)) (k - 12))"

definition blocks_ok :: "'z inodes_scheme \<Rightarrow> inode \<Rightarrow> nat \<Rightarrow> bool" where
  "blocks_ok s x m \<longleftrightarrow> i_dev x = 1 \<and> m \<le> 140 * 512 \<and>
     (\<forall>k. 512 * k < m \<longrightarrow> baddr s x k \<noteq> 0 \<and> unat (baddr s x k) < length (memdisk s) \<and> length (blk s (baddr s x k)) = 512) \<and>
     (\<forall>j k. 512 * j < m \<and> 512 * k < m \<and> baddr s x j = baddr s x k \<longrightarrow> j = k) \<and>
     (12 * 512 < m \<longrightarrow> i_addrs x ! 12 \<noteq> 0 \<and> unat (i_addrs x ! 12) < length (memdisk s) \<and>
        (\<forall>k. 512 * k < m \<longrightarrow> baddr s x k \<noteq> i_addrs x ! 12))"

definition fbyte :: "'z inodes_scheme \<Rightarrow> inode \<Rightarrow> nat \<Rightarrow> byte" where
  "fbyte s x i = blk s (baddr s x (i div 512)) ! (i mod 512)"

lemma blocks_okD:
  assumes "blocks_ok s x m" and "512 * k < m"
  shows "k < 140" "baddr s x k \<noteq> 0" "unat (baddr s x k) < length (memdisk s)" "length (blk s (baddr s x k)) = 512" "i_dev x = 1"
  using assms by (auto simp: blocks_ok_def)

lemma blocks_ok_indirect:
  assumes "blocks_ok s x m" and "512 * k < m" and "12 \<le> k"
  shows "i_addrs x ! 12 \<noteq> 0" "unat (i_addrs x ! 12) < length (memdisk s)"
  using assms by (auto simp: blocks_ok_def)

lemma blocks_ok_le: "blocks_ok s x m \<Longrightarrow> n \<le> m \<Longrightarrow> blocks_ok s x n"
  unfolding blocks_ok_def by (meson le_trans less_le_trans)

lemma blocks_ok_same:
  assumes "tb.same s t"
  shows "baddr t x = baddr s x" "blocks_ok t x m = blocks_ok s x m" "fbyte t x = fbyte s x"
proof -
  show b: "baddr t x = baddr s x" using assms by (simp add: fun_eq_iff baddr_def tb.same_def)
  show "blocks_ok t x m = blocks_ok s x m" "fbyte t x = fbyte s x"
    using assms b by (simp_all add: blocks_ok_def fbyte_def fun_eq_iff tb.same_def)
qed

lemma same_icache_eq: "tb.same s t \<Longrightarrow> icache t = icache s" for s :: "'z inodes_scheme"
  by (auto simp: tb.same_def dest: icache_frame)

text \<open>\<open>bmap\<close> finds an allocated block, through the indirect block where needed.\<close>

lemma bmap_allocated:
  fixes s :: "'z inodes_scheme"
  assumes "tx s" and "room s r" and "pin s = Map.empty" and x: "icache s ! ip = x" and ok: "blocks_ok s x m" and k: "512 * k < m"
  shows "\<exists>t. bmap ip k s = Ok (baddr s x k) t \<and> tb.same s t"
proof (cases "k < 12")
  case True
  then show ?thesis
    using x blocks_okD(2) [OF ok k] tb.same_refl [OF assms(1)] by (simp add: bmap_def the_inode_def baddr_def)
next
  case False
  let ?n = "i_addrs x ! 12"
  have i: "?n \<noteq> 0" "unat ?n < length (memdisk s)" using blocks_ok_indirect [OF ok k] False by simp_all
  have fr: "card (dom (pin s)) + length (logged s) < 30 \<or> ?n \<in> set (logged s)"
    using tx_free [OF assms(1,2)] assms(3) by simp
  have np: "?n \<notin> ran (pin s)" using assms(3) by simp
  obtain t where t: "bnd (bread 1 ?n) (\<lambda>b. bnd (look_data b) (\<lambda>d. thn (brelse b) (ret (rd32 d (k - 12))))) s =
      Ok (rd32 (blk s ?n) (k - 12)) t" "tb.same s t"
    using tb.held_read [OF assms(1) i(2) np fr, of "\<lambda>d. rd32 d (k - 12)"] by blast
  obtain b u where u: "bread 1 ?n s = Ok b u" "look_data b u = Ok (blk s ?n) u" "icache u = icache s"
  proof -
    obtain b u where u: "bread 1 ?n s = Ok b u" "log_frame s u" "tx u" "pin u = (pin s)(b \<mapsto> ?n)" "blk u = blk s"
      using tb.rd_law [OF assms(1) i(2) np fr] by blast
    then show thesis using that tb.look_law [OF u(3), of b ?n] icache_frame [OF u(2)] by simp
  qed
  have l: "k - 12 < 128" using blocks_okD(1) [OF ok k] by simp
  have "rd32 (blk s ?n) (k - 12) \<noteq> 0" using blocks_okD(2) [OF ok k] False by (simp add: baddr_def)
  then have "bmap ip k s = bnd (bread 1 ?n) (\<lambda>b. bnd (look_data b) (\<lambda>d. thn (brelse b) (ret (rd32 d (k - 12))))) s"
    using x i(1) False u l blocks_okD(5) [OF ok k] by (simp add: bmap_def the_inode_def)
  then show ?thesis using t False by (simp add: baddr_def)
qed

text \<open>The bytes that one turn of the loops copies.\<close>

lemma chunk_offset:
  assumes "i < chunk off n"
  shows "(off + i) div 512 = off div 512" "(off + i) mod 512 = off mod 512 + i"
proof -
  have l: "off mod 512 + i < 512" using assms chunk_in_block [of off n] by linarith
  have e: "off + i = 512 * (off div 512) + (off mod 512 + i)" by simp
  show "(off + i) div 512 = off div 512" using l by (subst e) (simp only: div_mult_self4 div_less)
  show "(off + i) mod 512 = off mod 512 + i" using l by (subst e) (simp only: mod_mult_self4 mod_less)
qed

lemma chunk_slice:
  assumes "length (blk s (baddr s x (off div 512))) = 512"
  shows "slice (off mod 512) (chunk off n) (blk s (baddr s x (off div 512))) = map (fbyte s x) [off..<off + chunk off n]"
proof (rule nth_equalityI)
  show "length (slice (off mod 512) (chunk off n) (blk s (baddr s x (off div 512)))) = length (map (fbyte s x) [off..<off + chunk off n])"
    using assms chunk_in_block [of off n] by simp
next
  fix i assume "i < length (slice (off mod 512) (chunk off n) (blk s (baddr s x (off div 512))))"
  then have i: "i < chunk off n" using assms chunk_in_block [of off n] by simp
  then show "slice (off mod 512) (chunk off n) (blk s (baddr s x (off div 512))) ! i = map (fbyte s x) [off..<off + chunk off n] ! i"
    using assms chunk_offset [OF i] chunk_in_block [of off n] by (simp add: fbyte_def slice_def)
qed

lemma bnd_Ok: "m s = Ok a t \<Longrightarrow> bnd m f s = f a t"
  by simp

lemma read_step:
  "bnd (bread d a) (\<lambda>bp. bnd (look_data bp) (\<lambda>e. thn (brelse bp) (bnd k (\<lambda>r. ret (g e @ r))))) s =
   bnd (bnd (bread d a) (\<lambda>bp. bnd (look_data bp) (\<lambda>e. thn (brelse bp) (ret (g e))))) (\<lambda>c. bnd k (\<lambda>r. ret (c @ r))) s"
  by (simp split: outcome.splits)

lemma chunk_start: "0 < n \<Longrightarrow> off + n \<le> m \<Longrightarrow> 512 * (off div 512) < (m::nat)"
  using mult_div_mod_eq [of 512 off] by linarith

text \<open>One turn of the loop of \<open>readi\<close>.\<close>

lemma readi_turn:
  fixes s :: "'z inodes_scheme"
  assumes "tx s" and "room s m" and "pin s = Map.empty" and x: "icache s ! ip = x" and ok: "blocks_ok s x (off + n)" and n: "0 < n"
  shows "\<exists>t. readi_loop ip off n s =
      bnd (readi_loop ip (off + chunk off n) (n - chunk off n)) (\<lambda>r. ret (map (fbyte s x) [off..<off + chunk off n] @ r)) t \<and>
    tb.same s t"
proof -
  let ?c = "chunk off n" and ?k = "off div 512"
  have k: "512 * ?k < off + n" using chunk_start [OF n order_refl] .
  note b = blocks_okD [OF ok k]
  obtain t where t: "bmap ip ?k s = Ok (baddr s x ?k) t" "tb.same s t" using bmap_allocated [OF assms(1-4) ok k] by blast
  have ct: "tx t" "room t m" "pin t = Map.empty" "icache t ! ip = x" "unat (baddr s x ?k) < length (memdisk t)" "blk t = blk s"
    using t(2) assms(1-4) tb.same_spare [OF assms(1) t(2)] same_icache_eq [OF t(2)] b(3) by (simp_all add: tb.same_def)
  have fr: "card (dom (pin t)) + length (logged t) < 30 \<or> baddr s x ?k \<in> set (logged t)"
    using tx_free [OF ct(1,2)] ct(3) by simp
  obtain u where u: "bnd (bread 1 (baddr s x ?k)) (\<lambda>bp. bnd (look_data bp) (\<lambda>e. thn (brelse bp)
        (ret (slice (off mod 512) ?c e)))) t = Ok (slice (off mod 512) ?c (blk s (baddr s x ?k))) u" "tb.same t u"
    using tb.held_read [OF ct(1,5) _ fr, of "slice (off mod 512) ?c"] ct(3,6) by auto
  have "readi_loop ip off n s = bnd (bread 1 (baddr s x ?k)) (\<lambda>bp. bnd (look_data bp) (\<lambda>e. thn (brelse bp)
      (bnd (readi_loop ip (off + ?c) (n - ?c)) (\<lambda>r. ret (slice (off mod 512) ?c e @ r))))) t"
    using n t(1) ct(4) b(5) by (subst readi_loop.simps) (simp add: the_inode_def)
  also have "\<dots> = bnd (readi_loop ip (off + ?c) (n - ?c)) (\<lambda>r. ret (slice (off mod 512) ?c (blk s (baddr s x ?k)) @ r)) u"
    unfolding read_step by (rule bnd_Ok) (rule u(1))
  finally show ?thesis
    using chunk_slice [of s x off n] b(4) tb.same_trans [OF t(2) u(2)] by (intro exI [of _ u]) simp
qed

lemma readi_loop_Ok:
  fixes s :: "'z inodes_scheme"
  assumes "tx s" and "room s m" and "pin s = Map.empty" and "icache s ! ip = x" and "blocks_ok s x (off + n)"
  shows "\<exists>t. readi_loop ip off n s = Ok (map (fbyte s x) [off..<off + n]) t \<and> tb.same s t"
  using assms
proof (induction n arbitrary: off s rule: less_induct)
  case (less n)
  show ?case
  proof (cases "n = 0")
    case True
    then show ?thesis using tb.same_refl [OF less.prems(1)] by (simp add: readi_loop.simps [of ip off 0])
  next
    case False
    let ?c = "chunk off n"
    obtain t where t: "readi_loop ip off n s =
        bnd (readi_loop ip (off + ?c) (n - ?c)) (\<lambda>r. ret (map (fbyte s x) [off..<off + ?c] @ r)) t" "tb.same s t"
      using readi_turn [OF less.prems] False by blast
    have ct: "tx t" "room t m" "pin t = Map.empty" "icache t ! ip = x" "blocks_ok t x (off + ?c + (n - ?c))"
      using t(2) less.prems tb.same_spare [OF less.prems(1) t(2)] same_icache_eq [OF t(2)] blocks_ok_same [OF t(2)] chunk_le [of off n]
      by (simp_all add: tb.same_def)
    have "n - ?c < n" using False chunk_pos [of n off] by simp
    from less.IH [OF this ct] obtain u where u: "readi_loop ip (off + ?c) (n - ?c) t = Ok (map (fbyte t x) [off + ?c..<off + n]) u" "tb.same t u"
      using chunk_le [of off n] by auto
    have "map (fbyte s x) [off..<off + ?c] @ map (fbyte t x) [off + ?c..<off + n] = map (fbyte s x) [off..<off + n]"
      using blocks_ok_same(3) [OF t(2)] upt_add_eq_append [of off "off + ?c" "n - ?c"] chunk_le [of off n] by simp
    then show ?thesis using t u(1) tb.same_trans [OF t(2) u(2)] by auto
  qed
qed

text \<open>Writing into blocks that the file has.\<close>

definition wrote :: "inode \<Rightarrow> nat \<Rightarrow> byte list \<Rightarrow> nat \<Rightarrow> 'z inodes_scheme \<Rightarrow> 'z inodes_scheme \<Rightarrow> bool" where
  "wrote x off src m s t \<longleftrightarrow> log_frame s t \<and> tx t \<and> pin t = pin s \<and> memdisk t = memdisk s \<and> blocks_ok t x m \<and>
     (\<forall>k. 512 * k < m \<longrightarrow> baddr t x k = baddr s x k) \<and>
     (\<forall>i<m. fbyte t x i = (if off \<le> i \<and> i < off + length src then src ! (i - off) else fbyte s x i)) \<and>
     (\<forall>b. (\<forall>k. 512 * k < m \<longrightarrow> b \<noteq> baddr s x k) \<longrightarrow> blk t b = blk s b)"

lemma wrote_Nil: "tx s \<Longrightarrow> blocks_ok s x m \<Longrightarrow> wrote x off [] m s s"
  using log_frame_refl [of s] by (auto simp: wrote_def)

lemma baddr_changed:
  assumes ok: "blocks_ok s x m" and t: "tb.changed (baddr s x j) d s t" and j: "512 * j < m" and k: "512 * k < m"
  shows "baddr t x k = baddr s x k"
proof (cases "k < 12")
  case False
  then have "baddr s x j \<noteq> i_addrs x ! 12" using ok j k by (auto simp: blocks_ok_def)
  with False show ?thesis using t by (simp add: baddr_def tb.changed_def)
qed (simp add: baddr_def)

lemma blocks_ok_changed:
  assumes ok: "blocks_ok s x m" and t: "tb.changed (baddr s x j) d s t" and j: "512 * j < m" and d: "length d = 512"
  shows "blocks_ok t x m"
  using ok t d baddr_changed [OF ok t j] unfolding blocks_ok_def by (auto simp: tb.changed_def)

lemma wrote_block:
  fixes s :: "'z inodes_scheme"
  assumes ok: "blocks_ok s x m" and k: "off + n \<le> m" "0 < n" and c: "c = take (chunk off n) src" "length src = n"
    and t: "tb.changed (baddr s x (off div 512)) (patch (off mod 512) c (blk s (baddr s x (off div 512)))) s t"
  shows "wrote x off c m s t"
proof -
  let ?a = "baddr s x (off div 512)" and ?d = "blk s (baddr s x (off div 512))"
  have lt: "512 * (off div 512) < m" using chunk_start [OF k(2,1)] .
  note b = blocks_okD [OF ok lt]
  have lc: "length c = chunk off n" using c by simp
  have lp: "length (patch (off mod 512) c ?d) = 512" using b(4) lc chunk_in_block [of off n] by simp
  have ct: "log_frame s t" "tx t" "pin t = pin s" "memdisk t = memdisk s" "blk t = (blk s)(?a := patch (off mod 512) c ?d)"
    using t by (auto simp: tb.changed_def)
  note ba = baddr_changed [OF ok t lt]
  have "fbyte t x i = (if off \<le> i \<and> i < off + length c then c ! (i - off) else fbyte s x i)" if "i < m" for i
  proof (cases "i div 512 = off div 512")
    case True
    have e: "off \<le> i \<longleftrightarrow> off mod 512 \<le> i mod 512" "i - off = i mod 512 - off mod 512"
      using True mult_div_mod_eq [of 512 off] mult_div_mod_eq [of 512 i] by linarith+
    have "i < off + length c \<longleftrightarrow> i mod 512 < off mod 512 + length c"
      using True mult_div_mod_eq [of 512 off] mult_div_mod_eq [of 512 i] by linarith
    then have "(off \<le> i \<and> i < off + length c) = (off mod 512 \<le> i mod 512 \<and> i mod 512 < off mod 512 + length c)"
      using e(1) by blast
    moreover have "i mod 512 < length ?d" "off mod 512 + length c \<le> length ?d" using b(4) lc chunk_in_block [of off n] by simp_all
    then have "patch (off mod 512) c ?d ! (i mod 512) = (if off mod 512 \<le> i mod 512 \<and> i mod 512 < off mod 512 + length c
        then c ! (i mod 512 - off mod 512) else ?d ! (i mod 512))" by (simp add: nth_patch)
    moreover have "fbyte t x i = patch (off mod 512) c ?d ! (i mod 512)" "fbyte s x i = ?d ! (i mod 512)"
      using True ct(5) ba [OF lt] by (simp_all add: fbyte_def)
    ultimately show ?thesis unfolding e(2) by presburger
  next
    case False
    have im: "512 * (i div 512) < m" using that mult_div_mod_eq [of 512 i] by linarith
    then have "baddr s x (i div 512) \<noteq> ?a" using ok lt False by (auto simp: blocks_ok_def)
    moreover have "\<not> (off \<le> i \<and> i < off + length c)"
    proof
      assume a: "off \<le> i \<and> i < off + length c"
      then have "i - off < chunk off n" using lc by linarith
      from chunk_offset(1) [OF this] show False using a False by simp
    qed
    ultimately show ?thesis using ct(5) ba [OF im] by (auto simp: fbyte_def)
  qed
  moreover have "blk t b = blk s b" if "\<forall>k. 512 * k < m \<longrightarrow> b \<noteq> baddr s x k" for b
    using that [rule_format, OF lt] ct(5) by simp
  ultimately show ?thesis using ct ba blocks_ok_changed [OF ok t lt lp] by (simp add: wrote_def)
qed

lemma wrote_append:
  assumes "wrote x off a m s t" and "wrote x (off + length a) b m t u"
  shows "wrote x off (a @ b) m s u"
proof -
  have "fbyte u x i = (if off \<le> i \<and> i < off + length (a @ b) then (a @ b) ! (i - off) else fbyte s x i)" if "i < m" for i
    using assms that by (auto simp: wrote_def nth_append)
  then show ?thesis using assms log_frame_trans [of s t u] by (auto simp: wrote_def)
qed

lemma wrote_same:
  assumes s: "tb.same s t" and w: "wrote x off a m t u"
  shows "wrote x off a m s u"
proof -
  have "log_frame s t" "pin t = pin s" "memdisk t = memdisk s" "blk t = blk s" using s by (auto simp: tb.same_def)
  then show ?thesis using w blocks_ok_same [OF s] log_frame_trans [of s t u] by (simp add: wrote_def)
qed

lemma write_step:
  "bnd (bread d a) (\<lambda>bp. bnd (look_data bp) (\<lambda>e. thn (put_data bp (g e)) (thn (log_write bp) (thn (brelse bp) k)))) s =
   thn (bnd (bread d a) (\<lambda>bp. bnd (look_data bp) (\<lambda>e. thn (put_data bp (g e)) (thn (log_write bp) (brelse bp))))) k s"
  by (simp split: outcome.splits)

text \<open>One turn of the loop of \<open>writei\<close>.\<close>

lemma writei_turn:
  fixes s :: "'z inodes_scheme"
  assumes "tx s" and "room s (Suc q)" and "pin s = Map.empty" and x: "icache s ! ip = x" and ok: "blocks_ok s x m"
    and m: "off + length src \<le> m" and n: "src \<noteq> []"
  shows "\<exists>t. writei_loop ip off src s = writei_loop ip (off + chunk off (length src)) (drop (chunk off (length src)) src) t \<and>
    wrote x off (take (chunk off (length src)) src) m s t \<and> room t q"
proof -
  let ?c = "chunk off (length src)" and ?k = "off div 512"
  have n0: "0 < length src" using n by simp
  have lt: "512 * ?k < m" using chunk_start [OF n0 m] .
  obtain t where t: "bmap ip ?k s = Ok (baddr s x ?k) t" "tb.same s t" using bmap_allocated [OF assms(1-4) ok lt] by blast
  have ct: "tx t" "pin t = Map.empty" "icache t ! ip = x" "blocks_ok t x m" "baddr t x = baddr s x"
    using t(2) assms(3,4) ok same_icache_eq [OF t(2)] blocks_ok_same [OF t(2)] by (simp_all add: tb.same_def)
  note b = blocks_okD [OF ct(4) lt, unfolded ct(5)]
  have r: "room t (Suc q)" using tb.same_spare [OF assms(1) t(2) assms(2)] .
  then have "room t 1" using tb.spare_law [OF ct(1,1) log_frame_refl, of "Suc q" 1] by simp
  then obtain u where u: "bnd (bread 1 (baddr s x ?k)) (\<lambda>bp. bnd (look_data bp) (\<lambda>e.
      thn (put_data bp (patch (off mod 512) (take ?c src) e)) (thn (log_write bp) (brelse bp)))) t = Ok () u"
      "tb.changed (baddr s x ?k) (patch (off mod 512) (take ?c src) (blk t (baddr s x ?k))) t u"
    using tb.update_block [OF ct(1) b(3), of "patch (off mod 512) (take ?c src)"] ct(2) by auto
  have "wrote x off (take ?c src) m t u" by (rule wrote_block [OF ct(4) m n0 refl refl]) (simp add: ct(5) u(2))
  moreover have "room u q" using tb.changed_spare [OF ct(1) u(2) r] .
  moreover have "writei_loop ip off src s = bnd (bread 1 (baddr s x ?k)) (\<lambda>bp. bnd (look_data bp) (\<lambda>e.
      thn (put_data bp (patch (off mod 512) (take ?c src) e)) (thn (log_write bp) (thn (brelse bp)
        (writei_loop ip (off + ?c) (drop ?c src)))))) t"
    using n t(1) ct(3) b(5) by (subst writei_loop.simps) (simp add: the_inode_def)
  then have "writei_loop ip off src s = writei_loop ip (off + ?c) (drop ?c src) u"
    unfolding write_step using u(1) by simp
  ultimately show ?thesis using wrote_same [OF t(2)] by blast
qed

lemma chunk_room:
  assumes "off mod 512 + n \<le> 512 * Suc q"
  shows "(off + chunk off n) mod 512 + (n - chunk off n) \<le> 512 * q \<or> n - chunk off n = 0"
proof (cases "n \<le> 512 - off mod 512")
  case False
  then have c: "chunk off n = 512 - off mod 512" by (simp add: chunk_def)
  have m: "off mod 512 < 512" by simp
  have "(off + chunk off n) mod 512 = (off mod 512 + chunk off n) mod 512" by (simp add: mod_add_left_eq)
  then have "(off + chunk off n) mod 512 = 0" using c m by simp
  then have "(off + chunk off n) mod 512 + (n - chunk off n) \<le> 512 * q" using c m assms [unfolded mult_Suc_right] False by linarith
  then show ?thesis ..
qed (simp add: chunk_def)

lemma writei_loop_Ok:
  fixes s :: "'z inodes_scheme"
  assumes "tx s" and "room s r" and "pin s = Map.empty" and "icache s ! ip = x" and "blocks_ok s x m"
    and "off + length src \<le> m" and "off mod 512 + length src \<le> 512 * r \<or> src = []"
  shows "\<exists>t. writei_loop ip off src s = Ok (off + length src) t \<and> wrote x off src m s t \<and> room t 0"
  using assms
proof (induction "length src" arbitrary: off src s r rule: less_induct)
  case less
  show ?case
  proof (cases "src = []")
    case True
    then show ?thesis
      using less.prems(2) wrote_Nil [OF less.prems(1,5)] by (auto simp: writei_loop.simps [of ip off "[]"] room_def)
  next
    case False
    let ?n = "length src" and ?c = "chunk off (length src)"
    obtain q where r: "r = Suc q" using False less.prems(7) by (cases r) auto
    obtain t where t: "writei_loop ip off src s = writei_loop ip (off + ?c) (drop ?c src) t"
        and w: "wrote x off (take ?c src) m s t" and rt: "room t q"
      using writei_turn [OF less.prems(1) _ less.prems(3-6) False, of q] less.prems(2) r by auto
    have ct: "tx t" "pin t = Map.empty" "icache t ! ip = x" "blocks_ok t x m"
      using w less.prems(3,4) icache_frame [of s t] by (auto simp: wrote_def)
    have d: "length (drop ?c src) < ?n" "off + ?c + length (drop ?c src) \<le> m"
      using False chunk_pos [of ?n off] chunk_le [of off ?n] less.prems(6) by simp_all
    have "(off + ?c) mod 512 + length (drop ?c src) \<le> 512 * q \<or> drop ?c src = []"
      using chunk_room [of off ?n q] less.prems(7) False r by auto
    from less.hyps [OF d(1) ct(1) rt ct(2-4) d(2) this] obtain u where
      u: "writei_loop ip (off + ?c) (drop ?c src) t = Ok (off + ?c + length (drop ?c src)) u" "wrote x (off + ?c) (drop ?c src) m t u" "room u 0"
      by blast
    have "length (take ?c src) = ?c" using chunk_le [of off ?n] by simp
    then have "wrote x off (take ?c src @ drop ?c src) m s u" by (intro wrote_append [OF w]) (simp only: u(2))
    moreover have "writei_loop ip off src s = Ok (off + ?n) u" using t u(1) chunk_le [of off ?n] by simp
    ultimately show ?thesis using u(3) by auto
  qed
qed

lemma sint_small:
  assumes "unat (n::u32) < 2147483648"
  shows "sint n = int (unat n)"
proof -
  have u: "uint n = int (unat n)" by simp
  then have "uint n < 2147483648" using assms by linarith
  moreover have "- 2147483648 \<le> uint n" using uint_ge_0 [of n] by linarith
  ultimately have "signed_take_bit 31 (uint n) = uint n" using signed_take_bit_int_eq_self [of 31 "uint n"] by (simp only: power_numeral) simp
  then show ?thesis by (simp add: sint_uint)
qed

lemma unat_add_le: "unat (a::u32) + unat b \<le> 71680 \<Longrightarrow> unat (a + b) = unat a + unat b"
  by (simp add: unat_word_ariths)

lemma readi_Ok:
  fixes s :: "'z conss_scheme"
  assumes "tx s" and "room s m" and "pin s = Map.empty" and x: "icache s ! ip = x" "i_type x \<noteq> T_DEV"
    and ok: "blocks_ok s x (unat (i_size x))" and n: "unat off + unat n \<le> unat (i_size x)"
  shows "\<exists>t. readi ip off n s = Ok (int (unat n), map (fbyte s x) [unat off..<unat off + unat n]) t \<and> tb.same s t"
proof -
  have sz: "unat (i_size x) \<le> 71680" using ok by (simp add: blocks_ok_def)
  have a: "unat (off + n) = unat off + unat n" using n sz by (intro unat_add_le) simp
  have c: "\<not> off > i_size x" "\<not> off + n < off" "\<not> off + n > i_size x" using a n by (simp_all add: word_less_nat_alt)
  have b: "blocks_ok s x (unat off + unat n)" using blocks_ok_le [OF ok n] .
  obtain t where t: "readi_loop ip (unat off) (unat n) s = Ok (map (fbyte s x) [unat off..<unat off + unat n]) t" "tb.same s t"
    using readi_loop_Ok [OF assms(1-3) x(1) b] by blast
  have "sint n = int (unat n)" using n sz by (simp add: sint_small)
  then have "readi ip off n s = Ok (int (unat n), map (fbyte s x) [unat off..<unat off + unat n]) t"
    using x c t(1) by (simp add: readi_def the_inode_def)
  then show ?thesis using t(2) by blast
qed

lemma writei_Ok:
  fixes s :: "'z conss_scheme"
  assumes "tx s" and "room s r" and "pin s = Map.empty" and x: "icache s ! ip = x" "i_type x \<noteq> T_DEV"
    and ok: "blocks_ok s x (unat (i_size x))" and n: "unat off + length src \<le> unat (i_size x)"
    and r: "unat off mod 512 + length src \<le> 512 * r"
  shows "\<exists>t. writei ip src off s = Ok (int (length src)) t \<and> wrote x (unat off) src (unat (i_size x)) s t \<and> room t 0"
proof -
  let ?n = "of_nat (length src) :: u32"
  have sz: "unat (i_size x) \<le> 71680" using ok by (simp add: blocks_ok_def)
  have l: "unat ?n = length src" using n sz by (simp add: unat_of_nat)
  have a: "unat (off + ?n) = unat off + length src" using n sz l unat_add_le [of off ?n] by simp
  have c: "\<not> off > i_size x" "\<not> off + ?n < off" "\<not> off + ?n > 140 * 512" using a n sz by (simp_all add: word_less_nat_alt)
  obtain t where t: "writei_loop ip (unat off) src s = Ok (unat off + length src) t" "wrote x (unat off) src (unat (i_size x)) s t" "room t 0"
    using writei_loop_Ok [OF assms(1-3) x(1) ok n] r by blast
  have i: "icache t ! ip = x" using icache_frame [of s t] t(2) x(1) by (simp add: wrote_def)
  have "\<not> of_nat (unat off + length src) > i_size x" using a n by (simp add: word_less_nat_alt not_less)
  then have "writei ip src off s = Ok (sint ?n) t"
    using x c t(1) i by (simp add: writei_def the_inode_def Let_def)
  then show ?thesis using t(2,3) sint_small [of ?n] l n sz by auto
qed

section \<open>Properties\<close>

text \<open>
  C29. Writing and reading a file. Inside a transaction with room for the blocks that are touched,
  a write within a file whose blocks are allocated, direct ones and those of the indirect block
  up to the largest file, is complete; a read of the same range then returns exactly the bytes
  written, every other byte of the file is unchanged, and so is every block that does not hold
  bytes of the file.
\<close>

theorem writei_readi:
  fixes s :: "'z conss_scheme"
  assumes "tx s" and "room s r" and "pin s = Map.empty" and "icache s ! ip = x" and "i_type x \<noteq> T_DEV"
    and "blocks_ok s x (unat (i_size x))" and "unat off + length src \<le> unat (i_size x)"
    and "unat off mod 512 + length src \<le> 512 * r"
  shows "\<exists>t u. writei ip src off s = Ok (int (length src)) t \<and>
    readi ip off (of_nat (length src)) t = Ok (int (length src), src) u \<and>
    (\<forall>i < unat (i_size x). \<not> (unat off \<le> i \<and> i < unat off + length src) \<longrightarrow> fbyte u x i = fbyte s x i) \<and>
    (\<forall>b. (\<forall>k. 512 * k < unat (i_size x) \<longrightarrow> b \<noteq> baddr s x k) \<longrightarrow> blk u b = blk s b)"
proof -
  obtain t where t: "writei ip src off s = Ok (int (length src)) t" "wrote x (unat off) src (unat (i_size x)) s t" "room t 0"
    using writei_Ok [OF assms] by blast
  let ?n = "of_nat (length src) :: u32"
  have ct: "tx t" "pin t = Map.empty" "icache t ! ip = x" "blocks_ok t x (unat (i_size x))"
    using t(2) assms(3,4) icache_frame [of s t] by (auto simp: wrote_def)
  have l: "unat ?n = length src" using assms(6,7) by (simp add: unat_of_nat blocks_ok_def)
  then obtain u where u: "readi ip off ?n t = Ok (int (length src), map (fbyte t x) [unat off..<unat off + length src]) u" "tb.same t u"
    using readi_Ok [OF ct(1) t(3) ct(2,3) assms(5) ct(4), of off ?n] assms(7) by auto
  have w: "fbyte t x i = (if unat off \<le> i \<and> i < unat off + length src then src ! (i - unat off) else fbyte s x i)" if "i < unat (i_size x)" for i
    using t(2) that by (simp add: wrote_def)
  have "map (fbyte t x) [unat off..<unat off + length src] = src"
    using w assms(7) by (intro nth_equalityI) simp_all
  moreover have "fbyte u x = fbyte t x" "blk u = blk t" using blocks_ok_same(3) [OF u(2)] u(2) by (simp_all add: tb.same_def)
  moreover have "blk t b = blk s b" if "\<forall>k. 512 * k < unat (i_size x) \<longrightarrow> b \<noteq> baddr s x k" for b
    using t(2) that by (simp add: wrote_def)
  ultimately show ?thesis using t(1) u(1) w by (intro exI [of _ t] exI [of _ u]) auto
qed

lemma cons0_fs: "bufs cons0 = bufs fs0" "memdisk cons0 = image0" "l_dev cons0 = 1" "l_outstanding cons0 = 1" "lh_n cons0 = 0"
  "l_size cons0 = 3" "length (lh_sector cons0) = 30"
  using fs0_simps by (simp_all add: cons0_def machs.defs conss.defs mach0_def inodes.defs)

text \<open>A file of 6200 bytes: twelve direct blocks from block 12 on, and block 24 through the indirect block 10.\<close>

definition file5 :: inode where
  "file5 = file3\<lparr>i_size := 6200, i_addrs := map of_nat [12..<24] @ [10]\<rparr>"

definition disk5 :: "byte list list" where
  "disk5 = (replicate 32 (replicate 512 0))[10 := bytes32 24 @ replicate 508 0]"

theorem writei_readi_witness:
  "\<exists>s t u. binit (cons0\<lparr>icache := [file5], memdisk := disk5\<rparr>) = Ok () s \<and> writei 0 [7, 8, 9] 6142 s = Ok 3 t \<and>
     readi 0 6142 3 t = Ok (3, [7, 8, 9]) u"
proof -
  let ?f = "cons0\<lparr>icache := [file5], memdisk := disk5\<rparr>"
  obtain s where s: "binit ?f = Ok () s" "s = ?f\<lparr>bufs := bufs s\<rparr>" "tx s" "pin s = Map.empty" "blk s = (\<lambda>n. disk5 ! unat n)"
    using boot_tx [of ?f] cons0_fs fs0_simps by auto
  obtain B where B: "s = ?f\<lparr>bufs := B\<rparr>" using s(2) by blast
  have f: "memdisk s = disk5" "room s 2" "icache s ! 0 = file5" unfolding B by (simp_all add: cons0_fs room_def)
  have x: "i_type file5 = 2" "i_size file5 = 6200" "i_addrs file5 = map of_nat [12..<24] @ [10]" "i_dev file5 = 1"
    by (simp_all add: file5_def file3_def)
  have u: "unat (of_nat n :: u32) = n" if "n < 32" for n using that by (simp add: unat_of_nat)
  have "slice 0 4 (bytes32 24 @ replicate 508 0) = bytes32 24" by (simp add: slice_def)
  then have "rd32 (blk s 10) 0 = 24" by (simp add: s(5) disk5_def rd32_def)
  then have ba: "baddr s file5 k = of_nat (12 + k)" if "k < 13" for k
  proof (cases "k = 12")
    case False
    with that have "(map of_nat [12..<24] @ [10 :: u32]) ! k = of_nat (12 + k)" by (simp add: nth_append del: upt_rec_numeral)
    with False that show ?thesis by (simp add: baddr_def x(3) del: upt_rec_numeral)
  qed (use \<open>rd32 (blk s 10) 0 = 24\<close> in \<open>simp add: baddr_def x(3)\<close>)
  then have ub: "unat (baddr s file5 k) = 12 + k" if "k < 13" for k using that u [of "12 + k"] by simp
  have k: "512 * k < 6200 \<longleftrightarrow> k < 13" for k :: nat by linarith
  have "blocks_ok s file5 6200"
    unfolding blocks_ok_def k using ub by (auto simp: x f(1) s(5) disk5_def nth_update word_unat_eq_iff)
  then show ?thesis
    using writei_readi [OF s(3) f(2) s(4) f(3), of 6142 "[7, 8, 9]"] x s(1) by auto
qed

section \<open>Names\<close>

lemma trunc_cs: "trunc (cs xs) n = take n (takeWhile (\<lambda>c. c \<noteq> 0) xs)"
proof (induction n arbitrary: xs)
  case (Suc n)
  show ?case
  proof (cases xs)
    case (Cons c ys)
    have "(\<lambda>i. cs xs (Suc i)) = cs ys" by (simp add: Cons cs_def fun_eq_iff)
    then show ?thesis using Suc [of ys] by (simp add: Cons) (simp add: cs_def)
  qed (simp add: cs_def)
qed simp

lemma takeWhile_pad: "0 \<notin> set xs \<Longrightarrow> takeWhile (\<lambda>c. c \<noteq> 0) (xs @ replicate k (0::byte)) = xs"
  by (induction xs) (auto simp: takeWhile_eq_Nil_iff hd_replicate)

text \<open>
  Directory entries. The 16 bytes of an entry hold the inode number and the name; a name
  matches the stored one exactly when the first 14 characters of the two agree.
\<close>

lemma dirent_name_match:
  assumes "0 \<notin> set name" and "0 \<notin> set other"
  shows "length (dirent_bytes inum name) = 16 \<and> de_inum (dirent_bytes inum name) = inum \<and>
    (namecmp other (de_name (dirent_bytes inum name)) = 0 \<longleftrightarrow> take 14 other = take 14 name)"
proof -
  let ?p = "take 14 (name @ replicate 14 0)"
  have w: "takeWhile (\<lambda>c. c \<noteq> 0) name = name" "takeWhile (\<lambda>c. c \<noteq> 0) other = other"
    using assms by (auto simp: takeWhile_eq_all_conv)
  have l: "length (bytes16 inum) = 2" "length ?p = 14" by (simp_all add: bytes16_def)
  have d: "de_name (dirent_bytes inum name) = ?p" unfolding de_name_def dirent_bytes_def w(1) using l(1) by (simp add: slice_def)
  have "slice 0 2 (dirent_bytes inum name) = bytes16 inum" using l(1) by (simp add: dirent_bytes_def slice_def)
  then have i: "de_inum (dirent_bytes inum name) = inum" by (simp add: de_inum_def)
  have "?p = take 14 name @ replicate (14 - length name) 0" by simp
  moreover have "0 \<notin> set (take 14 name)" using assms(1) by (meson in_set_takeD)
  ultimately have "takeWhile (\<lambda>c. c \<noteq> 0) ?p = take 14 name" using takeWhile_pad by metis
  then have "namecmp other ?p = 0 \<longleftrightarrow> take 14 other = take 14 name"
    by (simp add: namecmp_def strncmp_eq_0 trunc_cs w del: take_append)
  then show ?thesis using d i l by (simp add: dirent_bytes_def)
qed

section \<open>Path elements\<close>

function path_elems :: "byte list \<Rightarrow> byte list list" where
  "path_elems path = (case skipelem path of None \<Rightarrow> [] | Some (name, rest) \<Rightarrow> name # path_elems rest)"
  by auto
termination
  by (relation "measure length") (auto dest: skipelem_shorter)

declare path_elems.simps [simp del]

lemma drop_slashes: "dropWhile (\<lambda>c. c = 47) (replicate k 47 @ xs) = dropWhile (\<lambda>c. c = 47) xs"
  by (induction k) auto

lemma path_elems_slashes: "path_elems (dropWhile (\<lambda>c. c = 47) path) = path_elems path"
proof -
  have "skipelem (dropWhile (\<lambda>c. c = 47) path) = skipelem path" by (simp add: skipelem_def)
  then show ?thesis by (subst (1 2) path_elems.simps) simp
qed

lemma path_elems_step: "skipelem path = Some (name, rest) \<Longrightarrow> path_elems path = name # path_elems rest"
  by (subst path_elems.simps) simp

lemma name_split:
  assumes "name \<noteq> []" and "47 \<notin> set name" and "rest = [] \<or> hd rest = 47"
  shows "dropWhile (\<lambda>c. c = 47) (name @ rest) = name @ rest" and "takeWhile (\<lambda>c. c \<noteq> 47) (name @ rest) = name"
    and "dropWhile (\<lambda>c. c \<noteq> 47) (name @ rest) = rest"
proof -
  have "hd name \<noteq> 47" using assms(1,2) hd_in_set by force
  then show "dropWhile (\<lambda>c. c = 47) (name @ rest) = name @ rest" using assms(1) by (cases name) auto
  have a: "\<forall>c \<in> set name. c \<noteq> 47" using assms(2) by auto
  show "takeWhile (\<lambda>c. c \<noteq> 47) (name @ rest) = name" using a assms(3) by (cases rest) (auto simp: takeWhile_append2)
  show "dropWhile (\<lambda>c. c \<noteq> 47) (name @ rest) = rest" using a assms(3) by (cases rest) (auto simp: dropWhile_append2)
qed

text \<open>
  C30. Paths. A path that is written as names with one or more slashes before each of them, and any
  number of slashes at the end, is taken apart into exactly these names, each cut to 14
  characters.
\<close>

theorem skipelem_path:
  assumes "list_all (\<lambda>(k, name). name \<noteq> [] \<and> 47 \<notin> set name) xs"
  shows "path_elems (concat (map (\<lambda>(k, name). replicate (Suc k) 47 @ name) xs) @ replicate j 47) =
    map (\<lambda>(k, name). take 14 name) xs"
  using assms
proof (induction xs)
  case Nil
  have "skipelem (replicate j 47) = None" using drop_slashes [of j "[]"] by (simp add: skipelem_def)
  then show ?case by (simp add: path_elems.simps)
next
  case (Cons x xs)
  obtain k name where x: "x = (k, name)" by (cases x)
  let ?rest = "concat (map (\<lambda>(k, name). replicate (Suc k) 47 @ name) xs) @ replicate j 47"
  have n: "name \<noteq> []" "47 \<notin> set name" using Cons.prems x by simp_all
  have r: "?rest = [] \<or> hd ?rest = 47" by (cases xs; cases j) auto
  have "skipelem (replicate (Suc k) 47 @ name @ ?rest) = Some (take 14 name, dropWhile (\<lambda>c. c = 47) ?rest)"
    using name_split [OF n r] drop_slashes [of "Suc k" "name @ ?rest"] n(1) by (simp add: skipelem_def Let_def)
  then have "path_elems (replicate (Suc k) 47 @ name @ ?rest) = take 14 name # path_elems ?rest"
    unfolding path_elems_slashes [of ?rest, symmetric] by (rule path_elems_step)
  then show ?case using Cons x by simp
qed

theorem skipelem_path_witness:
  "path_elems [47, 47, 97, 47, 98, 98, 47] = [[97], [98, 98]]"
  using skipelem_path [of "[(1, [97]), (0, [98, 98])]" 1] by simp

end
