(* ===== verification/File_Pipe.thy ===== *)
theory File_Pipe
  imports Fs_Dir
begin

unbundle bit_operations_syntax

text \<open>
  Open files (\<^verbatim>\<open>file.c\<close>, \<^verbatim>\<open>file.h\<close>) and pipes (\<^verbatim>\<open>pipe.c\<close>). A file pointer is an index into the
  file table. A pipe lives in a page of the allocator; the page is its name, and its fields are
  kept beside the bytes of memory. The bytes that \<open>fileread\<close> and \<open>piperead\<close> copy out are part
  of their result, those that \<open>filewrite\<close> and \<open>pipewrite\<close> copy in are their argument.
\<close>

section \<open>State\<close>

datatype fdtype = FD_NONE | FD_PIPE | FD_INODE

record kfile =
  f_type :: fdtype
  f_ref :: int
  f_readable :: bool
  f_writable :: bool
  f_pipe :: u32
  f_ip :: nat
  f_off :: u32

record pipe =
  pi_data :: "byte list"
  pi_nread :: u32
  pi_nwrite :: u32
  pi_readopen :: bool
  pi_writeopen :: bool

record files = conss +
  ftable :: "kfile list"
  pipes :: "u32 \<Rightarrow> pipe"

type_synonym ('z, 'a) filef = "('z files_scheme, 'a) kfun"

definition the_file :: "nat \<Rightarrow> ('z, kfile) filef" where
  "the_file f = gets (\<lambda>s. ftable s ! f)"

definition upd_file :: "nat \<Rightarrow> (kfile \<Rightarrow> kfile) \<Rightarrow> ('z, unit) filef" where
  "upd_file f g = modify (\<lambda>s. s\<lparr>ftable := (ftable s)[f := g (ftable s ! f)]\<rparr>)"

definition the_pipe :: "u32 \<Rightarrow> ('z, pipe) filef" where
  "the_pipe p = gets (\<lambda>s. pipes s p)"

definition upd_pipe :: "u32 \<Rightarrow> (pipe \<Rightarrow> pipe) \<Rightarrow> ('z, unit) filef" where
  "upd_pipe p g = modify (\<lambda>s. s\<lparr>pipes := (pipes s)(p := g (pipes s p))\<rparr>)"

section \<open>Pipes\<close>

abbreviation (input) "PIPESIZE \<equiv> (512::nat)"

definition pipeclose :: "u32 \<Rightarrow> bool \<Rightarrow> ('z, unit) filef" where
  "pipeclose p writable =
     thn (acquire (LK_pipe p))
     (thn (if writable then thn (upd_pipe p (\<lambda>q. q\<lparr>pi_writeopen := False\<rparr>)) (wakeup (CH_nread p))
           else thn (upd_pipe p (\<lambda>q. q\<lparr>pi_readopen := False\<rparr>)) (wakeup (CH_nwrite p)))
     (bnd (the_pipe p) (\<lambda>q.
      if \<not> pi_readopen q \<and> \<not> pi_writeopen q then thn (release (LK_pipe p)) (kfree p)
      else release (LK_pipe p))))"

text \<open>The loop of \<open>pipewrite\<close>, with the bytes still to write; it continues here after a wakeup.\<close>

primrec pipewrite_loop :: "u32 \<Rightarrow> int \<Rightarrow> byte list \<Rightarrow> ('z, int) filef" where
  "pipewrite_loop p n [] = thn (wakeup (CH_nread p)) (thn (release (LK_pipe p)) (ret n))"
| "pipewrite_loop p n (c # addr) =
     bnd (the_pipe p) (\<lambda>q.
     if pi_nwrite q = pi_nread q + of_nat PIPESIZE then
       bnd (if \<not> pi_readopen q then ret True else bnd curp (\<lambda>pr. ret (p_killed pr))) (\<lambda>stop.
       if stop then thn (release (LK_pipe p)) (ret (-1))
       else thn (wakeup (CH_nread p)) (sleep (CH_nwrite p) (LK_pipe p)))
     else
       thn (upd_pipe p (\<lambda>q. q\<lparr>pi_data := (pi_data q)[ring_at PIPESIZE (pi_nwrite q) := c], pi_nwrite := pi_nwrite q + 1\<rparr>))
       (pipewrite_loop p n addr))"

definition pipewrite :: "u32 \<Rightarrow> byte list \<Rightarrow> ('z, int) filef" where
  "pipewrite p addr = thn (acquire (LK_pipe p)) (pipewrite_loop p (int (length addr)) addr)"

text \<open>The copying loop of \<open>piperead\<close>, and \<open>piperead\<close> from the test for an empty pipe on.\<close>

primrec piperead_copy :: "u32 \<Rightarrow> nat \<Rightarrow> ('z, byte list) filef" where
  "piperead_copy p 0 = ret []"
| "piperead_copy p (Suc n) =
     bnd (the_pipe p) (\<lambda>q.
     if pi_nread q = pi_nwrite q then ret []
     else
       thn (upd_pipe p (\<lambda>q. q\<lparr>pi_nread := pi_nread q + 1\<rparr>))
       (bnd (piperead_copy p n) (\<lambda>r. ret (pi_data q ! ring_at PIPESIZE (pi_nread q) # r))))"

definition piperead_loop :: "u32 \<Rightarrow> int \<Rightarrow> ('z, int \<times> byte list) filef" where
  "piperead_loop p n =
     bnd (the_pipe p) (\<lambda>q.
     if pi_nread q = pi_nwrite q \<and> pi_writeopen q then
       bnd curp (\<lambda>pr.
       if p_killed pr then thn (release (LK_pipe p)) (ret (-1, []))
       else sleep (CH_nread p) (LK_pipe p))
     else
       bnd (piperead_copy p (nat n)) (\<lambda>r.
       thn (wakeup (CH_nwrite p))
       (thn (release (LK_pipe p))
       (ret (int (length r), r)))))"

definition piperead :: "u32 \<Rightarrow> int \<Rightarrow> ('z, int \<times> byte list) filef" where
  "piperead p n = thn (acquire (LK_pipe p)) (piperead_loop p n)"

section \<open>Files\<close>

definition filealloc :: "('z, nat option) filef" where
  "filealloc =
     thn (acquire LK_ftable)
     (bnd (gets ftable) (\<lambda>fs.
      case find_idx (\<lambda>f. f_ref f = 0) fs of
        Some f \<Rightarrow> thn (upd_file f (\<lambda>x. x\<lparr>f_ref := 1\<rparr>)) (thn (release LK_ftable) (ret (Some f)))
      | None \<Rightarrow> thn (release LK_ftable) (ret None)))"

definition filedup :: "nat \<Rightarrow> ('z, nat) filef" where
  "filedup f =
     thn (acquire LK_ftable)
     (bnd (the_file f) (\<lambda>x.
      if f_ref x < 1 then panic ''filedup''
      else
        thn (upd_file f (\<lambda>x. x\<lparr>f_ref := f_ref x + 1\<rparr>))
        (thn (release LK_ftable) (ret f))))"

definition fileclose :: "nat \<Rightarrow> ('z, unit) filef" where
  "fileclose f =
     thn (acquire LK_ftable)
     (bnd (the_file f) (\<lambda>x.
      if f_ref x < 1 then panic ''fileclose''
      else
        thn (upd_file f (\<lambda>x. x\<lparr>f_ref := f_ref x - 1\<rparr>))
        (if f_ref x - 1 > 0 then release LK_ftable
         else
           bnd (the_file f) (\<lambda>ff.
           thn (upd_file f (\<lambda>x. x\<lparr>f_ref := 0, f_type := FD_NONE\<rparr>))
           (thn (release LK_ftable)
           (if f_type ff = FD_PIPE then pipeclose (f_pipe ff) (f_writable ff)
            else if f_type ff = FD_INODE then thn begin_op (thn (iput (f_ip ff)) end_op)
            else ret ()))))))"

definition filestat :: "nat \<Rightarrow> ('z, stat option) filef" where
  "filestat f =
     bnd (the_file f) (\<lambda>x.
     if f_type x = FD_INODE then
       thn (ilock (Some (f_ip x)))
       (bnd (stati (f_ip x)) (\<lambda>st.
        thn (iunlock (Some (f_ip x))) (ret (Some st))))
     else ret None)"

definition fileread :: "nat \<Rightarrow> int \<Rightarrow> ('z, int \<times> byte list) filef" where
  "fileread f n =
     bnd (the_file f) (\<lambda>x.
     if \<not> f_readable x then ret (-1, [])
     else if f_type x = FD_PIPE then piperead (f_pipe x) n
     else if f_type x = FD_INODE then
       thn (ilock (Some (f_ip x)))
       (bnd (the_file f) (\<lambda>x.
        bnd (readi (f_ip x) (f_off x) (word_of_int n)) (\<lambda>(r, data).
        thn (whenk (r > 0) (upd_file f (\<lambda>x. x\<lparr>f_off := f_off x + word_of_int r\<rparr>)))
        (thn (iunlock (Some (f_ip x)))
        (ret (r, data))))))
     else panic ''fileread'')"

text \<open>The loop of \<open>filewrite\<close>: one transaction for at most 6656 bytes.\<close>

abbreviation (input) "MAXWRITE \<equiv> (((30 - 1 - 1 - 2) div 2) * 512 :: nat)"

function filewrite_loop :: "nat \<Rightarrow> int \<Rightarrow> byte list \<Rightarrow> ('z, int) filef" where
  "filewrite_loop f n addr =
     (if addr = [] then ret n
      else
        thn begin_op
        (bnd (the_file f) (\<lambda>x.
         thn (ilock (Some (f_ip x)))
         (bnd (the_file f) (\<lambda>x.
          bnd (writei (f_ip x) (take MAXWRITE addr) (f_off x)) (\<lambda>r.
          thn (whenk (r > 0) (upd_file f (\<lambda>x. x\<lparr>f_off := f_off x + word_of_int r\<rparr>)))
          (thn (iunlock (Some (f_ip x)))
          (thn end_op
          (if r < 0 then ret (-1)
           else if r \<noteq> int (length (take MAXWRITE addr)) then panic ''short filewrite''
           else filewrite_loop f n (drop MAXWRITE addr))))))))))"
  by auto
termination
  by (relation "measure (\<lambda>(f, n, addr). length addr)") auto

declare filewrite_loop.simps [simp del]

definition filewrite :: "nat \<Rightarrow> byte list \<Rightarrow> int \<Rightarrow> ('z, int) filef" where
  "filewrite f addr n =
     bnd (the_file f) (\<lambda>x.
     if \<not> f_writable x then ret (-1)
     else if f_type x = FD_PIPE then
       (if n < 0 then thn (acquire (LK_pipe (f_pipe x))) (pipewrite_loop (f_pipe x) n [])
        else pipewrite (f_pipe x) addr)
     else if f_type x = FD_INODE then (if n < 0 then ret (-1) else filewrite_loop f n addr)
     else panic ''filewrite'')"

text \<open>\<open>pipealloc\<close> gives back what it has when one of the three allocations fails.\<close>

definition pipealloc :: "('z, (nat \<times> nat) option) filef" where
  "pipealloc =
     bnd filealloc (\<lambda>f0.
     case f0 of None \<Rightarrow> ret None
     | Some f0 \<Rightarrow>
       bnd filealloc (\<lambda>f1.
       case f1 of None \<Rightarrow> thn (fileclose f0) (ret None)
       | Some f1 \<Rightarrow>
         bnd kalloc (\<lambda>p.
         if p = 0 then thn (fileclose f0) (thn (fileclose f1) (ret None))
         else
           thn (upd_pipe p (\<lambda>q. q\<lparr>pi_readopen := True, pi_writeopen := True, pi_nwrite := 0, pi_nread := 0\<rparr>))
           (thn (upd_file f0 (\<lambda>x. x\<lparr>f_type := FD_PIPE, f_readable := True, f_writable := False, f_pipe := p\<rparr>))
           (thn (upd_file f1 (\<lambda>x. x\<lparr>f_type := FD_PIPE, f_readable := False, f_writable := True, f_pipe := p\<rparr>))
           (ret (Some (f0, f1))))))))"

section \<open>The buffer of a pipe\<close>

definition pipe_ok :: "pipe \<Rightarrow> bool" where
  "pipe_ok q \<longleftrightarrow> length (pi_data q) = 512 \<and> unat (pi_nwrite q - pi_nread q) \<le> 512"

definition pipe_bytes :: "pipe \<Rightarrow> byte list" where
  "pipe_bytes q = ring_contents 512 (pi_data q) (pi_nread q) (pi_nwrite q)"

lemma length_pipe_bytes: "length (pipe_bytes q) = unat (pi_nwrite q - pi_nread q)"
  by (simp add: pipe_bytes_def)

lemma pipe_full_iff: "pi_nwrite q = pi_nread q + 512 \<longleftrightarrow> length (pipe_bytes q) = 512"
proof -
  have "pi_nwrite q = pi_nread q + 512 \<longleftrightarrow> pi_nwrite q - pi_nread q = 512" by (auto simp: algebra_simps)
  also have "\<dots> \<longleftrightarrow> unat (pi_nwrite q - pi_nread q) = 512" by (simp add: word_unat_eq_iff)
  finally show ?thesis by (simp add: length_pipe_bytes)
qed

lemma pipe_empty_iff: "pi_nread q = pi_nwrite q \<longleftrightarrow> pipe_bytes q = []"
  by (simp add: pipe_bytes_def ring_empty_iff)

definition pipe_put :: "byte \<Rightarrow> pipe \<Rightarrow> pipe" where
  "pipe_put c q = q\<lparr>pi_data := (pi_data q)[ring_at PIPESIZE (pi_nwrite q) := c], pi_nwrite := pi_nwrite q + 1\<rparr>"

definition pipe_drop :: "pipe \<Rightarrow> pipe" where
  "pipe_drop q = q\<lparr>pi_nread := pi_nread q + 1\<rparr>"

lemma pipe_put:
  assumes "pipe_ok q" and "length (pipe_bytes q) < 512"
  shows "pipe_ok (pipe_put c q)" and "pipe_bytes (pipe_put c q) = pipe_bytes q @ [c]"
    and "pi_readopen (pipe_put c q) = pi_readopen q" and "pi_writeopen (pipe_put c q) = pi_writeopen q"
proof -
  show b: "pipe_bytes (pipe_put c q) = pipe_bytes q @ [c]"
    using ring512.push [of "pi_nwrite q" "pi_nread q" "pi_data q" c] assms
    by (simp add: pipe_bytes_def pipe_put_def pipe_ok_def)
  have "length (pipe_bytes (pipe_put c q)) \<le> 512" using assms(2) b by simp
  then show "pipe_ok (pipe_put c q)" using assms(1) by (simp add: pipe_ok_def length_pipe_bytes) (simp add: pipe_put_def)
qed (simp_all add: pipe_put_def)

lemma pipe_drop:
  assumes "pipe_ok q" and "pipe_bytes q = c # ds"
  shows "pipe_ok (pipe_drop q)" and "pipe_bytes (pipe_drop q) = ds" and "pi_data q ! ring_at 512 (pi_nread q) = c"
proof -
  have ne: "pi_nread q \<noteq> pi_nwrite q" using assms(2) by (simp add: pipe_empty_iff)
  from ring512.pop [OF ne, of "pi_data q"] assms(2)
  have "pi_data q ! ring_at 512 (pi_nread q) = c \<and> ring_contents 512 (pi_data q) (pi_nread q + 1) (pi_nwrite q) = ds"
    by (simp add: pipe_bytes_def)
  then show b: "pipe_bytes (pipe_drop q) = ds" and "pi_data q ! ring_at 512 (pi_nread q) = c"
    by (simp_all add: pipe_bytes_def pipe_drop_def)
  have "length (pipe_bytes (pipe_drop q)) \<le> 512" using b assms by (simp add: pipe_ok_def length_pipe_bytes [symmetric])
  then show "pipe_ok (pipe_drop q)" using assms(1) by (simp add: pipe_ok_def length_pipe_bytes) (simp add: pipe_drop_def)
qed

text \<open>Writing what fits, and reading.\<close>

lemma pipes_upd_twice: "s\<lparr>pipes := (pipes (s\<lparr>pipes := (pipes s)(p := x)\<rparr>))(p := q)\<rparr> = s\<lparr>pipes := (pipes s)(p := q)\<rparr>"
  by (cases s) auto

lemma pipes_upd_again: "s\<lparr>pipes := (pipes s)(p := x)\<rparr>\<lparr>pipes := f\<rparr> = s\<lparr>pipes := f\<rparr>"
  by simp

lemma pipewrite_fits:
  assumes "pipe_ok (pipes s p)" and "length (pipe_bytes (pipes s p)) + length addr \<le> 512"
  shows "\<exists>q. pipewrite_loop p n addr s =
      thn (wakeup (CH_nread p)) (thn (release (LK_pipe p)) (ret n)) (s\<lparr>pipes := (pipes s)(p := q)\<rparr>) \<and>
    pipe_ok q \<and> pipe_bytes q = pipe_bytes (pipes s p) @ addr \<and>
    pi_readopen q = pi_readopen (pipes s p) \<and> pi_writeopen q = pi_writeopen (pipes s p)"
  using assms
proof (induction addr arbitrary: s)
  case Nil
  then show ?case by (intro exI [of _ "pipes s p"]) (simp split: outcome.splits)
next
  case (Cons c addr)
  let ?s = "s\<lparr>pipes := (pipes s)(p := pipe_put c (pipes s p))\<rparr>"
  have room: "length (pipe_bytes (pipes s p)) < 512" using Cons.prems(2) by simp
  note put = pipe_put [OF Cons.prems(1) room, of c]
  have "pipe_ok (pipes ?s p)" "length (pipe_bytes (pipes ?s p)) + length addr \<le> 512" using put Cons.prems(2) by simp_all
  from Cons.IH [OF this] obtain q where q: "pipewrite_loop p n addr ?s =
      thn (wakeup (CH_nread p)) (thn (release (LK_pipe p)) (ret n)) (?s\<lparr>pipes := (pipes ?s)(p := q)\<rparr>)"
      "pipe_ok q" "pipe_bytes q = pipe_bytes (pipes ?s p) @ addr"
      "pi_readopen q = pi_readopen (pipes ?s p)" "pi_writeopen q = pi_writeopen (pipes ?s p)" by blast
  have "pipewrite_loop p n (c # addr) s = pipewrite_loop p n addr ?s"
    using room pipe_full_iff [of "pipes s p"] by (simp add: the_pipe_def upd_pipe_def pipe_put_def)
  then have "pipewrite_loop p n (c # addr) s =
      thn (wakeup (CH_nread p)) (thn (release (LK_pipe p)) (ret n)) (s\<lparr>pipes := (pipes s)(p := q)\<rparr>)"
    unfolding q(1) pipes_upd_again pipes_upd_twice .
  moreover have "pipe_bytes q = pipe_bytes (pipes s p) @ c # addr" using q(3) put(2) by simp
  moreover have "pi_readopen q = pi_readopen (pipes s p)" "pi_writeopen q = pi_writeopen (pipes s p)"
    using q(4,5) put(3,4) by simp_all
  ultimately show ?case using q(2) by blast
qed

lemma piperead_copy_Ok:
  assumes "pipe_ok (pipes s p)"
  shows "\<exists>q. piperead_copy p n s = Ok (take n (pipe_bytes (pipes s p))) (s\<lparr>pipes := (pipes s)(p := q)\<rparr>) \<and>
    pipe_ok q \<and> pipe_bytes q = drop n (pipe_bytes (pipes s p))"
  using assms
proof (induction n arbitrary: s)
  case 0
  then show ?case by (intro exI [of _ "pipes s p"]) simp
next
  case (Suc n)
  show ?case
  proof (cases "pipe_bytes (pipes s p)")
    case Nil
    then show ?thesis using Suc.prems pipe_empty_iff [of "pipes s p"]
      by (intro exI [of _ "pipes s p"]) (simp add: the_pipe_def)
  next
    case (Cons c ds)
    let ?s = "s\<lparr>pipes := (pipes s)(p := pipe_drop (pipes s p))\<rparr>"
    note d = pipe_drop [OF Suc.prems Cons]
    have "\<exists>q. piperead_copy p n ?s = Ok (take n ds) (s\<lparr>pipes := (pipes s)(p := q)\<rparr>) \<and> pipe_ok q \<and> pipe_bytes q = drop n ds"
      using Suc.IH [of ?s] d(1,2) unfolding pipes_upd_again pipes_upd_twice by simp
    then obtain q where q: "piperead_copy p n ?s = Ok (take n ds) (s\<lparr>pipes := (pipes s)(p := q)\<rparr>)"
      "pipe_ok q" "pipe_bytes q = drop n ds" by blast
    have "pi_nread (pipes s p) \<noteq> pi_nwrite (pipes s p)" using Cons by (simp add: pipe_empty_iff)
    then have "piperead_copy p (Suc n) s = Ok (c # take n ds) (s\<lparr>pipes := (pipes s)(p := q)\<rparr>)"
      using q(1) d(3) by (simp add: the_pipe_def upd_pipe_def pipe_drop_def)
    moreover have "c # take n ds = take (Suc n) (pipe_bytes (pipes s p))" "pipe_bytes q = drop (Suc n) (pipe_bytes (pipes s p))"
      using q(3) Cons by simp_all
    ultimately show ?thesis using q(2) by metis
  qed
qed

text \<open>Which processes a wakeup makes runnable.\<close>

definition woken :: "chan \<Rightarrow> proc list \<Rightarrow> proc list" where
  "woken ch = map (\<lambda>p. if p_state p = SLEEPING \<and> p_chan p = Some ch then p\<lparr>p_state := RUNNABLE\<rparr> else p)"

lemma wakeup_woken: "LK_ptable \<notin> set (held s) \<Longrightarrow> wakeup ch s = Ok () (s\<lparr>ptable := woken ch (ptable s)\<rparr>)"
  by (simp add: wakeup_Ok woken_def)

lemma pipewrite_Ok:
  assumes "held s = []" and "pipe_ok (pipes s p)" and "length (pipe_bytes (pipes s p)) + length addr \<le> 512"
  shows "\<exists>q. pipewrite p addr s = Ok (int (length addr)) (s\<lparr>ptable := woken (CH_nread p) (ptable s), pipes := (pipes s)(p := q)\<rparr>) \<and>
    pipe_ok q \<and> pipe_bytes q = pipe_bytes (pipes s p) @ addr \<and>
    pi_readopen q = pi_readopen (pipes s p) \<and> pi_writeopen q = pi_writeopen (pipes s p)"
proof -
  let ?s = "s\<lparr>held := [LK_pipe p]\<rparr>"
  obtain q where q: "pipewrite_loop p (int (length addr)) addr ?s = thn (wakeup (CH_nread p)) (thn (release (LK_pipe p)) (ret (int (length addr))))
        (?s\<lparr>pipes := (pipes s)(p := q)\<rparr>)" "pipe_ok q" "pipe_bytes q = pipe_bytes (pipes s p) @ addr"
      "pi_readopen q = pi_readopen (pipes s p)" "pi_writeopen q = pi_writeopen (pipes s p)"
    using pipewrite_fits [of ?s p addr "int (length addr)"] assms by auto
  have e: "s\<lparr>held := [], ptable := pt, pipes := ps\<rparr> = s\<lparr>ptable := pt, pipes := ps\<rparr>" for pt ps
    using assms(1) by (cases s) simp
  have "pipewrite p addr s = Ok (int (length addr)) (s\<lparr>ptable := woken (CH_nread p) (ptable s), pipes := (pipes s)(p := q)\<rparr>)"
    using assms(1) q(1) e by (simp add: pipewrite_def acquire_Ok wakeup_woken release_Ok)
  then show ?thesis using q by blast
qed

lemma piperead_Ok:
  assumes "held s = []" and "pipe_ok (pipes s p)" and "pipe_bytes (pipes s p) \<noteq> [] \<or> \<not> pi_writeopen (pipes s p)"
  shows "\<exists>q. piperead p (int n) s = Ok (int (length (take n (pipe_bytes (pipes s p)))), take n (pipe_bytes (pipes s p)))
      (s\<lparr>ptable := woken (CH_nwrite p) (ptable s), pipes := (pipes s)(p := q)\<rparr>) \<and>
    pipe_ok q \<and> pipe_bytes q = drop n (pipe_bytes (pipes s p))"
proof -
  let ?s = "s\<lparr>held := [LK_pipe p]\<rparr>"
  obtain q where q: "piperead_copy p n ?s = Ok (take n (pipe_bytes (pipes s p))) (?s\<lparr>pipes := (pipes s)(p := q)\<rparr>)"
      "pipe_ok q" "pipe_bytes q = drop n (pipe_bytes (pipes s p))"
    using piperead_copy_Ok [of ?s p n] assms(2) by auto
  have e: "s\<lparr>held := [], ptable := pt, pipes := ps\<rparr> = s\<lparr>ptable := pt, pipes := ps\<rparr>" for pt ps
    using assms(1) by (cases s) simp
  have "(pi_nread (pipes s p) = pi_nwrite (pipes s p) \<and> pi_writeopen (pipes s p)) = False" using assms(3) by (auto simp: pipe_empty_iff)
  then have "piperead p (int n) s = Ok (int (length (take n (pipe_bytes (pipes s p)))), take n (pipe_bytes (pipes s p)))
      (s\<lparr>ptable := woken (CH_nwrite p) (ptable s), pipes := (pipes s)(p := q)\<rparr>)"
    using assms(1) q(1) e by (simp add: piperead_def piperead_loop_def the_pipe_def acquire_Ok wakeup_woken release_Ok) auto
  then show ?thesis using q by blast
qed

section \<open>Properties of pipes\<close>

text \<open>Every pipe has a buffer of 512 bytes and at most that many bytes in it.\<close>

definition pipes_wf :: "'z files_scheme \<Rightarrow> bool" where
  "pipes_wf s \<longleftrightarrow> (\<forall>p. pipe_ok (pipes s p))"

named_theorems pipe_keeps \<open>operations that keep the pipes well-formed\<close>

lemma pipes_wf_acquire [pipe_keeps]: "keeps pipes_wf (acquire l)"
  by (simp add: keeps_def acquire_def pipes_wf_def)

lemma pipes_wf_release [pipe_keeps]: "keeps pipes_wf (release l)"
  by (simp add: keeps_def release_def pipes_wf_def)

lemma pipes_wf_myproc [pipe_keeps]: "keeps pipes_wf myproc"
  by (simp add: keeps_def myproc_def split: option.splits)

lemma pipes_wf_upd_proc [pipe_keeps]: "keeps pipes_wf (upd_proc i f)"
  by (simp add: keeps_def upd_proc_def pipes_wf_def)

lemma pipes_wf_sched [pipe_keeps]: "keeps pipes_wf sched"
  unfolding sched_def by (intro keeps_intros pipe_keeps keeps_modify) (simp add: pipes_wf_def)

lemma pipes_wf_sleep [pipe_keeps]: "keeps pipes_wf (sleep ch l)"
proof -
  have "keeps pipes_wf (\<lambda>s. Sleep ch s)" by (simp add: keeps_def)
  then show ?thesis unfolding sleep_def by (intro keeps_intros pipe_keeps)
qed

lemma pipes_wf_wakeup [pipe_keeps]: "keeps pipes_wf (wakeup ch)"
  unfolding wakeup_def wakeup1_def by (intro keeps_intros pipe_keeps keeps_modify) (simp add: pipes_wf_def)

lemma pipes_wf_curp [pipe_keeps]: "keeps pipes_wf curp"
  unfolding curp_def by (intro keeps_intros pipe_keeps)

lemma pipes_wf_kfree [pipe_keeps]: "keeps pipes_wf (kfree a)"
  unfolding kfree_def lock_kmem_def unlock_kmem_def
  by (intro keeps_intros pipe_keeps keeps_modify) (simp_all add: pipes_wf_def)

lemma pipes_wf_upd: "(\<And>q. pipe_ok q \<Longrightarrow> pipe_ok (g q)) \<Longrightarrow> keeps pipes_wf (upd_pipe p g)"
  by (simp add: keeps_def upd_pipe_def pipes_wf_def)

lemma pipes_wf_write: "keeps pipes_wf (pipewrite_loop p n addr)"
proof (induction addr)
  case Nil
  show ?case unfolding pipewrite_loop.simps by (intro keeps_intros pipe_keeps)
next
  case (Cons c addr)
  show ?case
    unfolding keeps_def
  proof (intro allI impI)
    fix s :: "'a files_scheme" assume wf: "pipes_wf s"
    then have ok: "pipe_ok (pipes s p)" by (simp add: pipes_wf_def)
    show "case pipewrite_loop p n (c # addr) s of Ok a t \<Rightarrow> pipes_wf t | Sleep c t \<Rightarrow> pipes_wf t | Panic e \<Rightarrow> True
        | Fault e \<Rightarrow> True | Diverge \<Rightarrow> True"
    proof (cases "pi_nwrite (pipes s p) = pi_nread (pipes s p) + 512")
      case True
      let ?w = "bnd (if \<not> pi_readopen (pipes s p) then ret True else bnd curp (\<lambda>pr. ret (p_killed pr))) (\<lambda>stop.
         if stop then thn (release (LK_pipe p)) (ret (-1 :: int))
         else thn (wakeup (CH_nread p)) (sleep (CH_nwrite p) (LK_pipe p)))"
      have k: "keeps pipes_wf ?w" by (intro keeps_intros pipe_keeps)
      have "pipewrite_loop p n (c # addr) s = ?w s" using True by (simp add: the_pipe_def)
      then show ?thesis using k [unfolded keeps_def, rule_format, OF wf] by (simp only:)
    next
      case False
      then have room: "length (pipe_bytes (pipes s p)) < 512"
        using ok pipe_full_iff [of "pipes s p"] by (simp add: pipe_ok_def length_pipe_bytes)
      let ?s = "s\<lparr>pipes := (pipes s)(p := pipe_put c (pipes s p))\<rparr>"
      have "pipes_wf ?s" using wf pipe_put(1) [OF ok room, of c] by (simp add: pipes_wf_def)
      moreover have "pipewrite_loop p n (c # addr) s = pipewrite_loop p n addr ?s"
        using False by (simp add: the_pipe_def upd_pipe_def pipe_put_def)
      ultimately show ?thesis using Cons.IH by (simp add: keeps_def del: pipewrite_loop.simps)
    qed
  qed
qed

lemma pipes_wf_copy: "keeps pipes_wf (piperead_copy p n)"
  unfolding keeps_def
proof (intro allI impI)
  fix s :: "'a files_scheme" assume wf: "pipes_wf s"
  then obtain q where "piperead_copy p n s = Ok (take n (pipe_bytes (pipes s p))) (s\<lparr>pipes := (pipes s)(p := q)\<rparr>)" "pipe_ok q"
    using piperead_copy_Ok [of s p n] by (auto simp: pipes_wf_def)
  then show "case piperead_copy p n s of Ok a t \<Rightarrow> pipes_wf t | Sleep c t \<Rightarrow> pipes_wf t | Panic e \<Rightarrow> True
        | Fault e \<Rightarrow> True | Diverge \<Rightarrow> True" using wf by (simp add: pipes_wf_def)
qed

text \<open>
  C25. The type of a pipe. Writing, reading and closing keep every pipe well-formed, whether the
  operation returns or goes to sleep: the buffer has 512 bytes and the counters, which wrap
  around at \<open>2 ^ 32\<close>, never run more than 512 apart.
\<close>

theorem pipe_operations_keep_type:
  "keeps pipes_wf (pipewrite p addr) \<and> keeps pipes_wf (piperead p n) \<and> keeps pipes_wf (pipeclose p w)"
proof (intro conjI)
  show "keeps pipes_wf (pipewrite p addr)"
    unfolding pipewrite_def by (intro keeps_intros pipe_keeps pipes_wf_write)
  show "keeps pipes_wf (piperead p n)"
    unfolding piperead_def piperead_loop_def the_pipe_def by (intro keeps_intros pipe_keeps pipes_wf_copy)
  show "keeps pipes_wf (pipeclose p w)"
    unfolding pipeclose_def the_pipe_def
    by (intro keeps_intros pipe_keeps pipes_wf_upd) (simp_all add: pipe_ok_def)
qed

text \<open>An initial file table, two processes of which the first runs, and empty pipes.\<close>

definition pipe0 :: pipe where
  "pipe0 = \<lparr>pi_data = replicate 512 0, pi_nread = 0xFFFFFFFE, pi_nwrite = 0xFFFFFFFE, pi_readopen = True, pi_writeopen = True\<rparr>"

definition file0 :: kfile where
  "file0 = \<lparr>f_type = FD_NONE, f_ref = 0, f_readable = False, f_writable = False, f_pipe = 0, f_ip = 0, f_off = 0\<rparr>"

definition mkproc :: "u32 \<Rightarrow> procstate \<Rightarrow> proc" where
  "mkproc pid st = proc0\<lparr>p_pid := pid, p_state := st\<rparr>"

definition files0 :: files where
  "files0 = conss.extend (cons0\<lparr>ptable := [mkproc 1 RUNNING, mkproc 2 RUNNABLE], curproc := Some 0\<rparr>)
     (files.fields (replicate 100 file0) (\<lambda>_. pipe0))"

lemma files0_simps [simp]: "held files0 = []" "pipes files0 p = pipe0" "ptable files0 = [mkproc 1 RUNNING, mkproc 2 RUNNABLE]"
  "curproc files0 = Some 0" "ftable files0 = replicate 100 file0"
  by (simp_all add: files0_def conss.defs files.defs)

lemma pipe0_simps [simp]: "pipe_ok pipe0" "pipe_bytes pipe0 = []" "pi_nread pipe0 = pi_nwrite pipe0" "pi_writeopen pipe0"
  by (simp_all add: pipe0_def pipe_ok_def pipe_bytes_def)

text \<open>
  C26. A pipe is a queue. What is written behind the bytes already in the pipe, when it fits, is
  accepted completely, and a read returns the oldest bytes, as many as it asks for and the pipe
  has, and leaves the rest in order; no other pipe changes. This also holds when the counters
  wrap around.
\<close>

theorem pipe_is_fifo:
  assumes "held s = []" and "pipe_ok (pipes s p)" and "data \<noteq> []" and "length (pipe_bytes (pipes s p)) + length data \<le> 512"
  shows "\<exists>t u. pipewrite p data s = Ok (int (length data)) t \<and>
    (let all = pipe_bytes (pipes s p) @ data in
     piperead p (int n) t = Ok (int (min n (length all)), take n all) u \<and>
     pipe_bytes (pipes u p) = drop n all \<and> pipe_ok (pipes u p)) \<and>
    (\<forall>r. r \<noteq> p \<longrightarrow> pipes u r = pipes s r)"
proof -
  obtain q where q: "pipewrite p data s = Ok (int (length data)) (s\<lparr>ptable := woken (CH_nread p) (ptable s), pipes := (pipes s)(p := q)\<rparr>)"
      "pipe_ok q" "pipe_bytes q = pipe_bytes (pipes s p) @ data"
    using pipewrite_Ok [OF assms(1,2,4)] by blast
  let ?t = "s\<lparr>ptable := woken (CH_nread p) (ptable s), pipes := (pipes s)(p := q)\<rparr>"
  have "held ?t = []" "pipe_ok (pipes ?t p)" "pipe_bytes (pipes ?t p) \<noteq> [] \<or> \<not> pi_writeopen (pipes ?t p)"
    using assms(1,3) q by simp_all
  from piperead_Ok [OF this, of n] obtain r where
    r: "piperead p (int n) ?t = Ok (int (length (take n (pipe_bytes q))), take n (pipe_bytes q))
        (?t\<lparr>ptable := woken (CH_nwrite p) (ptable ?t), pipes := (pipes ?t)(p := r)\<rparr>)" "pipe_ok r" "pipe_bytes r = drop n (pipe_bytes q)"
    by auto
  let ?u = "?t\<lparr>ptable := woken (CH_nwrite p) (ptable ?t), pipes := (pipes ?t)(p := r)\<rparr>"
  have u: "pipes ?u p = r" "\<forall>r'. r' \<noteq> p \<longrightarrow> pipes ?u r' = pipes s r'" by simp_all
  have "length (take n (pipe_bytes q)) = min n (length (pipe_bytes q))" by (simp add: min.commute)
  then have "piperead p (int n) ?t = Ok (int (min n (length (pipe_bytes q))), take n (pipe_bytes q)) ?u"
      "pipe_bytes (pipes ?u p) = drop n (pipe_bytes q)" "pipe_ok (pipes ?u p)"
    using r u(1) by simp_all
  then show ?thesis using q(1) u(2) unfolding Let_def q(3) [symmetric] by blast
qed

theorem pipe_is_fifo_witness:
  "\<exists>t u. pipewrite 8 [1, 2, 3] files0 = Ok 3 t \<and> piperead 8 2 t = Ok (2, [1, 2]) u \<and> pipe_bytes (pipes u 8) = [3]"
  using pipe_is_fifo [of files0 8 "[1, 2, 3]" 2] by auto

text \<open>
  C27. Readers are woken. A process that reads from an empty pipe with an open write end goes to
  sleep; when another process then writes some bytes, the reader becomes runnable, and the bytes
  are there for it.
\<close>

theorem blocked_reader_is_woken:
  assumes "held s = []" and "curproc s = Some i" and "i < length (ptable s)" and "\<not> p_killed (ptable s ! i)"
    and "pipe_ok (pipes s p)" and "pipe_bytes (pipes s p) = []" and "pi_writeopen (pipes s p)"
    and "data \<noteq> []" and "length data \<le> 512"
  shows "\<exists>t. piperead p n s = Sleep (CH_nread p) t \<and> p_state (ptable t ! i) = SLEEPING \<and>
    (\<exists>u. pipewrite p data (t\<lparr>held := [], curproc := c\<rparr>) = Ok (int (length data)) u \<and>
      p_state (ptable u ! i) = RUNNABLE \<and> pipe_bytes (pipes u p) = data)"
proof -
  let ?s = "s\<lparr>held := [LK_pipe p]\<rparr>"
  let ?p = "(ptable s ! i)\<lparr>p_chan := Some (CH_nread p), p_state := SLEEPING\<rparr>"
  let ?t = "?s\<lparr>held := [LK_ptable], curproc := None, ptable := (ptable s)[i := ?p]\<rparr>"
  have sl: "sleep (CH_nread p) (LK_pipe p) ?s = Sleep (CH_nread p) ?t" using sleep_Sleep [of ?s "LK_pipe p" i "CH_nread p"] assms by simp
  have run: "piperead p n s = Sleep (CH_nread p) ?t"
    using assms(1-4,6,7) sl by (simp add: piperead_def piperead_loop_def the_pipe_def acquire_Ok pipe_empty_iff curp_def myproc_def)
  let ?v = "?t\<lparr>held := [], curproc := c\<rparr>"
  have "held ?v = []" "pipe_ok (pipes ?v p)" "length (pipe_bytes (pipes ?v p)) + length data \<le> 512" using assms by simp_all
  from pipewrite_Ok [OF this] obtain q where q: "pipewrite p data ?v = Ok (int (length data))
      (?v\<lparr>ptable := woken (CH_nread p) (ptable ?v), pipes := (pipes ?v)(p := q)\<rparr>)" "pipe_bytes q = pipe_bytes (pipes ?v p) @ data"
    by blast
  have "p_state (woken (CH_nread p) (ptable ?v) ! i) = RUNNABLE" using assms(3) by (simp add: woken_def)
  then have "\<exists>u. pipewrite p data ?v = Ok (int (length data)) u \<and> p_state (ptable u ! i) = RUNNABLE \<and> pipe_bytes (pipes u p) = data"
    using q assms(6) by simp
  moreover have "p_state (ptable ?t ! i) = SLEEPING" using assms(3) by simp
  ultimately show ?thesis using run by blast
qed

theorem blocked_reader_is_woken_witness:
  "\<exists>t. piperead 8 100 files0 = Sleep (CH_nread 8) t \<and> p_state (ptable t ! 0) = SLEEPING \<and>
    (\<exists>u. pipewrite 8 [7, 9] (t\<lparr>held := [], curproc := Some 1\<rparr>) = Ok 2 u \<and>
      p_state (ptable u ! 0) = RUNNABLE \<and> pipe_bytes (pipes u 8) = [7, 9])"
  using blocked_reader_is_woken [of files0 0 8 "[7, 9]" 100 "Some 1"] by (simp add: mkproc_def proc0_def)

section \<open>Reference counts of files\<close>

interpretation file_slots: slot_table "\<lambda>f. f_ref f = 0" "\<lambda>f. f\<lparr>f_ref := 1\<rparr>"
  by unfold_locales simp

lemma filealloc_Ok:
  assumes "held s = []"
  shows "filealloc s = (case find_idx (\<lambda>f. f_ref f = 0) (ftable s) of
      None \<Rightarrow> Ok None s
    | Some f \<Rightarrow> Ok (Some f) (s\<lparr>ftable := (ftable s)[f := (ftable s ! f)\<lparr>f_ref := 1\<rparr>]\<rparr>))"
proof -
  have e: "s\<lparr>held := []\<rparr> = s" "s\<lparr>held := [], ftable := ft\<rparr> = s\<lparr>ftable := ft\<rparr>" for ft using assms by (cases s, simp)+
  show ?thesis
    using assms e by (cases "find_idx (\<lambda>f. f_ref f = 0) (ftable s)") (simp_all add: filealloc_def upd_file_def acquire_Ok release_Ok)
qed

lemma filealloc_takes_first:
  assumes "held s = []"
  shows "case filealloc s of
      Ok (Some f) t \<Rightarrow> f < length (ftable s) \<and> f_ref (ftable s ! f) = 0 \<and> (\<forall>g<f. f_ref (ftable s ! g) \<noteq> 0) \<and>
        Suc (card (file_slots.free_slots (ftable t))) = card (file_slots.free_slots (ftable s))
    | Ok None t \<Rightarrow> t = s \<and> file_slots.free_slots (ftable s) = {}
    | _ \<Rightarrow> False"
proof (cases "find_idx (\<lambda>f. f_ref f = 0) (ftable s)")
  case None
  then show ?thesis using assms file_slots.scan_fails_iff [of "ftable s"] by (simp add: filealloc_Ok)
next
  case (Some f)
  then show ?thesis using assms find_idx_SomeD [OF Some] file_slots.card_free_slots_take [OF Some] by (simp add: filealloc_Ok)
qed

lemma filedup_fileclose:
  assumes "held s = []" and "f < length (ftable s)" and "f_ref (ftable s ! f) \<ge> 1"
  shows "\<exists>t. filedup f s = Ok f t \<and> f_ref (ftable t ! f) = f_ref (ftable s ! f) + 1 \<and> fileclose f t = Ok () s"
proof -
  let ?t = "s\<lparr>ftable := (ftable s)[f := (ftable s ! f)\<lparr>f_ref := f_ref (ftable s ! f) + 1\<rparr>]\<rparr>"
  have e: "s\<lparr>held := []\<rparr> = s" "s\<lparr>held := [], ftable := ft\<rparr> = s\<lparr>ftable := ft\<rparr>" for ft using assms(1) by (cases s, simp)+
  have "filedup f s = Ok f ?t" using assms e by (simp add: filedup_def the_file_def upd_file_def acquire_Ok release_Ok)
  moreover have "(ftable s)[f := (ftable s ! f)\<lparr>f_ref := f_ref (ftable s ! f)\<rparr>] = ftable s" by simp
  then have "fileclose f ?t = Ok () s"
    using assms e by (simp add: fileclose_def the_file_def upd_file_def acquire_Ok release_Ok)
  ultimately show ?thesis using assms by simp
qed

text \<open>
  C28. Open files. A new file takes the first entry without references and leaves one free entry
  less; a duplicated reference that is closed again leaves the table as it was, without touching
  the pipe or inode behind it; and an entry without references can be neither duplicated nor
  closed.
\<close>

theorem file_references:
  assumes "held s = []"
  shows "(case filealloc s of
      Ok (Some f) t \<Rightarrow> f < length (ftable s) \<and> f_ref (ftable s ! f) = 0 \<and> (\<forall>g<f. f_ref (ftable s ! g) \<noteq> 0) \<and>
        Suc (card (file_slots.free_slots (ftable t))) = card (file_slots.free_slots (ftable s))
    | Ok None t \<Rightarrow> t = s \<and> file_slots.free_slots (ftable s) = {}
    | _ \<Rightarrow> False) \<and>
    (f < length (ftable s) \<and> f_ref (ftable s ! f) \<ge> 1 \<longrightarrow>
      (\<exists>t. filedup f s = Ok f t \<and> f_ref (ftable t ! f) = f_ref (ftable s ! f) + 1 \<and> fileclose f t = Ok () s)) \<and>
    (f_ref (ftable s ! f) < 1 \<longrightarrow> filedup f s = Panic ''filedup'' \<and> fileclose f s = Panic ''fileclose'')"
proof (intro conjI impI)
  show "case filealloc s of
      Ok (Some f) t \<Rightarrow> f < length (ftable s) \<and> f_ref (ftable s ! f) = 0 \<and> (\<forall>g<f. f_ref (ftable s ! g) \<noteq> 0) \<and>
        Suc (card (file_slots.free_slots (ftable t))) = card (file_slots.free_slots (ftable s))
    | Ok None t \<Rightarrow> t = s \<and> file_slots.free_slots (ftable s) = {}
    | _ \<Rightarrow> False"
    by (rule filealloc_takes_first [OF assms])
qed (use assms filedup_fileclose [of s f] in \<open>simp_all add: filedup_def fileclose_def the_file_def acquire_Ok\<close>)

theorem file_references_witness:
  "\<exists>t. filedup 1 (files0\<lparr>ftable := [file0, file0\<lparr>f_ref := 2\<rparr>]\<rparr>) = Ok 1 t \<and> f_ref (ftable t ! 1) = 3 \<and>
     fileclose 1 t = Ok () (files0\<lparr>ftable := [file0, file0\<lparr>f_ref := 2\<rparr>]\<rparr>)"
  using file_references [of "files0\<lparr>ftable := [file0, file0\<lparr>f_ref := 2\<rparr>]\<rparr>" 1]
  by simp

end
