(* ===== verification/Process.thy ===== *)
theory Process
  imports File_Pipe
begin

unbundle bit_operations_syntax

text \<open>
  The life of a process, \<^verbatim>\<open>proc.c\<close>: allocation, the first process, growing its memory, \<open>fork\<close>,
  \<open>exit\<close>, \<open>wait\<close> and the first return of a new process. The parts that work on the process
  table alone are those of \<^verbatim>\<open>Proc_Sched\<close>. \<open>forkret_addr\<close> stands for the address of the function
  \<open>forkret\<close>; the trap frame and the context, which the code places on the kernel stack, are
  fields of the process.
\<close>

record procs_state = files +
  forkret_addr :: u32
  forkret_first :: bool

type_synonym ('z, 'a) procf = "('z procs_state_scheme, 'a) kfun"

definition tf0 :: trapframe where
  "tf0 = \<lparr>tf_edi = 0, tf_esi = 0, tf_ebp = 0, tf_oesp = 0, tf_ebx = 0, tf_edx = 0, tf_ecx = 0, tf_eax = 0, tf_gs = 0,
     tf_fs = 0, tf_es = 0, tf_ds = 0, tf_trapno = 0, tf_err = 0, tf_eip = 0, tf_cs = 0, tf_eflags = 0, tf_esp = 0, tf_ss = 0\<rparr>"

definition the_proc :: "nat \<Rightarrow> ('z, proc) core" where
  "the_proc i = gets (\<lambda>s. ptable s ! i)"

section \<open>Creation\<close>

definition allocproc :: "('z, nat option) procf" where
  "allocproc =
     bnd alloc_slot (\<lambda>r. case r of None \<Rightarrow> ret None
     | Some i \<Rightarrow>
         bnd kalloc (\<lambda>k.
         thn (upd_proc i (\<lambda>p. p\<lparr>p_kstack := k\<rparr>))
         (if k = 0 then thn (drop_slot i) (ret None)
          else
            bnd (gets forkret_addr) (\<lambda>a.
            thn (upd_proc i (\<lambda>p. p\<lparr>p_context := \<lparr>cx_edi = 0, cx_esi = 0, cx_ebx = 0, cx_ebp = 0, cx_eip = a\<rparr>\<rparr>))
            (ret (Some i))))))"

text \<open>\<open>safestrcpy\<close> into the 16 characters of \<open>name\<close>.\<close>

definition set_name :: "nat \<Rightarrow> byte list \<Rightarrow> ('z, unit) core" where
  "set_name i name = upd_proc i (\<lambda>p. p\<lparr>p_name := take 15 (takeWhile (\<lambda>c. c \<noteq> 0) name)\<rparr>)"

definition userinit :: "byte list \<Rightarrow> ('z, unit) procf" where
  "userinit initcode =
     bnd allocproc (\<lambda>r.
     thn (modify (\<lambda>s. s\<lparr>initproc := r\<rparr>))
     (case r of None \<Rightarrow> fault ''userinit''
      | Some i \<Rightarrow>
          bnd setupkvm (\<lambda>pgdir.
          thn (upd_proc i (\<lambda>p. p\<lparr>p_pgdir := pgdir\<rparr>))
          (if pgdir = 0 then panic ''userinit: out of memory?''
           else
             thn (inituvm pgdir initcode)
             (thn (upd_proc i (\<lambda>p. p\<lparr>p_sz := PGSIZE,
                p_tf := tf0\<lparr>tf_cs := 35, tf_ds := 43, tf_es := 43, tf_ss := 43, tf_eflags := 0x200, tf_esp := PGSIZE\<rparr>\<rparr>))
             (thn (set_name i (chars ''initcode''))
             (bnd (namei [47]) (\<lambda>cwd.
              thn (upd_proc i (\<lambda>p. p\<lparr>p_cwd := cwd\<rparr>))
              (upd_proc i (\<lambda>p. p\<lparr>p_state := RUNNABLE\<rparr>))))))))))"

definition growproc :: "int \<Rightarrow> ('z, int) procf" where
  "growproc n =
     bnd myproc (\<lambda>me.
     bnd (the_proc me) (\<lambda>p.
     bnd (if n > 0 then allocuvm (p_pgdir p) (p_sz p) (p_sz p + word_of_int n)
          else if n < 0 then deallocuvm (p_pgdir p) (p_sz p) (p_sz p + word_of_int n)
          else ret (p_sz p)) (\<lambda>sz.
     if n \<noteq> 0 \<and> sz = 0 then ret (-1)
     else
       thn (upd_proc me (\<lambda>p. p\<lparr>p_sz := sz\<rparr>))
       (thn (switchuvm me)
       (ret 0)))))"

text \<open>The open files of a process: \<open>fork\<close> duplicates them, \<open>exit\<close> closes them.\<close>

definition dup_fd :: "nat \<Rightarrow> nat \<Rightarrow> nat \<Rightarrow> ('z, unit) procf" where
  "dup_fd me np fd =
     bnd (the_proc me) (\<lambda>p.
     case p_ofile p ! fd of None \<Rightarrow> ret ()
     | Some f \<Rightarrow> bnd (filedup f) (\<lambda>f. upd_proc np (\<lambda>p. p\<lparr>p_ofile := (p_ofile p)[fd := Some f]\<rparr>)))"

definition fork :: "('z, int) procf" where
  "fork =
     bnd allocproc (\<lambda>r. case r of None \<Rightarrow> ret (-1)
     | Some np \<Rightarrow>
         bnd myproc (\<lambda>me.
         bnd (the_proc me) (\<lambda>p.
         bnd (copyuvm (p_pgdir p) (p_sz p)) (\<lambda>pgdir.
         thn (upd_proc np (\<lambda>q. q\<lparr>p_pgdir := pgdir\<rparr>))
         (if pgdir = 0 then
            bnd (the_proc np) (\<lambda>q.
            thn (kfree (p_kstack q))
            (thn (upd_proc np (\<lambda>q. q\<lparr>p_kstack := 0\<rparr>))
            (thn (drop_slot np) (ret (-1)))))
          else
            thn (upd_proc np (\<lambda>q. q\<lparr>p_sz := p_sz p, p_parent := Some me, p_tf := (p_tf p)\<lparr>tf_eax := 0\<rparr>\<rparr>))
            (thn (for_each [0..<16] (dup_fd me np))
            (bnd (case p_cwd p of None \<Rightarrow> fault ''idup'' | Some d \<Rightarrow> idup d) (\<lambda>cwd.
             thn (upd_proc np (\<lambda>q. q\<lparr>p_cwd := Some cwd\<rparr>))
             (thn (set_name np (p_name p))
             (bnd (the_proc np) (\<lambda>q.
              thn (ready_slot np)
              (ret (sint (p_pid q))))))))))))))"

section \<open>End\<close>

definition close_fd :: "nat \<Rightarrow> nat \<Rightarrow> ('z, unit) procf" where
  "close_fd me fd =
     bnd (the_proc me) (\<lambda>p.
     case p_ofile p ! fd of None \<Rightarrow> ret ()
     | Some f \<Rightarrow> thn (fileclose f) (upd_proc me (\<lambda>p. p\<lparr>p_ofile := (p_ofile p)[fd := None]\<rparr>)))"

text \<open>\<open>exit\<close> up to the switch to the scheduler, which does not come back.\<close>

definition exit :: "('z, unit) procf" where
  "exit =
     bnd (gets (\<lambda>s. curproc s = initproc s)) (\<lambda>b.
     if b then panic ''init exiting''
     else
       bnd myproc (\<lambda>me.
       thn (for_each [0..<16] (close_fd me))
       (thn begin_op
       (bnd (the_proc me) (\<lambda>p.
        thn (case p_cwd p of None \<Rightarrow> fault ''iput'' | Some d \<Rightarrow> iput d)
        (thn end_op
        (thn (upd_proc me (\<lambda>p. p\<lparr>p_cwd := None\<rparr>))
        exit_slot)))))))"

text \<open>
  The scan of \<open>wait\<close> for a zombie among the children: the slot it finds, and whether there are
  children. \<open>wait_loop\<close> is where \<open>wait\<close> continues after a wakeup.
\<close>

definition zombie_child :: "nat \<Rightarrow> proc list \<Rightarrow> nat option" where
  "zombie_child me ps = find_idx (\<lambda>p. p_parent p = Some me \<and> p_state p = ZOMBIE) ps"

definition wait_loop :: "nat \<Rightarrow> ('z, int) procf" where
  "wait_loop me =
     bnd (gets ptable) (\<lambda>ps.
     case zombie_child me ps of
       Some j \<Rightarrow>
         bnd (the_proc j) (\<lambda>p.
         thn (kfree (p_kstack p))
         (thn (upd_proc j (\<lambda>p. p\<lparr>p_kstack := 0\<rparr>))
         (thn (freevm (p_pgdir p))
         (thn (reap_slot j)
         (thn (release LK_ptable)
         (ret (sint (p_pid p))))))))
     | None \<Rightarrow>
         bnd (the_proc me) (\<lambda>p.
         if \<not> (\<exists>q \<in> set ps. p_parent q = Some me) \<or> p_killed p then thn (release LK_ptable) (ret (-1))
         else sleep (CH_proc me) LK_ptable))"

definition wait :: "('z, int) procf" where
  "wait = thn (acquire LK_ptable) (bnd myproc wait_loop)"

text \<open>A new process starts here, with the lock of the process table from the scheduler.\<close>

definition forkret :: "('z, unit) procf" where
  "forkret =
     thn (release LK_ptable)
     (bnd (gets forkret_first) (\<lambda>b. whenk b
       (thn (modify (\<lambda>s. s\<lparr>forkret_first := False\<rparr>)) initlog)))"

section \<open>Waiting for a child\<close>

text \<open>What the loop of \<open>exit\<close> over the children of \<open>i\<close> leaves alone.\<close>

definition parents_kept :: "nat \<Rightarrow> proc list \<Rightarrow> proc list \<Rightarrow> bool" where
  "parents_kept i ps qs \<longleftrightarrow> length qs = length ps \<and>
     (\<forall>j<length ps. (p_state (ps ! j) = RUNNABLE \<longrightarrow> p_state (qs ! j) = RUNNABLE) \<and>
        (p_parent (ps ! j) \<noteq> Some i \<longrightarrow> p_parent (qs ! j) = p_parent (ps ! j)))"

lemma parents_kept_trans: "parents_kept i ps qs \<Longrightarrow> parents_kept i qs rs \<Longrightarrow> parents_kept i ps rs"
  by (simp add: parents_kept_def)

lemma parents_kept_wake:
  "parents_kept i ps (map (\<lambda>p. if p_state p = SLEEPING \<and> p_chan p = ch then p\<lparr>p_state := RUNNABLE\<rparr> else p) ps)"
  by (simp add: parents_kept_def)

lemma parents_kept_parent: "p_parent (ps ! j) = Some i \<Longrightarrow> parents_kept i ps (ps[j := (ps ! j)\<lparr>p_parent := q\<rparr>])"
  by (cases "j < length ps") (auto simp: parents_kept_def nth_list_update)

lemma reparent_keeps: "\<exists>qs. reparent i j s = Ok () (s\<lparr>ptable := qs\<rparr>) \<and> parents_kept i (ptable s) qs"
proof (cases "p_parent (ptable s ! j) = Some i")
  case True
  let ?u = "(ptable s)[j := (ptable s ! j)\<lparr>p_parent := initproc s\<rparr>]"
  let ?w = "map (\<lambda>p. if p_state p = SLEEPING \<and> p_chan p = map_option CH_proc (initproc s) then p\<lparr>p_state := RUNNABLE\<rparr> else p) ?u"
  have run: "reparent i j s = Ok () (s\<lparr>ptable := if p_state (ptable s ! j) = ZOMBIE then ?w else ?u\<rparr>)"
    using True by (simp add: reparent_def upd_proc_def wakeup1_def)
  have "parents_kept i (ptable s) ?u" by (rule parents_kept_parent [OF True])
  moreover from this have "parents_kept i (ptable s) ?w" by (rule parents_kept_trans [OF _ parents_kept_wake])
  ultimately have "parents_kept i (ptable s) (if p_state (ptable s ! j) = ZOMBIE then ?w else ?u)" by (cases "p_state (ptable s ! j) = ZOMBIE") simp_all
  with run show ?thesis by blast
next
  case False
  have "reparent i j s = Ok () (s\<lparr>ptable := ptable s\<rparr>)" using False by (simp add: reparent_def)
  moreover have "parents_kept i (ptable s) (ptable s)" by (simp add: parents_kept_def)
  ultimately show ?thesis by blast
qed

lemma reparent_all_keeps: "\<exists>qs. for_each js (reparent i) s = Ok () (s\<lparr>ptable := qs\<rparr>) \<and> parents_kept i (ptable s) qs"
proof (induction js arbitrary: s)
  case Nil
  have "for_each [] (reparent i) s = Ok () (s\<lparr>ptable := ptable s\<rparr>)" by simp
  moreover have "parents_kept i (ptable s) (ptable s)" by (simp add: parents_kept_def)
  ultimately show ?case by blast
next
  case (Cons j js)
  obtain qs where q: "reparent i j s = Ok () (s\<lparr>ptable := qs\<rparr>)" "parents_kept i (ptable s) qs" using reparent_keeps by blast
  obtain rs where r: "for_each js (reparent i) (s\<lparr>ptable := qs\<rparr>) = Ok () (s\<lparr>ptable := qs, ptable := rs\<rparr>)"
      "parents_kept i qs rs" using Cons.IH [of "s\<lparr>ptable := qs\<rparr>"] by auto
  have "for_each (j # js) (reparent i) s = Ok () (s\<lparr>ptable := rs\<rparr>)" using q(1) r(1) by simp
  then show ?case using parents_kept_trans [OF q(2) r(2)] by blast
qed

lemma exit_slot_wakes:
  assumes "held s = []" and "curproc s = Some c" and "c < length (ptable s)" and "m < length (ptable s)" and "c \<noteq> m"
    and "p_parent (ptable s ! c) = Some m" and "p_state (ptable s ! m) = SLEEPING" and "p_chan (ptable s ! m) = Some (CH_proc m)"
  shows "\<exists>u. exit_slot s = Ok () u \<and> length (ptable u) = length (ptable s) \<and> p_state (ptable u ! m) = RUNNABLE \<and>
    p_state (ptable u ! c) = ZOMBIE \<and> p_parent (ptable u ! c) = Some m"
proof -
  let ?w = "map (\<lambda>p. if p_state p = SLEEPING \<and> p_chan p = Some (CH_proc m) then p\<lparr>p_state := RUNNABLE\<rparr> else p) (ptable s)"
  let ?s = "s\<lparr>held := [LK_ptable], ptable := ?w\<rparr>"
  obtain qs where q: "for_each [0..<length (ptable s)] (reparent c) ?s = Ok () (?s\<lparr>ptable := qs\<rparr>)" "parents_kept c ?w qs"
    using reparent_all_keeps [where s = ?s and js = "[0..<length (ptable s)]" and i = c] by auto
  have l: "length qs = length (ptable s)" using q(2) by (simp add: parents_kept_def)
  have "exit_slot s = Ok () (s\<lparr>held := [LK_ptable], curproc := None, ptable := qs[c := (qs ! c)\<lparr>p_state := ZOMBIE\<rparr>]\<rparr>)"
    using assms q(1) l by (simp add: exit_slot_def wakeup1_def proc_ops)
  moreover have "p_state (qs ! m) = RUNNABLE" "p_parent (qs ! c) = Some m"
    using q(2) assms by (auto simp: parents_kept_def)
  ultimately show ?thesis using assms l by simp
qed

lemma begin_op_Ok:
  assumes "held s = []" and "\<not> l_committing s" and "lh_n s + (l_outstanding s + 1) * 10 \<le> 30"
  shows "begin_op s = Ok () (s\<lparr>l_outstanding := l_outstanding s + 1\<rparr>)"
proof -
  have "s\<lparr>held := [], l_outstanding := a\<rparr> = s\<lparr>l_outstanding := a\<rparr>" for a using assms(1) by (cases s) simp
  then show ?thesis using assms by (simp add: begin_op_def begin_op_loop_def acquire_Ok release_Ok)
qed

lemma end_op_idle:
  assumes "held s = []" and "\<not> l_committing s" and "lh_n s = 0"
  shows "end_op s = Ok () (s\<lparr>l_outstanding := l_outstanding s - 1, ptable := woken CH_log (ptable s)\<rparr>)"
proof -
  have "s\<lparr>held := [], l_outstanding := a, ptable := b\<rparr> = s\<lparr>l_outstanding := a, ptable := b\<rparr>"
    "s\<lparr>held := [], l_outstanding := a, ptable := b, l_committing := False\<rparr> = s\<lparr>l_outstanding := a, ptable := b\<rparr>"
    for a b using assms(1,2) by (cases s; simp)+
  then show ?thesis using assms by (simp add: end_op_def Let_def acquire_Ok release_Ok wakeup_woken commit_def)
qed

lemma iput_drop:
  assumes "held s = []" and "\<not> (i_ref (icache s ! ip) = 1 \<and> i_valid (icache s ! ip) \<and> i_nlink (icache s ! ip) = 0)"
  shows "iput ip s = Ok () (s\<lparr>icache := (icache s)[ip := (icache s ! ip)\<lparr>i_ref := i_ref (icache s ! ip) - 1\<rparr>]\<rparr>)"
proof -
  have "s\<lparr>held := [], icache := a\<rparr> = s\<lparr>icache := a\<rparr>" for a using assms(1) by (cases s) simp
  then show ?thesis using assms by (simp add: iput_def the_inode_def upd_inode_def acquire_Ok release_Ok) blast
qed

lemma close_fds_none:
  assumes "\<forall>fd \<in> set fds. p_ofile (ptable s ! me) ! fd = None"
  shows "for_each fds (close_fd me) s = Ok () s"
  using assms by (induction fds) (simp_all add: close_fd_def the_proc_def)

lemma exit_wakes:
  assumes "held s = []" and "curproc s = Some c" and "curproc s \<noteq> initproc s" and "c < length (ptable s)" and "m < length (ptable s)" and "c \<noteq> m"
    and "p_parent (ptable s ! c) = Some m" and "p_state (ptable s ! m) = SLEEPING" and "p_chan (ptable s ! m) = Some (CH_proc m)"
    and "\<forall>fd<16. p_ofile (ptable s ! c) ! fd = None" and "p_cwd (ptable s ! c) = Some d"
    and "\<not> (i_ref (icache s ! d) = 1 \<and> i_valid (icache s ! d) \<and> i_nlink (icache s ! d) = 0)"
    and "\<not> l_committing s" and "lh_n s = 0" and "(l_outstanding s + 1) * 10 \<le> 30"
  shows "\<exists>u. exit s = Ok () u \<and> length (ptable u) = length (ptable s) \<and> p_state (ptable u ! m) = RUNNABLE \<and>
    p_state (ptable u ! c) = ZOMBIE \<and> p_parent (ptable u ! c) = Some m"
proof -
  let ?b = "s\<lparr>l_outstanding := l_outstanding s + 1\<rparr>"
  let ?ic = "(icache s)[d := (icache s ! d)\<lparr>i_ref := i_ref (icache s ! d) - 1\<rparr>]"
  let ?i = "?b\<lparr>icache := ?ic\<rparr>"
  let ?e = "?i\<lparr>l_outstanding := l_outstanding s, ptable := woken CH_log (ptable s)\<rparr>"
  let ?ps = "(woken CH_log (ptable s))[c := (woken CH_log (ptable s) ! c)\<lparr>p_cwd := None\<rparr>]"
  have f: "for_each [0..<16] (close_fd c) s = Ok () s" using assms(10) by (intro close_fds_none) simp
  have b: "begin_op s = Ok () ?b" using assms by (intro begin_op_Ok) simp_all
  have i: "iput d ?b = Ok () ?i" using iput_drop [of ?b d] assms(1,12) by simp
  have e: "end_op ?i = Ok () ?e" using end_op_idle [of ?i] assms(1,13,14) by simp
  have run: "exit s = exit_slot (?e\<lparr>ptable := ?ps\<rparr>)"
    using assms(2-4,11) f b i e by (simp add: exit_def myproc_def the_proc_def upd_proc_def)
  have w: "p_parent (woken CH_log (ptable s) ! c) = p_parent (ptable s ! c)" "woken CH_log (ptable s) ! m = ptable s ! m"
    "length (woken CH_log (ptable s)) = length (ptable s)"
    using assms(4,5,9) by (simp_all add: woken_def)
  have "\<exists>u. exit_slot (?e\<lparr>ptable := ?ps\<rparr>) = Ok () u \<and> length (ptable u) = length (ptable (?e\<lparr>ptable := ?ps\<rparr>)) \<and>
      p_state (ptable u ! m) = RUNNABLE \<and> p_state (ptable u ! c) = ZOMBIE \<and> p_parent (ptable u ! c) = Some m"
    by (rule exit_slot_wakes) (use assms w in simp_all)
  then show ?thesis unfolding run using w(3) by simp
qed

text \<open>
  C34. A parent that waits is woken. A process that waits while it has a child and none of its
  children has exited goes to sleep; when the child, which has no open files, then exits while
  the log has room and nothing to commit, the parent becomes runnable, and where it continues it
  finds a zombie among its children.
\<close>

theorem exit_wakes_waiting_parent:
  assumes "held s = []" and "curproc s = Some m" and "m < length (ptable s)" and "\<not> p_killed (ptable s ! m)"
    and "zombie_child m (ptable s) = None" and "c < length (ptable s)" and "c \<noteq> m" and "p_parent (ptable s ! c) = Some m"
    and "initproc s \<noteq> Some c" and "\<forall>fd<16. p_ofile (ptable s ! c) ! fd = None" and "p_cwd (ptable s ! c) = Some d"
    and "\<not> (i_ref (icache s ! d) = 1 \<and> i_valid (icache s ! d) \<and> i_nlink (icache s ! d) = 0)"
    and "\<not> l_committing s" and "lh_n s = 0" and "(l_outstanding s + 1) * 10 \<le> 30"
  shows "\<exists>t. wait s = Sleep (CH_proc m) t \<and> p_state (ptable t ! m) = SLEEPING \<and>
    (\<exists>u. exit (t\<lparr>held := [], curproc := Some c\<rparr>) = Ok () u \<and> p_state (ptable u ! m) = RUNNABLE \<and>
      p_state (ptable u ! c) = ZOMBIE \<and> zombie_child m (ptable u) \<noteq> None)"
proof -
  let ?p = "(ptable s ! m)\<lparr>p_chan := Some (CH_proc m), p_state := SLEEPING\<rparr>"
  let ?t = "s\<lparr>held := [LK_ptable], curproc := None, ptable := (ptable s)[m := ?p]\<rparr>"
  have "\<exists>q\<in>set (ptable s). p_parent q = Some m" using assms(6,8) nth_mem by blast
  then have w: "wait s = Sleep (CH_proc m) ?t"
    using assms(1-5) by (simp add: wait_def wait_loop_def the_proc_def acquire_Ok myproc_def sleep_def sched_def upd_proc_def)
  let ?s = "?t\<lparr>held := [], curproc := Some c\<rparr>"
  have "\<exists>u. exit ?s = Ok () u \<and> length (ptable u) = length (ptable ?s) \<and> p_state (ptable u ! m) = RUNNABLE \<and>
      p_state (ptable u ! c) = ZOMBIE \<and> p_parent (ptable u ! c) = Some m"
    by (rule exit_wakes [where d = d]) (use assms in simp_all)
  then obtain u where u: "exit ?s = Ok () u" "length (ptable u) = length (ptable s)"
      "p_state (ptable u ! m) = RUNNABLE" "p_state (ptable u ! c) = ZOMBIE" "p_parent (ptable u ! c) = Some m" by auto
  have "ptable u ! c \<in> set (ptable u)" using u(2) assms(6) by simp
  then have "zombie_child m (ptable u) \<noteq> None"
    using u(4,5) unfolding zombie_child_def find_idx_None by blast
  then show ?thesis using w u assms(3) by auto
qed

definition procs_state0 :: procs_state where
  "procs_state0 = files.extend files0 (procs_state.fields 0 True)"

lemma procs_state0_simps [simp]: "held procs_state0 = []" "curproc procs_state0 = Some 0"
proof -
  have "held procs_state0 = held files0" "curproc procs_state0 = curproc files0"
    by (simp_all add: procs_state0_def files.defs procs_state.defs)
  then show "held procs_state0 = []" "curproc procs_state0 = Some 0" by simp_all
qed

lemma procs_state0_log: "l_committing procs_state0 = False" "lh_n procs_state0 = 0" "l_outstanding procs_state0 = 1"
proof -
  have "l_committing procs_state0 = l_committing log0" "lh_n procs_state0 = lh_n log0" "l_outstanding procs_state0 = l_outstanding log0"
    by (simp_all add: procs_state0_def files0_def cons0_def mach0_def fs0_def files.defs procs_state.defs conss.defs machs.defs inodes.defs logs.defs)
  then show "l_committing procs_state0 = False" "lh_n procs_state0 = 0" "l_outstanding procs_state0 = 1" by (simp_all add: log0_simps)
qed

theorem exit_wakes_waiting_parent_witness:
  "\<exists>t. wait (procs_state0\<lparr>ptable := [mkproc 1 RUNNING, (mkproc 2 RUNNABLE)\<lparr>p_parent := Some 0, p_cwd := Some 0, p_ofile := replicate 16 None\<rparr>],
       initproc := Some 0, icache := [inode0\<lparr>i_ref := 2\<rparr>]\<rparr>) = Sleep (CH_proc 0) t \<and>
    (\<exists>u. exit (t\<lparr>held := [], curproc := Some 1\<rparr>) = Ok () u \<and> p_state (ptable u ! 0) = RUNNABLE)"
  using exit_wakes_waiting_parent [of "procs_state0\<lparr>ptable := [mkproc 1 RUNNING,
      (mkproc 2 RUNNABLE)\<lparr>p_parent := Some 0, p_cwd := Some 0, p_ofile := replicate 16 None\<rparr>],
      initproc := Some 0, icache := [inode0\<lparr>i_ref := 2\<rparr>]\<rparr>" 0 1 0]
  by (auto simp: zombie_child_def mkproc_def proc0_def procs_state0_log)

end
