(* ===== verification/Syscall.thy ===== *)
theory Syscall
  imports Process
begin

unbundle bit_operations_syntax

text \<open>
  Arguments of system calls (\<^verbatim>\<open>syscall.c\<close>) and the calls of \<^verbatim>\<open>sysproc.c\<close>. The kernel follows
  pointers of the user program through the page table of the current process; an address
  without a page is a fault.
\<close>

section \<open>User memory\<close>

definition user_at :: "u32 \<Rightarrow> ('z, u32) vmf" where
  "user_at va =
     bnd curp (\<lambda>p.
     bnd (gets (\<lambda>s. translate (mem s) (p_pgdir p) va)) (\<lambda>e.
     case e of None \<Rightarrow> fault ''page fault'' | Some e \<Rightarrow> ret (p2v (PTE_ADDR e) + (va - PGROUNDDOWN va))))"

definition user_byte :: "u32 \<Rightarrow> ('z, byte) vmf" where
  "user_byte va = bnd (user_at va) (\<lambda>a. gets (\<lambda>s. mem s a))"

primrec user_load :: "u32 \<Rightarrow> nat \<Rightarrow> ('z, byte list) vmf" where
  "user_load va 0 = ret []"
| "user_load va (Suc n) = bnd (user_byte va) (\<lambda>c. bnd (user_load (va + 1) n) (\<lambda>r. ret (c # r)))"

primrec user_store :: "u32 \<Rightarrow> byte list \<Rightarrow> ('z, unit) vmf" where
  "user_store va [] = ret ()"
| "user_store va (c # r) =
     bnd (user_at va) (\<lambda>a. thn (modify (\<lambda>s. s\<lparr>mem := (mem s)(a := c)\<rparr>)) (user_store (va + 1) r))"

section \<open>Arguments\<close>

definition fetchint :: "u32 \<Rightarrow> ('z, u32 option) vmf" where
  "fetchint addr =
     bnd curp (\<lambda>p.
     if addr \<ge> p_sz p \<or> addr + 4 > p_sz p then ret None
     else bnd (user_load addr 4) (\<lambda>b. ret (Some (word32 b))))"

text \<open>The scan of \<open>fetchstr\<close> for the NUL, over at most \<open>n\<close> bytes; the string is its result.\<close>

primrec scan_nul :: "nat \<Rightarrow> u32 \<Rightarrow> ('z, byte list option) vmf" where
  "scan_nul 0 a = ret None"
| "scan_nul (Suc n) a =
     bnd (user_byte a) (\<lambda>c.
     if c = 0 then ret (Some [])
     else bnd (scan_nul n (a + 1)) (\<lambda>r. ret (map_option (\<lambda>t. c # t) r)))"

definition fetchstr :: "u32 \<Rightarrow> ('z, byte list option) vmf" where
  "fetchstr addr =
     bnd curp (\<lambda>p.
     if addr \<ge> p_sz p then ret None
     else scan_nul (unat (p_sz p - addr)) addr)"

definition argint :: "u32 \<Rightarrow> ('z, u32 option) vmf" where
  "argint n = bnd curp (\<lambda>p. fetchint (tf_esp (p_tf p) + 4 + 4 * n))"

definition argptr :: "u32 \<Rightarrow> int \<Rightarrow> ('z, u32 option) vmf" where
  "argptr n sz =
     bnd (argint n) (\<lambda>r. case r of None \<Rightarrow> ret None
     | Some i \<Rightarrow>
         bnd curp (\<lambda>p.
         if i \<ge> p_sz p \<or> i + word_of_int sz > p_sz p then ret None else ret (Some i)))"

definition argstr :: "u32 \<Rightarrow> ('z, byte list option) vmf" where
  "argstr n = bnd (argint n) (\<lambda>r. case r of None \<Rightarrow> ret None | Some addr \<Rightarrow> fetchstr addr)"

text \<open>A system call that gives up when an argument cannot be fetched.\<close>

definition with_arg :: "('s, 'a option) kfun \<Rightarrow> ('s, 'b) kfun \<Rightarrow> ('a \<Rightarrow> ('s, 'b) kfun) \<Rightarrow> ('s, 'b) kfun" where
  "with_arg get bad k = bnd get (\<lambda>r. case r of None \<Rightarrow> bad | Some a \<Rightarrow> k a)"

section \<open>Processes\<close>

definition sys_fork :: "('z, int) procf" where
  "sys_fork = fork"

definition sys_exit :: "('z, int) procf" where
  "sys_exit = thn exit (ret 0)"

definition sys_wait :: "('z, int) procf" where
  "sys_wait = wait"

definition sys_kill :: "('z, int) procf" where
  "sys_kill = with_arg (argint 0) (ret (-1)) kill"

definition sys_getpid :: "('z, int) procf" where
  "sys_getpid = bnd curp (\<lambda>p. ret (sint (p_pid p)))"

definition sys_sbrk :: "('z, int) procf" where
  "sys_sbrk = with_arg (argint 0) (ret (-1)) (\<lambda>n.
     bnd curp (\<lambda>p.
     bnd (growproc (sint n)) (\<lambda>r.
     if r < 0 then ret (-1) else ret (sint (p_sz p)))))"

text \<open>The loop of \<open>sys_sleep\<close>, where it continues after a tick. The comparison is unsigned.\<close>

definition sys_sleep_loop :: "u32 \<Rightarrow> u32 \<Rightarrow> ('z, int) procf" where
  "sys_sleep_loop ticks0 n =
     bnd (gets ticks) (\<lambda>now.
     if now - ticks0 < n then
       bnd curp (\<lambda>p.
       if p_killed p then thn (release LK_ticks) (ret (-1))
       else sleep CH_ticks LK_ticks)
     else thn (release LK_ticks) (ret 0))"

definition sys_sleep :: "('z, int) procf" where
  "sys_sleep = with_arg (argint 0) (ret (-1)) (\<lambda>n.
     thn (acquire LK_ticks)
     (bnd (gets ticks) (\<lambda>ticks0. sys_sleep_loop ticks0 n)))"

definition sys_uptime :: "('z, int) procf" where
  "sys_uptime =
     thn (acquire LK_ticks)
     (bnd (gets ticks) (\<lambda>xticks.
      thn (release LK_ticks) (ret (sint xticks))))"

section \<open>Arguments stay inside the process\<close>

lemma user_at_state: "user_at va s = Ok a t \<Longrightarrow> t = s"
  by (auto simp: user_at_def curp_def myproc_def bnd_def gets_def ret_def fault_def split: outcome.splits option.splits if_splits)

lemma user_byte_state: "user_byte va s = Ok c t \<Longrightarrow> t = s"
  by (auto simp: user_byte_def bnd_def gets_def split: outcome.splits dest: user_at_state)

lemma user_load_state: "user_load va n s = Ok b t \<Longrightarrow> t = s"
proof (induction n arbitrary: va b s)
  case 0
  then show ?case by (simp add: ret_def)
next
  case (Suc n)
  then show ?case by (fastforce simp: bnd_def ret_def split: outcome.splits dest: user_byte_state)
qed

lemma curp_Ok: "curproc s = Some i \<Longrightarrow> i < length (ptable s) \<Longrightarrow> curp s = Ok (ptable s ! i) s"
  by (simp add: curp_def myproc_def bnd_def gets_def)

lemma scan_nul_Some: "scan_nul n a s = Ok (Some str) t \<Longrightarrow> t = s \<and> length str < n \<and> 0 \<notin> set str"
proof (induction n arbitrary: a s str)
  case 0
  then show ?case by (simp add: ret_def)
next
  case (Suc n)
  then show ?case by (fastforce simp: bnd_def ret_def split: outcome.splits if_splits dest: user_byte_state)
qed

lemma argint_state:
  assumes "argint n s = Ok r t"
  shows "t = s"
  using assms
  by (auto simp: argint_def fetchint_def curp_def myproc_def bnd_def gets_def ret_def
      split: outcome.splits option.splits if_splits dest: user_load_state)

text \<open>
  C33. User pointers stay inside the process. A pointer that \<open>argptr\<close> accepts for a size that is
  not negative, and the string that \<open>argstr\<close> accepts together with its NUL, lie within the
  memory of the process; fetching arguments changes nothing. Processes are at most 2 GB large.
\<close>

theorem arguments_in_bounds:
  assumes "curproc s = Some i" and "i < length (ptable s)" and "p_sz (ptable s ! i) \<le> KERNBASE"
    and "0 \<le> sz" and "sz < 2 ^ 31"
  shows "(argptr n sz s = Ok (Some a) t \<longrightarrow> t = s \<and> unat a + nat sz \<le> unat (p_sz (ptable s ! i))) \<and>
    (argstr n s = Ok (Some str) t \<longrightarrow> t = s \<and> 0 \<notin> set str \<and>
      (\<exists>a. argint n s = Ok (Some a) s \<and> unat a + length str < unat (p_sz (ptable s ! i))))"
proof (rule conjI; rule impI)
  let ?n = "p_sz (ptable s ! i)"
  assume p: "argptr n sz s = Ok (Some a) t"
  obtain r where r: "argint n s = Ok r s" using p argint_state by (auto simp: argptr_def bnd_def split: outcome.splits)
  from p r have a: "t = s" "a < ?n" "a + word_of_int sz \<le> ?n"
    using curp_Ok [OF assms(1,2)] by (auto simp: argptr_def bnd_def ret_def split: option.splits if_splits)
  have "unat ?n \<le> 2 ^ 31" using assms(3) by (simp add: word_le_nat_alt)
  moreover have w: "unat (word_of_int sz :: u32) = nat sz" using assms(4,5) by (simp add: unsigned_of_int take_bit_int_eq_self)
  moreover have "unat a < unat ?n" using a(2) by (simp add: word_less_nat_alt)
  ultimately have "unat (a + word_of_int sz) = unat a + nat sz" using assms(4,5) by (subst unat_add_lem [THEN iffD1]) simp_all
  then show "t = s \<and> unat a + nat sz \<le> unat ?n" using a by (simp add: word_le_nat_alt)
next
  let ?n = "p_sz (ptable s ! i)"
  assume p: "argstr n s = Ok (Some str) t"
  obtain r where r: "argint n s = Ok r s" using p argint_state by (auto simp: argstr_def bnd_def split: outcome.splits)
  from p r obtain a where a: "r = Some a" "fetchstr a s = Ok (Some str) t" by (auto simp: argstr_def bnd_def ret_def split: option.splits)
  then have "a < ?n" "scan_nul (unat (?n - a)) a s = Ok (Some str) t"
    using curp_Ok [OF assms(1,2)] by (auto simp: fetchstr_def bnd_def ret_def split: if_splits)
  moreover from this have "t = s" "length str < unat (?n - a)" "0 \<notin> set str" using scan_nul_Some by blast+
  ultimately have "unat a + length str < unat ?n" by (simp add: word_less_nat_alt unat_sub word_le_nat_alt)
  with r a(1) \<open>t = s\<close> \<open>0 \<notin> set str\<close>
  show "t = s \<and> 0 \<notin> set str \<and> (\<exists>a. argint n s = Ok (Some a) s \<and> unat a + length str < unat ?n)" by blast
qed

text \<open>A process of 32 MB with all pages mapped, and memory filled with ones.\<close>

definition user0 :: procs_state where
  "user0 = procs_state0\<lparr>mem := (\<lambda>_. 1), ptable := [(mkproc 1 RUNNING)\<lparr>p_sz := 0x2000000\<rparr>]\<rparr>"

lemma user0_mapped: "translate (\<lambda>_. 1) pgdir va = Some 0x01010101"
proof -
  have "ld32 (\<lambda>_. 1) a = 0x01010101" for a by (simp add: ld32_def mk32_def)
  then show ?thesis by (simp add: translate_def pde_def present_def)
qed

lemma user0_load: "user_load va n user0 = Ok (replicate n 1) user0"
proof (induction n arbitrary: va)
  case (Suc n)
  have "user_byte va user0 = Ok 1 user0"
    by (simp add: user_byte_def user_at_def user0_def user0_mapped curp_def myproc_def)
  with Suc show ?case by simp
qed simp

theorem arguments_in_bounds_witness:
  "\<exists>a. argptr 0 4 user0 = Ok (Some a) user0 \<and> unat a + 4 \<le> 0x2000000"
proof -
  have c: "curp user0 = Ok ((mkproc 1 RUNNING)\<lparr>p_sz := 0x2000000\<rparr>) user0" by (simp add: user0_def curp_def myproc_def)
  have "argint 0 user0 = Ok (Some 0x01010101) user0"
    using user0_load [of 4 4] by (simp add: argint_def fetchint_def c mkproc_def proc0_def word32_def mk32_def)
  then have "argptr 0 4 user0 = Ok (Some 0x01010101) user0" by (simp add: argptr_def c)
  then show ?thesis using arguments_in_bounds [of user0 0 4 0 "0x01010101" user0] by (simp add: user0_def)
qed

end
