(* ===== verification/Sysfile.thy ===== *)
theory Sysfile
  imports Syscall
begin

unbundle bit_operations_syntax

text \<open>
  The system calls on files, \<^verbatim>\<open>sysfile.c\<close>. The bytes of a \<open>write\<close> are fetched from the user
  program before the call, those of a \<open>read\<close> are stored after it.
\<close>

section \<open>Descriptors\<close>

definition argfd :: "u32 \<Rightarrow> ('z, (nat \<times> nat) option) procf" where
  "argfd n = with_arg (argint n) (ret None) (\<lambda>fd.
     if sint fd < 0 \<or> sint fd \<ge> 16 then ret None
     else bnd curp (\<lambda>p. case p_ofile p ! unat fd of None \<Rightarrow> ret None | Some f \<Rightarrow> ret (Some (unat fd, f))))"

definition set_fd :: "nat \<Rightarrow> nat option \<Rightarrow> ('z, unit) core" where
  "set_fd fd f = bnd myproc (\<lambda>me. upd_proc me (\<lambda>p. p\<lparr>p_ofile := (p_ofile p)[fd := f]\<rparr>))"

definition fdalloc :: "nat \<Rightarrow> ('z, nat option) core" where
  "fdalloc f =
     bnd curp (\<lambda>p.
     case find_idx (\<lambda>x. x = None) (p_ofile p) of
       None \<Rightarrow> ret None
     | Some fd \<Rightarrow> thn (set_fd fd (Some f)) (ret (Some fd)))"

definition sys_dup :: "('z, int) procf" where
  "sys_dup = with_arg (argfd 0) (ret (-1)) (\<lambda>(_, f).
     with_arg (fdalloc f) (ret (-1)) (\<lambda>fd.
     bnd (filedup f) (\<lambda>_. ret (int fd))))"

definition sys_read :: "('z, int) procf" where
  "sys_read = with_arg (argfd 0) (ret (-1)) (\<lambda>(_, f).
     with_arg (argint 2) (ret (-1)) (\<lambda>n.
     with_arg (argptr 1 (sint n)) (ret (-1)) (\<lambda>p.
     bnd (fileread f (sint n)) (\<lambda>(r, data).
     thn (user_store p data) (ret r)))))"

definition sys_write :: "('z, int) procf" where
  "sys_write = with_arg (argfd 0) (ret (-1)) (\<lambda>(_, f).
     with_arg (argint 2) (ret (-1)) (\<lambda>n.
     with_arg (argptr 1 (sint n)) (ret (-1)) (\<lambda>p.
     bnd (user_load p (nat (sint n))) (\<lambda>data.
     filewrite f data (sint n)))))"

definition sys_close :: "('z, int) procf" where
  "sys_close = with_arg (argfd 0) (ret (-1)) (\<lambda>(fd, f).
     thn (set_fd fd None)
     (thn (fileclose f)
     (ret 0)))"

text \<open>The fields of \<^verbatim>\<open>struct stat\<close> at their offsets in user memory.\<close>

definition store_stat :: "u32 \<Rightarrow> stat \<Rightarrow> ('z, unit) vmf" where
  "store_stat a st =
     thn (user_store a (bytes16 (st_type st)))
     (thn (user_store (a + 4) (bytes32 (st_dev st)))
     (thn (user_store (a + 8) (bytes32 (st_ino st)))
     (thn (user_store (a + 12) (bytes16 (st_nlink st)))
     (user_store (a + 16) (bytes32 (st_size st))))))"

definition sys_fstat :: "('z, int) procf" where
  "sys_fstat = with_arg (argfd 0) (ret (-1)) (\<lambda>(_, f).
     with_arg (argptr 1 20) (ret (-1)) (\<lambda>a.
     with_arg (filestat f) (ret (-1)) (\<lambda>st.
     thn (store_stat a st) (ret 0))))"

section \<open>Links\<close>

definition add_nlink :: "nat \<Rightarrow> u16 \<Rightarrow> ('z, unit) inof" where
  "add_nlink ip k = thn (upd_inode ip (\<lambda>x. x\<lparr>i_nlink := i_nlink x + k\<rparr>)) (iupdate ip)"

definition end_with :: "int \<Rightarrow> ('z, int) logf" where
  "end_with r = thn end_op (ret r)"

definition link_bad :: "nat \<Rightarrow> ('z, int) consf" where
  "link_bad ip =
     thn (ilock (Some ip))
     (thn (add_nlink ip (-1))
     (thn (iunlockput ip)
     (end_with (-1))))"

definition sys_link :: "('z, int) procf" where
  "sys_link = with_arg (argstr 0) (ret (-1)) (\<lambda>old.
     with_arg (argstr 1) (ret (-1)) (\<lambda>new.
     thn begin_op
     (with_arg (namei old) (end_with (-1)) (\<lambda>ip.
      thn (ilock (Some ip))
      (bnd (the_inode ip) (\<lambda>x.
       if i_type x = T_DIR then thn (iunlockput ip) (end_with (-1))
       else
         thn (add_nlink ip 1)
         (thn (iunlock (Some ip))
         (with_arg (nameiparent new) (link_bad ip) (\<lambda>(dp, name).
          thn (ilock (Some dp))
          (bnd (the_inode dp) (\<lambda>d.
           bnd (the_inode ip) (\<lambda>x.
           bnd (if i_dev d \<noteq> i_dev x then ret (-1) else dirlink dp name (i_inum x)) (\<lambda>r.
           if r < 0 then thn (iunlockput dp) (link_bad ip)
           else
             thn (iunlockput dp)
             (thn (iput ip)
             (end_with 0)))))))))))))))"

primrec all_free :: "nat \<Rightarrow> u32 list \<Rightarrow> ('z, bool) consf" where
  "all_free dp [] = ret True"
| "all_free dp (off # offs) =
     bnd (read_dirent ''isdirempty: readi'' dp off) (\<lambda>de.
     if de_inum de \<noteq> 0 then ret False else all_free dp offs)"

definition isdirempty :: "nat \<Rightarrow> ('z, bool) consf" where
  "isdirempty dp = bnd (the_inode dp) (\<lambda>x. all_free dp (drop 2 (dir_offs (i_size x))))"

definition unlink_bad :: "nat \<Rightarrow> ('z, int) consf" where
  "unlink_bad dp = thn (iunlockput dp) (end_with (-1))"

text \<open>\<open>sys_unlink\<close> from where the directory and the inode are locked.\<close>

definition unlink_entry :: "nat \<Rightarrow> nat \<Rightarrow> u32 \<Rightarrow> ('z, int) consf" where
  "unlink_entry dp ip off =
     bnd (writei dp (replicate 16 0) off) (\<lambda>r.
     if r \<noteq> 16 then panic ''unlink: writei''
     else
       bnd (the_inode ip) (\<lambda>x.
       thn (whenk (i_type x = T_DIR) (add_nlink dp (-1)))
       (thn (iunlockput dp)
       (thn (add_nlink ip (-1))
       (thn (iunlockput ip)
       (end_with 0))))))"

definition sys_unlink :: "('z, int) procf" where
  "sys_unlink = with_arg (argstr 0) (ret (-1)) (\<lambda>path.
     thn begin_op
     (with_arg (nameiparent path) (end_with (-1)) (\<lambda>(dp, name).
      thn (ilock (Some dp))
      (if namecmp name [46] = 0 \<or> namecmp name [46, 46] = 0 then unlink_bad dp
       else
         with_arg (dirlookup dp name) (unlink_bad dp) (\<lambda>(ip, off).
         thn (ilock (Some ip))
         (bnd (the_inode ip) (\<lambda>x.
          if sint (i_nlink x) < 1 then panic ''unlink: nlink < 1''
          else
            bnd (if i_type x = T_DIR then isdirempty ip else ret True) (\<lambda>e.
            if \<not> e then thn (iunlockput ip) (unlink_bad dp)
            else unlink_entry dp ip off))))))))"

section \<open>Creation\<close>

text \<open>The new inode of \<open>create\<close>, with its entries \<open>.\<close> and \<open>..\<close> when it is a directory.\<close>

definition create_new :: "nat \<Rightarrow> byte list \<Rightarrow> u16 \<Rightarrow> u16 \<Rightarrow> u16 \<Rightarrow> ('z, nat option) consf" where
  "create_new dp name type major minor =
     bnd (the_inode dp) (\<lambda>d.
     bnd (ialloc (i_dev d) type) (\<lambda>ip.
     thn (ilock (Some ip))
     (thn (upd_inode ip (\<lambda>x. x\<lparr>i_major := major, i_minor := minor, i_nlink := 1\<rparr>))
     (thn (iupdate ip)
     (bnd (the_inode ip) (\<lambda>x.
      thn (whenk (type = T_DIR)
        (thn (add_nlink dp 1)
        (bnd (dirlink ip [46] (i_inum x)) (\<lambda>r.
         if r < 0 then panic ''create dots''
         else bnd (dirlink ip [46, 46] (i_inum d)) (\<lambda>r.
           whenk (r < 0) (panic ''create dots''))))))
      (bnd (dirlink dp name (i_inum x)) (\<lambda>r.
       if r < 0 then panic ''create: dirlink''
       else thn (iunlockput dp) (ret (Some ip))))))))))"

definition create :: "byte list \<Rightarrow> u16 \<Rightarrow> u16 \<Rightarrow> u16 \<Rightarrow> ('z, nat option) consf" where
  "create path type major minor = with_arg (nameiparent path) (ret None) (\<lambda>(dp, name).
     thn (ilock (Some dp))
     (bnd (dirlookup dp name) (\<lambda>r. case r of
        Some (ip, off) \<Rightarrow>
          thn (iunlockput dp)
          (thn (ilock (Some ip))
          (bnd (the_inode ip) (\<lambda>x.
           if type = T_FILE \<and> i_type x = T_FILE then ret (Some ip)
           else thn (iunlockput ip) (ret None))))
      | None \<Rightarrow> create_new dp name type major minor)))"

abbreviation (input) "O_RDONLY \<equiv> (0::u32)"
abbreviation (input) "O_WRONLY \<equiv> (1::u32)"
abbreviation (input) "O_RDWR \<equiv> (2::u32)"
abbreviation (input) "O_CREATE \<equiv> (0x200::u32)"

text \<open>The inode that \<open>sys_open\<close> opens, locked.\<close>

definition open_inode :: "byte list \<Rightarrow> u32 \<Rightarrow> ('z, nat option) consf" where
  "open_inode path omode =
     (if omode AND O_CREATE \<noteq> 0 then create path T_FILE 0 0
      else with_arg (namei path) (ret None) (\<lambda>ip.
        thn (ilock (Some ip))
        (bnd (the_inode ip) (\<lambda>x.
         if i_type x = T_DIR \<and> omode \<noteq> O_RDONLY then thn (iunlockput ip) (ret None)
         else ret (Some ip)))))"

definition sys_open :: "('z, int) procf" where
  "sys_open = with_arg (argstr 0) (ret (-1)) (\<lambda>path.
     with_arg (argint 1) (ret (-1)) (\<lambda>omode.
     thn begin_op
     (with_arg (open_inode path omode) (end_with (-1)) (\<lambda>ip.
      let bad = thn (iunlockput ip) (end_with (-1)) in
      with_arg filealloc bad (\<lambda>f.
      with_arg (fdalloc f) (thn (fileclose f) bad) (\<lambda>fd.
      thn (iunlock (Some ip))
      (thn end_op
      (thn (upd_file f (\<lambda>x. x\<lparr>f_type := FD_INODE, f_ip := ip, f_off := 0,
         f_readable := (omode AND O_WRONLY = 0),
         f_writable := (omode AND O_WRONLY \<noteq> 0 \<or> omode AND O_RDWR \<noteq> 0)\<rparr>))
      (ret (int fd))))))))))"

definition sys_mkdir :: "('z, int) procf" where
  "sys_mkdir =
     thn begin_op
     (with_arg (argstr 0) (end_with (-1)) (\<lambda>path.
      with_arg (create path T_DIR 0 0) (end_with (-1)) (\<lambda>ip.
      thn (iunlockput ip) (end_with 0))))"

definition sys_mknod :: "('z, int) procf" where
  "sys_mknod =
     thn begin_op
     (with_arg (argstr 0) (end_with (-1)) (\<lambda>path.
      with_arg (argint 1) (end_with (-1)) (\<lambda>major.
      with_arg (argint 2) (end_with (-1)) (\<lambda>minor.
      with_arg (create path T_DEV (ucast major) (ucast minor)) (end_with (-1)) (\<lambda>ip.
      thn (iunlockput ip) (end_with 0))))))"

definition sys_chdir :: "('z, int) procf" where
  "sys_chdir =
     thn begin_op
     (with_arg (argstr 0) (end_with (-1)) (\<lambda>path.
      with_arg (namei path) (end_with (-1)) (\<lambda>ip.
      thn (ilock (Some ip))
      (bnd (the_inode ip) (\<lambda>x.
       if i_type x \<noteq> T_DIR then thn (iunlockput ip) (end_with (-1))
       else
         thn (iunlock (Some ip))
         (bnd curp (\<lambda>p.
          thn (case p_cwd p of None \<Rightarrow> fault ''iput'' | Some d \<Rightarrow> iput d)
          (thn end_op
          (bnd myproc (\<lambda>me.
           thn (upd_proc me (\<lambda>p. p\<lparr>p_cwd := Some ip\<rparr>)) (ret 0)))))))))))"

definition sys_pipe :: "('z, int) procf" where
  "sys_pipe = with_arg (argptr 0 8) (ret (-1)) (\<lambda>fd.
     with_arg pipealloc (ret (-1)) (\<lambda>(rf, wf).
     let bad = thn (fileclose rf) (thn (fileclose wf) (ret (-1))) in
     with_arg (fdalloc rf) bad (\<lambda>fd0.
     with_arg (fdalloc wf) (thn (set_fd fd0 None) bad) (\<lambda>fd1.
     thn (user_store fd (bytes32 (of_nat fd0)))
     (thn (user_store (fd + 4) (bytes32 (of_nat fd1)))
     (ret 0))))))"

end
