(* ===== verification/Exec.thy ===== *)
theory Exec
  imports Sysfile
begin

unbundle bit_operations_syntax

text \<open>
  Loading a program: \<open>exec\<close> of \<^verbatim>\<open>exec.c\<close>, the headers of \<^verbatim>\<open>elf.h\<close>, and the system call in
  \<^verbatim>\<open>sysfile.c\<close>. The argument strings are fetched by the system call.
\<close>

section \<open>Headers\<close>

record elfhdr =
  eh_magic :: u32
  eh_entry :: u32
  eh_phoff :: u32
  eh_phnum :: u16

definition get_elfhdr :: "byte list \<Rightarrow> elfhdr" where
  "get_elfhdr b = \<lparr>eh_magic = word32 (slice 0 4 b), eh_entry = word32 (slice 24 4 b), eh_phoff = word32 (slice 28 4 b),
     eh_phnum = word16 (slice 44 2 b)\<rparr>"

record proghdr =
  ph_type :: u32
  ph_off :: u32
  ph_vaddr :: u32
  ph_paddr :: u32
  ph_filesz :: u32
  ph_memsz :: u32
  ph_flags :: u32
  ph_align :: u32

definition get_proghdr :: "byte list \<Rightarrow> proghdr" where
  "get_proghdr b = \<lparr>ph_type = rd32 b 0, ph_off = rd32 b 1, ph_vaddr = rd32 b 2, ph_paddr = rd32 b 3,
     ph_filesz = rd32 b 4, ph_memsz = rd32 b 5, ph_flags = rd32 b 6, ph_align = rd32 b 7\<rparr>"

abbreviation (input) "ELF_MAGIC \<equiv> (0x464C457F::u32)"

section \<open>Loading\<close>

text \<open>\<open>readi\<close> to an address of the kernel, as \<open>loaduvm\<close> calls it.\<close>

definition readi_to :: "nat \<Rightarrow> u32 \<Rightarrow> u32 \<Rightarrow> u32 \<Rightarrow> ('z, int) consf" where
  "readi_to ip a off n =
     bnd (readi ip off n) (\<lambda>(r, data).
     thn (modify (\<lambda>s. s\<lparr>mem := wr_bytes (mem s) a data\<rparr>)) (ret r))"

text \<open>The loop over the program headers; \<open>None\<close> is the jump to \<open>bad\<close>.\<close>

primrec load_segments :: "nat \<Rightarrow> nat \<Rightarrow> u32 \<Rightarrow> u32 \<Rightarrow> u32 \<Rightarrow> ('z, u32 option) consf" where
  "load_segments 0 ip pgdir off sz = ret (Some sz)"
| "load_segments (Suc n) ip pgdir off sz =
     bnd (readi ip off 32) (\<lambda>(r, b).
     let ph = get_proghdr b in
     if r \<noteq> 32 then ret None
     else if ph_type ph \<noteq> 1 then load_segments n ip pgdir (off + 32) sz
     else if ph_memsz ph < ph_filesz ph then ret None
     else
       bnd (allocuvm pgdir sz (ph_vaddr ph + ph_memsz ph)) (\<lambda>sz.
       if sz = 0 then ret None
       else
         bnd (loaduvm (readi_to ip) pgdir (ph_vaddr ph) (ph_off ph) (ph_filesz ph)) (\<lambda>r.
         if r < 0 then ret None
         else load_segments n ip pgdir (off + 32) sz)))"

text \<open>The loop that pushes the argument strings: the stack pointer and the pointers to the strings.\<close>

primrec push_args :: "u32 \<Rightarrow> byte list list \<Rightarrow> u32 \<Rightarrow> u32 list \<Rightarrow> ('z, (u32 \<times> u32 list) option) kmemf" where
  "push_args pgdir [] sp us = ret (Some (sp, us))"
| "push_args pgdir (a # argv) sp us =
     (if length us \<ge> 32 then ret None
      else
        (let sp = (sp - (of_nat (length a) + 1)) AND NOT 3 in
         bnd (copyout pgdir sp (a @ [0])) (\<lambda>r.
         if r < 0 then ret None
         else push_args pgdir argv sp (us @ [sp]))))"

definition basename :: "byte list \<Rightarrow> byte list" where
  "basename path = rev (takeWhile (\<lambda>c. c \<noteq> 47) (rev path))"

definition exec_bad :: "u32 \<Rightarrow> nat option \<Rightarrow> ('z, int) consf" where
  "exec_bad pgdir ip =
     thn (whenk (pgdir \<noteq> 0) (freevm pgdir))
     (thn (case ip of None \<Rightarrow> ret () | Some ip \<Rightarrow> thn (iunlockput ip) end_op)
     (ret (-1)))"

text \<open>The words on the stack of the new program: a return address, \<open>argc\<close>, \<open>argv\<close>, and the array.\<close>

definition ustack :: "u32 \<Rightarrow> u32 list \<Rightarrow> byte list" where
  "ustack sp us = concat (map bytes32
     ([0xffffffff, of_nat (length us), sp - (of_nat (length us) + 1) * 4] @ us @ [0]))"

text \<open>\<open>exec\<close> from where the user stack is pushed.\<close>

definition exec_commit :: "byte list \<Rightarrow> u32 \<Rightarrow> u32 \<Rightarrow> u32 \<Rightarrow> u32 \<Rightarrow> ('z, int) consf" where
  "exec_commit path pgdir sz entry sp =
     bnd myproc (\<lambda>me.
     thn (set_name me (basename path))
     (bnd (the_proc me) (\<lambda>p.
      thn (upd_proc me (\<lambda>p. p\<lparr>p_pgdir := pgdir, p_sz := sz, p_tf := (p_tf p)\<lparr>tf_eip := entry, tf_esp := sp\<rparr>, p_type := 0\<rparr>))
      (thn (switchuvm me)
      (thn (freevm (p_pgdir p))
      (ret 0))))))"

definition exec_stack :: "byte list \<Rightarrow> byte list list \<Rightarrow> u32 \<Rightarrow> u32 \<Rightarrow> u32 \<Rightarrow> ('z, int) consf" where
  "exec_stack path argv entry pgdir sz =
     bnd (allocuvm pgdir (PGROUNDUP sz) (PGROUNDUP sz + 2 * PGSIZE)) (\<lambda>sz.
     if sz = 0 then exec_bad pgdir None
     else
       thn (clearpteu pgdir (sz - 2 * PGSIZE))
       (with_arg (push_args pgdir argv sz []) (exec_bad pgdir None) (\<lambda>(sp, us).
        bnd (copyout pgdir (sp - (3 + of_nat (length us) + 1) * 4) (ustack sp us)) (\<lambda>r.
        if r < 0 then exec_bad pgdir None
        else exec_commit path pgdir sz entry (sp - (3 + of_nat (length us) + 1) * 4)))))"

text \<open>
  The length that \<open>readi\<close> returns is compared as an unsigned number, so that an error passes
  the test; the header is then not initialised.
\<close>

definition exec :: "byte list \<Rightarrow> byte list list \<Rightarrow> ('z, int) consf" where
  "exec path argv =
     thn begin_op
     (with_arg (namei path) (end_with (-1)) (\<lambda>ip.
      thn (ilock (Some ip))
      (bnd (readi ip 0 52) (\<lambda>(r, b).
       let elf = get_elfhdr b in
       if (word_of_int r :: u32) < 52 then exec_bad 0 (Some ip)
       else if length b < 52 then fault ''elf.magic''
       else if eh_magic elf \<noteq> ELF_MAGIC then exec_bad 0 (Some ip)
       else
         bnd setupkvm (\<lambda>pgdir.
         if pgdir = 0 then exec_bad 0 (Some ip)
         else
           with_arg (load_segments (unat (eh_phnum elf)) ip pgdir (eh_phoff elf) 0) (exec_bad pgdir (Some ip)) (\<lambda>sz.
           thn (iunlockput ip)
           (thn end_op
           (exec_stack path argv (eh_entry elf) pgdir sz))))))))"

section \<open>The system call\<close>

text \<open>The loop over the array of arguments; it has room for 32 pointers, the null pointer included.\<close>

primrec fetch_argv :: "nat \<Rightarrow> u32 \<Rightarrow> ('z, byte list list option) vmf" where
  "fetch_argv 0 a = ret None"
| "fetch_argv (Suc n) a =
     with_arg (fetchint a) (ret None) (\<lambda>uarg.
     if uarg = 0 then ret (Some [])
     else
       with_arg (fetchstr uarg) (ret None) (\<lambda>t.
       with_arg (fetch_argv n (a + 4)) (ret None) (\<lambda>argv.
       ret (Some (t # argv)))))"

definition sys_exec :: "('z, int) procf" where
  "sys_exec = with_arg (argstr 0) (ret (-1)) (\<lambda>path.
     with_arg (argint 1) (ret (-1)) (\<lambda>uargv.
     with_arg (fetch_argv 32 uargv) (ret (-1)) (\<lambda>argv.
     exec path argv)))"

lemma unat_of_nat_u32: "n < 2 ^ 32 \<Longrightarrow> unat (of_nat n :: u32) = n"
  by (simp add: unsigned_of_nat take_bit_nat_eq_self)

section \<open>The arguments on the new stack\<close>

lemma unat_align4: "unat (w AND NOT 3 :: u32) = unat w div 4 * 4"
proof -
  have m: "3 = (mask 2 :: u32)" by (simp add: mask_eq_exp_minus_1)
  have "w AND NOT 3 = push_bit 2 (drop_bit 2 w)" unfolding m by (rule bit_word_eqI) (auto simp: bit_simps simp del: add_2_eq_Suc add_2_eq_Suc')
  moreover have "unat w div 4 * 4 < 2 ^ 32"
    using unat_u32_less [of w] by (simp add: le_less_trans [OF div_times_less_eq_dividend])
  ultimately show ?thesis by (simp add: push_bit_eq_mult drop_bit_eq_div unat_word_ariths unat_div)
qed

text \<open>The room the strings need at most: each has its NUL and up to three bytes of padding.\<close>

definition args_room :: "byte list list \<Rightarrow> nat" where
  "args_room argv = sum_list (map (\<lambda>a. length a + 4) argv)"

lemma args_room_Cons: "args_room (a # argv) = length a + 4 + args_room argv"
  by (simp add: args_room_def)

text \<open>The user finds the bytes \<open>bs\<close> at \<open>va\<close>.\<close>

definition user_has :: "mem \<Rightarrow> u32 \<Rightarrow> u32 \<Rightarrow> byte list \<Rightarrow> bool" where
  "user_has m pgdir va bs \<longleftrightarrow> (\<forall>j<length bs. ubyte m pgdir (va + of_nat j) = Some (bs ! j))"

lemma copyout_Ok:
  assumes "upages_ok (mem s) pgdir" and "unat va + length bs \<le> 2 ^ 32"
    and "\<forall>i<length bs. uaddr (mem s) pgdir (va + of_nat i) \<noteq> None"
  shows "\<exists>m. copyout pgdir va bs s = Ok 0 (s\<lparr>mem := m\<rparr>) \<and> upages_ok m pgdir \<and>
     (\<forall>v. uaddr m pgdir v = uaddr (mem s) pgdir v) \<and> user_has m pgdir va bs \<and>
     (\<forall>v. unat va + length bs \<le> unat v \<longrightarrow> ubyte m pgdir v = ubyte (mem s) pgdir v)"
proof -
  obtain m where m: "copyout_from (Suc (length bs)) pgdir va bs s = Ok 0 (s\<lparr>mem := m\<rparr>)" "upages_ok m pgdir"
      "\<forall>v. uaddr m pgdir v = uaddr (mem s) pgdir v"
      "\<forall>v. ubyte m pgdir v = (if unat (v - va) < length bs then Some (bs ! unat (v - va)) else ubyte (mem s) pgdir v)"
    using copyout_from_Ok [OF assms, of "Suc (length bs)"] by auto
  have "unat (va + of_nat j - va) = j" if "j < length bs" for j
    using that assms(2) by (simp add: unat_of_nat_u32)
  then have "user_has m pgdir va bs" using m(4) by (simp add: user_has_def)
  moreover have "ubyte m pgdir v = ubyte (mem s) pgdir v" if "unat va + length bs \<le> unat v" for v
  proof -
    have "unat (v - va) = unat v - unat va" using that by (simp add: unat_sub word_le_nat_alt)
    then have "\<not> unat (v - va) < length bs" using that by linarith
    then show ?thesis using m(4) by simp
  qed
  ultimately show ?thesis using m(1-3) unfolding copyout_def by blast
qed

lemma push_sp:
  fixes sp :: u32
  assumes "length a + 4 \<le> unat sp"
  defines "sp1 \<equiv> (sp - (of_nat (length a) + 1)) AND NOT 3"
  shows "unat sp1 + length a + 1 \<le> unat sp" and "unat sp \<le> unat sp1 + length a + 4" and "4 dvd unat sp1"
    and "j \<le> length a \<Longrightarrow> unat (sp1 + of_nat j) = unat sp1 + j"
proof -
  have sp: "unat sp < 2 ^ 32" using unat_u32_less by simp
  have "unat (of_nat (length a + 1) :: u32) = length a + 1" using assms(1) sp by (intro unat_of_nat_u32) linarith
  then have "unat (of_nat (length a) + 1 :: u32) = length a + 1" by (simp add: add.commute)
  then have "unat (sp - (of_nat (length a) + 1)) = unat sp - (length a + 1)"
    using assms(1) by (subst unat_sub) (simp_all add: word_le_nat_alt)
  then have u: "unat sp1 = (unat sp - (length a + 1)) div 4 * 4" unfolding sp1_def unat_align4 by simp
  have "x div 4 * 4 \<le> x" "x \<le> x div 4 * 4 + 3" for x :: nat by presburger+
  from this [of "unat sp - (length a + 1)"]
  show b: "unat sp1 + length a + 1 \<le> unat sp" and "unat sp \<le> unat sp1 + length a + 4"
    unfolding u using assms(1) by linarith+
  show "4 dvd unat sp1" by (simp add: u)
  assume "j \<le> length a"
  then have s: "unat sp1 + j < 2 ^ 32" using b sp by linarith
  then have "unat (of_nat j :: u32) = j" by (intro unat_of_nat_u32) linarith
  with s show "unat (sp1 + of_nat j) = unat sp1 + j" by (simp add: unat_word_ariths)
qed

lemma push_args_Ok:
  assumes "upages_ok (mem s) pgdir" and "length us0 + length argv \<le> 32" and "args_room argv \<le> unat sp"
    and "\<forall>v. unat sp - args_room argv \<le> unat v \<and> unat v < unat sp \<longrightarrow> uaddr (mem s) pgdir v \<noteq> None"
  shows "\<exists>m sp' us. push_args pgdir argv sp us0 s = Ok (Some (sp', us0 @ us)) (s\<lparr>mem := m\<rparr>) \<and> length us = length argv \<and>
    unat sp - args_room argv \<le> unat sp' \<and> unat sp' \<le> unat sp \<and>
    (\<forall>k<length argv. 4 dvd unat (us ! k) \<and> user_has m pgdir (us ! k) (argv ! k @ [0])) \<and>
    (\<forall>v. unat sp \<le> unat v \<longrightarrow> ubyte m pgdir v = ubyte (mem s) pgdir v)"
  using assms
proof (induction argv arbitrary: sp us0 s)
  case Nil
  have "push_args pgdir [] sp us0 s = Ok (Some (sp, us0 @ [])) (s\<lparr>mem := mem s\<rparr>)" by simp
  then show ?case by (intro exI [of _ "mem s"] exI [of _ sp] exI [of _ "[]"]) simp
next
  case (Cons a argv)
  define sp1 where "sp1 = (sp - (of_nat (length a) + 1)) AND NOT 3"
  have r: "length a + 4 + args_room argv \<le> unat sp" using Cons.prems(3) by (simp add: args_room_Cons)
  note b = push_sp [OF add_leD1 [OF r], folded sp1_def]
  have sp: "unat sp < 2 ^ 32" using unat_u32_less by simp
  have n: "unat (sp1 + of_nat j) = unat sp1 + j" if "j < length (a @ [0 :: byte])" for j
    using b(4) that by simp
  have "\<forall>j<length (a @ [0 :: byte]). uaddr (mem s) pgdir (sp1 + of_nat j) \<noteq> None"
    using Cons.prems(4) n b r by (auto simp: args_room_Cons)
  moreover have fits: "unat sp1 + length (a @ [0 :: byte]) \<le> 2 ^ 32" 
  proof -
    have "length (a @ [0 :: byte]) = length a + 1" by simp
    then show ?thesis using b(1) sp by linarith
  qed
  ultimately obtain m1 where m1: "copyout pgdir sp1 (a @ [0]) s = Ok 0 (s\<lparr>mem := m1\<rparr>)" "upages_ok m1 pgdir"
      "\<forall>v. uaddr m1 pgdir v = uaddr (mem s) pgdir v" "user_has m1 pgdir sp1 (a @ [0])"
      "\<forall>v. unat sp1 + length (a @ [0 :: byte]) \<le> unat v \<longrightarrow> ubyte m1 pgdir v = ubyte (mem s) pgdir v"
    using copyout_Ok [OF Cons.prems(1) fits] by blast
  obtain m sp' us where IH: "push_args pgdir argv sp1 (us0 @ [sp1]) (s\<lparr>mem := m1\<rparr>) = Ok (Some (sp', (us0 @ [sp1]) @ us)) (s\<lparr>mem := m1, mem := m\<rparr>)"
      "length us = length argv" "unat sp1 - args_room argv \<le> unat sp'" "unat sp' \<le> unat sp1"
      "\<forall>k<length argv. 4 dvd unat (us ! k) \<and> user_has m pgdir (us ! k) (argv ! k @ [0])"
      "\<forall>v. unat sp1 \<le> unat v \<longrightarrow> ubyte m pgdir v = ubyte m1 pgdir v"
    using Cons.IH [of "s\<lparr>mem := m1\<rparr>" "us0 @ [sp1]" sp1] Cons.prems(2,4) m1(2,3) r b by (fastforce simp: args_room_Cons)
  have a: "user_has m pgdir sp1 (a @ [0])" using m1(4) IH(6) n by (simp add: user_has_def)
  have run: "push_args pgdir (a # argv) sp us0 s = Ok (Some (sp', us0 @ sp1 # us)) (s\<lparr>mem := m\<rparr>)"
    unfolding push_args.simps(2) Let_def sp1_def [symmetric] using Cons.prems(2) m1(1) IH(1) by simp
  have all: "\<forall>k<length (a # argv). 4 dvd unat ((sp1 # us) ! k) \<and> user_has m pgdir ((sp1 # us) ! k) ((a # argv) ! k @ [0])"
    using a IH(5) b(3) by (auto simp: nth_Cons split: nat.splits)
  have "\<forall>v. unat sp \<le> unat v \<longrightarrow> ubyte m pgdir v = ubyte (mem s) pgdir v" using IH(6) m1(5) b by simp
  moreover have "unat sp - args_room (a # argv) \<le> unat sp'" "unat sp' \<le> unat sp" using IH(3,4) b by (simp_all add: args_room_Cons)
  moreover have "length (sp1 # us) = length (a # argv)" using IH(2) by simp
  ultimately show ?case using run all by blast
qed

text \<open>
  C32. The arguments of a new program. When there are at most 32 arguments and the stack is mapped
  as far down as they reach, the loop of \<open>exec\<close> that pushes them succeeds, and the new program
  finds at each of the pointers in the argument array, all of them aligned, the characters of that
  argument followed by a NUL: no string overlaps a later one. Nothing above the stack changes.
\<close>

theorem pushed_arguments_are_found:
  assumes "upages_ok (mem s) pgdir" and "length argv \<le> 32" and "args_room argv \<le> unat sp"
    and "\<forall>v. unat sp - args_room argv \<le> unat v \<and> unat v < unat sp \<longrightarrow> uaddr (mem s) pgdir v \<noteq> None"
  shows "\<exists>m sp' us. push_args pgdir argv sp [] s = Ok (Some (sp', us)) (s\<lparr>mem := m\<rparr>) \<and> length us = length argv \<and>
    unat sp - args_room argv \<le> unat sp' \<and> unat sp' \<le> unat sp \<and>
    (\<forall>k<length argv. 4 dvd unat (us ! k) \<and> user_has m pgdir (us ! k) (argv ! k @ [0])) \<and>
    (\<forall>v. unat sp \<le> unat v \<longrightarrow> ubyte m pgdir v = ubyte (mem s) pgdir v)"
  using push_args_Ok [OF assms(1) _ assms(3,4), of "[]"] assms(2) by simp

theorem pushed_arguments_are_found_witness:
  "\<exists>t m sp' us. mappages 0x80201000 0x1000 4096 0x5000 6 vm1 = Ok 0 t \<and>
     push_args 0x80201000 [[108, 115], [45, 108]] 0x2000 [] t = Ok (Some (sp', us)) (t\<lparr>mem := m\<rparr>) \<and>
     user_has m 0x80201000 (us ! 0) [108, 115, 0] \<and> user_has m 0x80201000 (us ! 1) [45, 108, 0]"
proof -
  obtain t ys where t: "mappages 0x80201000 0x1000 4096 0x5000 6 vm1 = Ok 0 t" and
      k: "vm_keep vm1 [0x80200000] t ys 0x80201000" and
      tr: "\<forall>v. translate (mem t) 0x80201000 v = (if PGROUNDDOWN v = 0x1000 then Some 0x5007 else None)"
    using vm1_map by blast
  let ?argv = "[[108, 115], [45, 108]] :: byte list list"
  have r: "args_room ?argv = 12" by (simp add: args_room_def)
  have "uaddr (mem t) 0x80201000 v \<noteq> None" if "0x1FF4 \<le> unat v" "unat v < 0x2000" for v
  proof (rule vm1_upages(2) [OF k tr])
    have "unat v div 4096 = 1" using that by linarith
    then show "PGROUNDDOWN v = 0x1000" by (simp add: word_unat_eq_iff unat_PGROUNDDOWN)
  qed
  then show ?thesis
    using pushed_arguments_are_found [OF vm1_upages(1) [OF k tr], of ?argv "0x2000"] t r
    by (force simp: less_Suc_eq)
qed

end
