(* ===== verification/Exokernel.thy ===== *)
theory Exokernel
  imports Exec
begin

unbundle bit_operations_syntax

text \<open>
  The exokernel interface: frames and page tables in the hands of the application
  (\<^verbatim>\<open>sysmem.c\<close>), and disk requests whose buffers lie in the memory of the application
  (\<^verbatim>\<open>ex_ide.c\<close>, \<^verbatim>\<open>sysfs.c\<close>). A request is the 16 bytes \<^verbatim>\<open>struct buffer\<close> at the place where the
  sector is to go; the queue runs through these structures.
\<close>

record exos = procs_state +
  ExProcess :: bool
  ex_queue :: u32
  ex_last :: u32
  transfercount :: u32

type_synonym ('z, 'a) exof = "('z exos_scheme, 'a) kfun"

section \<open>Memory\<close>

definition SetExProcess :: "('z, unit) exof" where
  "SetExProcess = modify (\<lambda>s. s\<lparr>ExProcess := True\<rparr>)"

definition sys_ExRegister :: "('z, int) exof" where
  "sys_ExRegister =
     bnd myproc (\<lambda>me.
     thn (upd_proc me (\<lambda>p. p\<lparr>p_type := 1\<rparr>))
     (thn SetExProcess
     (ret 0)))"

text \<open>The walk of \<open>sys_ExGetFrame\<close> along the free list: how many of \<open>n\<close> steps it makes.\<close>

primrec count_free :: "nat \<Rightarrow> mem \<Rightarrow> u32 \<Rightarrow> nat" where
  "count_free 0 m r = 0"
| "count_free (Suc n) m r = (if r = 0 then 0 else Suc (count_free n m (ld32 m r)))"

definition sys_ExGetFrame :: "('z, int) exof" where
  "sys_ExGetFrame = with_arg (argint 0) (ret 0) (\<lambda>n.
     bnd getfreelist (\<lambda>r.
     bnd (gets (\<lambda>s. count_free (nat (sint n)) (mem s) r)) (\<lambda>num.
     if int num \<noteq> sint n then ret 0
     else bnd getfreelist (\<lambda>r. ret (sint r)))))"

definition sys_ExGetVA :: "('z, int) exof" where
  "sys_ExGetVA = bnd curp (\<lambda>p. ret (sint (PGROUNDUP (p_sz p))))"

definition sys_ExGetPDE :: "('z, int) exof" where
  "sys_ExGetPDE = with_arg (argint 0) (ret (-1)) (\<lambda>index.
     if sint index < 0 \<or> sint index > 1023 then ret (-1)
     else bnd curp (\<lambda>p. gets (\<lambda>s. sint (ld32 (mem s) (p_pgdir p + 4 * index)))))"

definition getpgtab :: "u32 \<Rightarrow> u32 \<Rightarrow> bool \<Rightarrow> ('z, u32) exof" where
  "getpgtab pgdir va alloc =
     bnd (gets (\<lambda>s. ld32 (mem s) (pgdir + 4 * PDX va))) (\<lambda>pde.
     if pde AND PTE_P \<noteq> 0 then ret (p2v (PTE_ADDR pde) + 4 * PTX va)
     else
       thn (cprintf ''Page table NOT present!'')
       (if \<not> alloc then ret 0
        else
          bnd getfreelist (\<lambda>pgtab.
          if pgtab = 0 then ret 0
          else
            bnd curp (\<lambda>p.
            bnd getfreelist (\<lambda>f.
            bnd (allocadd (p_pid p) f) (\<lambda>_.
            thn (cprintf ''Page table alloc success!'')
            (thn (modify (\<lambda>s. s\<lparr>mem := memset (mem s) pgtab 0 PGSIZE\<rparr>))
            (thn (modify (\<lambda>s. s\<lparr>mem := st32 (mem s) (pgdir + 4 * PDX va) (v2p pgtab OR PTE_P OR PTE_W OR PTE_U)\<rparr>))
            (ret (pgtab + 4 * PTX va))))))))))"

definition sys_ExGetPTE :: "('z, int) exof" where
  "sys_ExGetPTE = with_arg (argint 0) (ret 0) (\<lambda>va.
     bnd curp (\<lambda>p.
     bnd (getpgtab (p_pgdir p) va False) (\<lambda>a. ret (sint a))))"

definition sys_ExAddPage :: "('z, int) exof" where
  "sys_ExAddPage =
     bnd curp (\<lambda>p.
     with_arg (argint 0) (ret 0) (\<lambda>va.
     with_arg (argint 1) (ret 0) (\<lambda>frame.
     if va mod PGSIZE \<noteq> 0 then ret 0
     else
       bnd (allocadd (p_pid p) frame) (\<lambda>r.
       if r = 0 then ret 0
       else
         bnd (getpgtab (p_pgdir p) va True) (\<lambda>pgtab.
         if pgtab = 0 then ret 0
         else
           bnd (gets (\<lambda>s. ld32 (mem s) pgtab)) (\<lambda>e.
           thn (whenk (e AND PTE_P \<noteq> 0) (cprintf ''Page Entry Present!''))
           (thn (modify (\<lambda>s. s\<lparr>mem := st32 (mem s) pgtab (frame OR PTE_U OR PTE_W OR PTE_P)\<rparr>))
           (bnd myproc (\<lambda>me.
            thn (upd_proc me (\<lambda>p. p\<lparr>p_sz := p_sz p + PGSIZE\<rparr>))
            (ret 1))))))))))"

section \<open>Disk requests\<close>

definition ResetTransferCount :: "('z, unit) exof" where
  "ResetTransferCount =
     thn (acquire LK_transfer)
     (thn (modify (\<lambda>s. s\<lparr>transfercount := 0\<rparr>))
     (thn (release LK_transfer)
     (thn (acquire LK_buffer)
     (thn (modify (\<lambda>s. s\<lparr>ex_queue := 0, ex_last := 0\<rparr>))
     (release LK_buffer)))))"

definition GetTransferCount :: "('z, u32) exof" where
  "GetTransferCount =
     thn (acquire LK_transfer)
     (bnd (gets transfercount) (\<lambda>temp.
      thn (release LK_transfer) (ret temp)))"

definition ideread :: "u32 \<Rightarrow> u32 \<Rightarrow> ('z, unit) diskf" where
  "ideread sector device =
     bnd (idewait False) (\<lambda>_.
     thn (outb 0x3f6 0)
     (thn (outb 0x1f2 1)
     (thn (outb 0x1f3 (ucast (sector AND 0xff)))
     (thn (outb 0x1f4 (ucast (drop_bit 8 sector AND 0xff)))
     (thn (outb 0x1f5 (ucast (drop_bit 16 sector AND 0xff)))
     (thn (outb 0x1f6 (ucast (0xe0 OR push_bit 4 (device AND 1) OR (drop_bit 24 sector AND 0x0f))))
     (thn (outb 0x1f7 IDE_CMD_READ)
     (bnd (idewait True) (\<lambda>_. ret ())))))))))"

text \<open>A word of \<^verbatim>\<open>struct buffer\<close> in the memory of the application.\<close>

definition user_word :: "u32 \<Rightarrow> ('z, u32) vmf" where
  "user_word a = bnd (user_load a 4) (\<lambda>b. ret (word32 b))"

definition ProcessBuffer :: "('z, unit) exof" where
  "ProcessBuffer =
     bnd (gets ex_queue) (\<lambda>q.
     if q = 0 then ret ()
     else
       bnd (user_word (q + 4)) (\<lambda>sector.
       bnd (user_word q) (\<lambda>device.
       ideread sector device)))"

definition ex_addbuffer :: "u32 \<Rightarrow> u32 \<Rightarrow> u32 \<Rightarrow> ('z, unit) exof" where
  "ex_addbuffer sector device location =
     thn (user_store location (bytes32 device @ bytes32 sector @ bytes32 location @ bytes32 0))
     (thn (acquire LK_buffer)
     (bnd (gets ex_queue) (\<lambda>q.
      thn (if q = 0 then modify (\<lambda>s. s\<lparr>ex_queue := location, ex_last := location\<rparr>)
           else
             bnd (gets ex_last) (\<lambda>l.
             thn (user_store (l + 12) (bytes32 location))
             (modify (\<lambda>s. s\<lparr>ex_last := location\<rparr>))))
      (release LK_buffer))))"

definition ex_ideintr :: "('z, unit) exof" where
  "ex_ideintr =
     thn (acquire LK_buffer)
     (bnd (gets ex_queue) (\<lambda>q.
      bnd (user_word (q + 8)) (\<lambda>location.
      bnd (user_word (q + 12)) (\<lambda>next.
      thn (modify (\<lambda>s. s\<lparr>ex_queue := next\<rparr>))
      (thn (whenk (next = 0) (modify (\<lambda>s. s\<lparr>ex_last := 0\<rparr>)))
      (bnd (idewait True) (\<lambda>r.
       thn (whenk (r \<ge> 0)
         (bnd insl (\<lambda>d.
          thn (user_store location d)
          (thn (acquire LK_transfer)
          (thn (modify (\<lambda>s. s\<lparr>transfercount := transfercount s + 1\<rparr>))
          (release LK_transfer))))))
       (thn (release LK_buffer)
       ProcessBuffer))))))))"

text \<open>\<open>readfile\<close> of \<^verbatim>\<open>fs.c\<close> only starts the reads.\<close>

function readfile_loop :: "nat \<Rightarrow> nat \<Rightarrow> nat \<Rightarrow> ('z, unit) inof" where
  "readfile_loop ip off n =
     (if n = 0 then ret ()
      else
        bnd (bmap ip (off div 512)) (\<lambda>a.
        bnd (the_inode ip) (\<lambda>x.
        thn (ideread a (i_dev x))
        (readfile_loop ip (off + chunk off n) (n - chunk off n)))))"
  by auto
termination
  by (relation "measure (\<lambda>(ip, off, n). n)") auto

declare readfile_loop.simps [simp del]

definition readfile :: "nat \<Rightarrow> u32 \<Rightarrow> ('z, int \<times> byte list) consf" where
  "readfile ip n =
     bnd (the_inode ip) (\<lambda>x.
     if i_type x = T_DEV then
       bnd (dev_of x) (\<lambda>dev. case dev of None \<Rightarrow> ret (-1, []) | Some Dev_Console \<Rightarrow> consoleread ip (sint n))
     else thn (readfile_loop ip 0 (unat n)) (ret (sint n, [])))"

text \<open>
  \<open>sys_ExFileRead\<close>: a request for each block of the file, and one more for the block at its end.
  The path is read from user memory without a check; a path that does not exist is a null inode.
\<close>

definition add_block :: "nat \<Rightarrow> u32 \<Rightarrow> u32 \<Rightarrow> ('z, unit) exof" where
  "add_block ip off location =
     bnd (bmap ip (unat off div 512)) (\<lambda>b.
     bnd (the_inode ip) (\<lambda>x.
     ex_addbuffer b (i_dev x) location))"

definition user_string :: "u32 \<Rightarrow> ('z, byte list) vmf" where
  "user_string a = bnd (scan_nul (2 ^ 32) a) (\<lambda>r. case r of None \<Rightarrow> diverge | Some t \<Rightarrow> ret t)"

definition sys_ExFileRead :: "('z, int) exof" where
  "sys_ExFileRead = with_arg (argint 0) (ret 0) (\<lambda>file_at.
     with_arg (argint 1) (ret 0) (\<lambda>location.
     bnd (user_string file_at) (\<lambda>path.
     bnd (namei path) (\<lambda>ip.
     thn (ilock ip)
     (case ip of None \<Rightarrow> fault ''ip'' | Some i \<Rightarrow>
        bnd (the_inode i) (\<lambda>x.
        thn (for_each [0..<(unat (i_size x) + 511) div 512]
               (\<lambda>k. add_block i (of_nat (512 * k)) (location + of_nat (512 * k))))
        (thn (add_block i (i_size x) (location + i_size x))
        (thn (iunlock (Some i))
        (bnd (the_inode i) (\<lambda>x. ret (sint (i_size x))))))))))))"

definition sys_ExReadSector :: "('z, int) exof" where
  "sys_ExReadSector = thn ProcessBuffer (ret 0)"

definition sys_ExResetTransferCount :: "('z, int) exof" where
  "sys_ExResetTransferCount = thn ResetTransferCount (ret 0)"

definition sys_ExGetTransferCount :: "('z, int) exof" where
  "sys_ExGetTransferCount = bnd GetTransferCount (\<lambda>n. ret (sint n))"

section \<open>The frames a process is offered\<close>

lemma count_free_chain: "fchain m r xs \<Longrightarrow> count_free n m r = min n (length xs)"
proof (induction n arbitrary: r xs)
  case (Suc n)
  then show ?case by (cases xs) auto
qed simp

text \<open>
  C40. The offer of frames. \<open>sys_ExGetFrame\<close> returns the first free page when at least as many
  pages are free as the process asks for, and 0 otherwise; it takes no page off the free list, so
  that the next \<open>kalloc\<close> of the kernel hands out the page the process was told to use.
\<close>

theorem ExGetFrame_reserves_nothing:
  assumes "kmem_ok s xs" and "argint 0 s = Ok (Some n) s"
  shows "sys_ExGetFrame s = Ok (if 0 \<le> sint n \<and> sint n \<le> int (length xs) then sint (freelist s) else 0) s \<and>
    (\<exists>t. kalloc s = Ok (freelist s) t)"
proof
  have "fchain (mem s) (freelist s) xs" using assms(1) by (simp add: kmem_ok_def)
  then have c: "count_free (nat (sint n)) (mem s) (freelist s) = min (nat (sint n)) (length xs)" by (rule count_free_chain)
  have e: "int (min (nat (sint n)) (length xs)) = sint n \<longleftrightarrow> 0 \<le> sint n \<and> sint n \<le> int (length xs)" by auto
  show "sys_ExGetFrame s = Ok (if 0 \<le> sint n \<and> sint n \<le> int (length xs) then sint (freelist s) else 0) s"
    unfolding e [symmetric] using assms(2) c by (simp add: sys_ExGetFrame_def with_arg_def getfreelist_def)
  show "\<exists>t. kalloc s = Ok (freelist s) t"
  proof (cases xs)
    case Nil
    then show ?thesis using assms(1) kalloc_Nil [of s] by (simp add: kmem_ok_def)
  next
    case (Cons x ys)
    then show ?thesis using assms(1) kalloc_Cons(1) [of s x ys] by (simp add: kmem_ok_def)
  qed
qed

text \<open>A process that asks for one frame, with one page free.\<close>

definition frame_mem :: mem where
  "frame_mem = (\<lambda>_. 1)(0x81010005 := 0, 0x81010006 := 0, 0x81010007 := 0,
     0x80200000 := 0, 0x80200001 := 0, 0x80200002 := 0, 0x80200003 := 0)"

definition frame_user :: exos where
  "frame_user = (procs_state.extend user0 (exos.fields True 0 0 0))\<lparr>mem := frame_mem, freelist := 0x80200000, kend := 0x80200000, use_lock := True\<rparr>"

lemma frame_user_curp: "curp frame_user = Ok ((mkproc 1 RUNNING)\<lparr>p_sz := 0x2000000\<rparr>) frame_user"
proof -
  have "curproc frame_user = Some 0" "ptable frame_user = [(mkproc 1 RUNNING)\<lparr>p_sz := 0x2000000\<rparr>]"
    using procs_state0_simps by (simp_all add: frame_user_def user0_def procs_state.defs exos.defs del: procs_state0_simps)
  then show ?thesis by (simp add: curp_def myproc_def)
qed

lemma frame_user_arg: "argint 0 frame_user = Ok (Some 1) frame_user"
proof -
  have "user_byte va frame_user = Ok (frame_mem (0x81010000 + va)) frame_user" if "va \<in> {4, 5, 6, 7}" for va
  proof -
    have "PDX va = 0" "PTX va = 0" "PGROUNDDOWN va = 0" using that by (auto simp: PDX_def PTX_def PGROUNDDOWN_def)
    moreover have "mem frame_user = frame_mem" by (simp add: frame_user_def)
    moreover have "ld32 frame_mem 0x80100000 = 0x01010101" "ld32 frame_mem 0x81010000 = 0x01010101"
      by (simp_all add: ld32_def mk32_def frame_mem_def)
    moreover have "p2v (PTE_ADDR 0x01010101) = 0x81010000" by (simp add: p2v_def PTE_ADDR_def)
    ultimately show ?thesis
      by (simp add: user_byte_def user_at_def frame_user_curp translate_def pde_def pte_at_def tab_def present_def mkproc_def proc0_def)
  qed
  then have "user_load 4 (Suc (Suc (Suc (Suc 0)))) frame_user = Ok [1, 0, 0, 0] frame_user" by (simp add: frame_mem_def)
  moreover have "Suc (Suc (Suc (Suc 0))) = 4" by simp
  ultimately have "user_load 4 4 frame_user = Ok [1, 0, 0, 0] frame_user" by (simp only:)
  then show ?thesis
    by (simp add: argint_def fetchint_def frame_user_curp mkproc_def proc0_def word32_def mk32_def)
qed

theorem ExGetFrame_reserves_nothing_witness:
  "sys_ExGetFrame frame_user = Ok (sint (0x80200000 :: u32)) frame_user \<and> (\<exists>t. kalloc frame_user = Ok 0x80200000 t)"
proof -
  have f: "freelist frame_user = 0x80200000" by (simp add: frame_user_def)
  have "held frame_user = held procs_state0" by (simp add: frame_user_def user0_def procs_state.defs exos.defs del: procs_state0_simps)
  then have "held frame_user = []" by simp
  then have "kmem_ok frame_user [0x80200000]"
    by (simp add: kmem_ok_def frame_user_def valid_page_def v2p_def ld32_def mk32_def frame_mem_def)
  then show ?thesis using ExGetFrame_reserves_nothing [OF _ frame_user_arg, of "[0x80200000]"] f by simp
qed

end
