(* ===== verification/Trap.thy ===== *)
theory Trap
  imports Exokernel
begin

unbundle bit_operations_syntax

text \<open>
  Traps: the descriptors of \<^verbatim>\<open>mmu.h\<close>, the interrupt table and the dispatch of \<^verbatim>\<open>trap.c\<close>, the
  system call table of \<^verbatim>\<open>syscall.c\<close>. \<open>trap\<close> is modelled up to the point where it leaves the
  processor, in \<open>exit\<close> or \<open>yield\<close>; \<open>trap_resume\<close> is what it does after \<open>yield\<close>.
\<close>

section \<open>Descriptors\<close>

record segdesc =
  sd_lim_15_0 :: u32
  sd_base_15_0 :: u32
  sd_base_23_16 :: u32
  sd_type :: u32
  sd_s :: u32
  sd_dpl :: u32
  sd_p :: u32
  sd_lim_19_16 :: u32
  sd_avl :: u32
  sd_rsv1 :: u32
  sd_db :: u32
  sd_g :: u32
  sd_base_31_24 :: u32

definition SEG :: "u32 \<Rightarrow> u32 \<Rightarrow> u32 \<Rightarrow> u32 \<Rightarrow> segdesc" where
  "SEG type base lim dpl = \<lparr>sd_lim_15_0 = drop_bit 12 lim AND 0xffff, sd_base_15_0 = base AND 0xffff,
     sd_base_23_16 = drop_bit 16 base AND 0xff, sd_type = type, sd_s = 1, sd_dpl = dpl, sd_p = 1,
     sd_lim_19_16 = drop_bit 28 lim, sd_avl = 0, sd_rsv1 = 0, sd_db = 1, sd_g = 1, sd_base_31_24 = drop_bit 24 base\<rparr>"

record gatedesc =
  gd_off_15_0 :: u32
  gd_cs :: u32
  gd_args :: u32
  gd_rsv1 :: u32
  gd_type :: u32
  gd_s :: u32
  gd_dpl :: u32
  gd_p :: u32
  gd_off_31_16 :: u32

definition SETGATE :: "bool \<Rightarrow> u32 \<Rightarrow> u32 \<Rightarrow> u32 \<Rightarrow> gatedesc" where
  "SETGATE istrap sel off d = \<lparr>gd_off_15_0 = off AND 0xffff, gd_cs = sel, gd_args = 0, gd_rsv1 = 0,
     gd_type = (if istrap then 0xF else 0xE), gd_s = 0, gd_dpl = d, gd_p = 1, gd_off_31_16 = drop_bit 16 off\<rparr>"

text \<open>\<open>cpu_at\<close> is the address of the field \<open>cpu\<close> of an entry of \<open>cpus\<close>; \<open>gdtr\<close> is the table in use.\<close>

record traps = exos +
  idt :: "gatedesc list"
  gdts :: "nat \<Rightarrow> nat \<Rightarrow> segdesc"
  gdtr :: nat
  cpuid :: nat
  cpu_at :: "nat \<Rightarrow> u32"
  cr2 :: u32

type_synonym ('z, 'a) trapf = "('z traps_scheme, 'a) kfun"

definition seginit :: "('z, unit) trapf" where
  "seginit =
     bnd cpunum (\<lambda>c.
     bnd (gets cpu_at) (\<lambda>ca.
     let i = unat c in
     thn (modify (\<lambda>s. s\<lparr>gdts := (gdts s)(i := (gdts s i)(
        1 := SEG (0x8 OR 0x2) 0 0xffffffff 0,
        2 := SEG 0x2 0 0xffffffff 0,
        4 := SEG (0x8 OR 0x2) 0 0xffffffff 3,
        5 := SEG 0x2 0 0xffffffff 3,
        3 := SEG 0x2 (ca i) 8 0))\<rparr>))
     (thn (modify (\<lambda>s. s\<lparr>gdtr := i\<rparr>))
     (modify (\<lambda>s. s\<lparr>cpuid := i, curproc := None\<rparr>)))))"

definition tvinit :: "u32 list \<Rightarrow> ('z, unit) trapf" where
  "tvinit vectors =
     thn (for_each [0..<256] (\<lambda>i. modify (\<lambda>s. s\<lparr>idt := (idt s)[i := SETGATE False 8 (vectors ! i) 0]\<rparr>)))
     (modify (\<lambda>s. s\<lparr>idt := (idt s)[64 := SETGATE True 8 (vectors ! 64) 3]\<rparr>))"

section \<open>System calls\<close>

definition syscalls :: "int \<Rightarrow> ('z, int) exof option" where
  "syscalls num =
     (if num = 1 then Some sys_fork
      else if num = 2 then Some sys_exit
      else if num = 3 then Some sys_wait
      else if num = 4 then Some sys_pipe
      else if num = 5 then Some sys_read
      else if num = 6 then Some sys_kill
      else if num = 7 then Some sys_exec
      else if num = 8 then Some sys_fstat
      else if num = 9 then Some sys_chdir
      else if num = 10 then Some sys_dup
      else if num = 11 then Some sys_getpid
      else if num = 12 then Some sys_sbrk
      else if num = 13 then Some sys_sleep
      else if num = 14 then Some sys_uptime
      else if num = 15 then Some sys_open
      else if num = 16 then Some sys_write
      else if num = 17 then Some sys_mknod
      else if num = 18 then Some sys_unlink
      else if num = 19 then Some sys_link
      else if num = 20 then Some sys_mkdir
      else if num = 21 then Some sys_close
      else if num = 22 then Some sys_ExGetVA
      else if num = 23 then Some sys_ExGetFrame
      else if num = 24 then Some sys_ExGetPDE
      else if num = 25 then Some sys_ExGetPTE
      else if num = 26 then Some sys_ExAddPage
      else if num = 27 then Some sys_ExFileRead
      else if num = 28 then Some sys_ExRegister
      else if num = 29 then Some sys_ExReadSector
      else if num = 30 then Some sys_ExResetTransferCount
      else if num = 31 then Some sys_ExGetTransferCount
      else None)"

definition set_eax :: "u32 \<Rightarrow> ('z, unit) core" where
  "set_eax v = bnd myproc (\<lambda>me. upd_proc me (\<lambda>p. p\<lparr>p_tf := (p_tf p)\<lparr>tf_eax := v\<rparr>\<rparr>))"

text \<open>After \<open>sys_exit\<close> the processor has no current process: the call does not return.\<close>

definition syscall :: "('z, unit) exof" where
  "syscall =
     bnd curp (\<lambda>p.
     case syscalls (sint (tf_eax (p_tf p))) of
       Some f \<Rightarrow> bnd f (\<lambda>r. bnd (gets curproc) (\<lambda>cp. whenk (cp \<noteq> None) (set_eax (word_of_int r))))
     | None \<Rightarrow>
         thn (cprintf_to (Some (chars ''%d %s: unknown sys call %d'' @ [10]))
               [PInt (p_pid p), PStr (Some (p_name p)), PInt (tf_eax (p_tf p))])
         (set_eax (-1)))"

section \<open>Dispatch\<close>

definition killed :: "('z, bool) core" where
  "killed = bnd curp (\<lambda>p. ret (p_killed p))"

text \<open>The test at the end of \<open>trap\<close>: does the current process have to exit before it returns to user space?\<close>

definition must_exit :: "trapframe \<Rightarrow> ('z, bool) core" where
  "must_exit tf =
     bnd (gets curproc) (\<lambda>cp. if cp = None then ret False
     else bnd killed (\<lambda>k. ret (k \<and> tf_cs tf AND 3 = 3)))"

definition trap_syscall :: "trapframe \<Rightarrow> ('z, unit) exof" where
  "trap_syscall tf =
     bnd killed (\<lambda>k. if k then exit
     else
       bnd myproc (\<lambda>me.
       thn (upd_proc me (\<lambda>p. p\<lparr>p_tf := tf\<rparr>))
       (thn syscall
       (bnd (gets curproc) (\<lambda>cp. if cp = None then ret ()
        else bnd killed (\<lambda>k. if k then exit else ret ()))))))"

text \<open>The handlers of the interrupts and of unexpected traps.\<close>

definition trap_timer :: "('z, unit) trapf" where
  "trap_timer =
     bnd (gets cpuid) (\<lambda>c.
     thn (whenk (c = 0)
       (thn (acquire LK_ticks)
       (thn (modify (\<lambda>s. s\<lparr>ticks := ticks s + 1\<rparr>))
       (thn (wakeup CH_ticks)
       (release LK_ticks)))))
     lapiceoi)"

definition trap_other :: "trapframe \<Rightarrow> ('z, unit) trapf" where
  "trap_other tf =
     bnd (gets curproc) (\<lambda>cp.
     bnd (gets cpuid) (\<lambda>c.
     bnd (gets cr2) (\<lambda>addr.
     if cp = None \<or> tf_cs tf AND 3 = 0 then
       thn (cprintf_to (Some (chars ''unexpected trap %d from cpu %d eip %x (cr2=0x%x)'' @ [10]))
             [PInt (tf_trapno tf), PInt (of_nat c), PInt (tf_eip tf), PInt addr])
       (panic ''trap'')
     else
       bnd curp (\<lambda>p.
       thn (cprintf_to (Some (chars ''pid %d %s: trap %d err %d on cpu %d eip 0x%x addr 0x%x--kill proc'' @ [10]))
             [PInt (p_pid p), PStr (Some (p_name p)), PInt (tf_trapno tf), PInt (tf_err tf), PInt (of_nat c),
              PInt (tf_eip tf), PInt addr])
       (bnd myproc (\<lambda>me. upd_proc me (\<lambda>p. p\<lparr>p_killed := True\<rparr>)))))))"

definition trap_irq :: "trapframe \<Rightarrow> ('z, unit) trapf" where
  "trap_irq tf =
     (if tf_trapno tf = 32 + 0 then trap_timer
      else if tf_trapno tf = 32 + 14 then thn (ideintr ex_ideintr) lapiceoi
      else if tf_trapno tf = 32 + 14 + 1 then ret ()
      else if tf_trapno tf = 32 + 1 then thn kbdintr lapiceoi
      else if tf_trapno tf = 32 + 4 then thn uartintr lapiceoi
      else if tf_trapno tf = 32 + 7 \<or> tf_trapno tf = 32 + 31 then
        bnd (gets cpuid) (\<lambda>c.
        thn (cprintf_to (Some (chars ''cpu%d: spurious interrupt at %x:%x'' @ [10]))
              [PInt (of_nat c), PInt (ucast (tf_cs tf)), PInt (tf_eip tf)])
        lapiceoi)
      else trap_other tf)"

definition trap :: "trapframe \<Rightarrow> ('z, unit) trapf" where
  "trap tf =
     (if tf_trapno tf = 64 then trap_syscall tf
      else
        thn (trap_irq tf)
        (bnd (must_exit tf) (\<lambda>e. if e then exit
         else
           bnd (gets curproc) (\<lambda>cp. if cp = None then ret ()
           else
             bnd curp (\<lambda>p.
             if p_state p = RUNNING \<and> tf_trapno tf = 32 + 0 then yield
             else bnd (must_exit tf) (\<lambda>e. if e then exit else ret ()))))))"

definition trap_resume :: "trapframe \<Rightarrow> ('z, unit) trapf" where
  "trap_resume tf = thn yield_resume (bnd (must_exit tf) (\<lambda>e. if e then exit else ret ()))"

section \<open>Properties of Trap\<close>

lemma lapiceoi_frame: "\<exists>r l. lapiceoi s = Ok () (s\<lparr>lapic_regs := r, lapic_log := l\<rparr>)"
proof (cases "lapic s = 0")
  case True
  have "s = s\<lparr>lapic_regs := lapic_regs s, lapic_log := lapic_log s\<rparr>" by (cases s) simp
  moreover have "lapiceoi s = Ok () s" using True by (simp add: lapiceoi_def)
  ultimately show ?thesis by metis
next
  case False
  then have "lapiceoi s = Ok () (s\<lparr>lapic_regs := (lapic_regs s)(0x00B0 div 4 := 0), lapic_log := lapic_log s @ [(0x00B0 div 4, 0)]\<rparr>)"
    by (simp add: lapiceoi_def lapicw_def)
  then show ?thesis by blast
qed

text \<open>A processor in the kernel, with two processes.\<close>

definition traps0 :: traps where
  "traps0 = exos.extend (procs_state.extend procs_state0 (exos.fields False 0 0 0))
     (traps.fields [] (\<lambda>_ _. SEG 0 0 0 0) 0 0 (\<lambda>_. 0) 0)"

lemma traps0_simps [simp]: "held traps0 = []" "cpuid traps0 = 0" "screen_ok traps0" "curproc traps0 = Some 0"
  "ptable traps0 = [mkproc 1 RUNNING, mkproc 2 RUNNABLE]"
proof -
  have "held traps0 = held files0" "curproc traps0 = curproc files0" "ptable traps0 = ptable files0"
    "screen_ok traps0 = screen_ok files0" "cpuid traps0 = 0"
    by (simp_all add: traps0_def procs_state0_def files.defs procs_state.defs exos.defs traps.defs screen_ok_def)
  moreover have "screen_ok files0 = screen_ok cons0" by (simp add: files0_def conss.defs files.defs screen_ok_def)
  ultimately show "held traps0 = []" "cpuid traps0 = 0" "screen_ok traps0" "curproc traps0 = Some 0"
    "ptable traps0 = [mkproc 1 RUNNING, mkproc 2 RUNNABLE]" by simp_all
qed

text \<open>
  C35. A tick of the clock. The timer interrupt on the first processor advances the tick count,
  modulo \<open>2 ^ 32\<close>, and makes every process runnable that sleeps for ticks; no other process
  changes. A sleeper that then looks at the count returns when the number of ticks since
  it began, modulo \<open>2 ^ 32\<close>, has reached what it asked for.
\<close>

theorem tick_wakes_sleepers:
  assumes "held s = []" and "cpuid s = 0"
  shows "\<exists>t. trap_timer s = Ok () t \<and> ticks t = ticks s + 1 \<and> held t = [] \<and> ptable t = woken CH_ticks (ptable s) \<and>
    (\<forall>t0 n. \<not> ticks t - t0 < n \<longrightarrow> thn (acquire LK_ticks) (sys_sleep_loop t0 n) t = Ok 0 t)"
proof -
  let ?t = "s\<lparr>ticks := ticks s + 1, ptable := woken CH_ticks (ptable s)\<rparr>"
  have e: "s\<lparr>held := [], ticks := a, ptable := b\<rparr> = s\<lparr>ticks := a, ptable := b\<rparr>" for a b using assms(1) by (cases s) simp
  have "thn (acquire LK_ticks) (thn (modify (\<lambda>s. s\<lparr>ticks := ticks s + 1\<rparr>)) (thn (wakeup CH_ticks) (release LK_ticks))) s = Ok () ?t"
    using assms(1) e by (simp add: acquire_Ok wakeup_woken release_Ok)
  moreover obtain r l where l: "lapiceoi ?t = Ok () (?t\<lparr>lapic_regs := r, lapic_log := l\<rparr>)" using lapiceoi_frame by blast
  ultimately have run: "trap_timer s = Ok () (?t\<lparr>lapic_regs := r, lapic_log := l\<rparr>)"
    using assms(2) unfolding trap_timer_def by simp
  let ?u = "?t\<lparr>lapic_regs := r, lapic_log := l\<rparr>"
  have h: "held ?u = []" "?u\<lparr>held := []\<rparr> = ?u" using assms(1) by (simp, cases s, simp)
  have "thn (acquire LK_ticks) (sys_sleep_loop t0 n) ?u = Ok 0 ?u" if "\<not> ticks ?u - t0 < n" for t0 n
  proof -
    have "sys_sleep_loop t0 n (?u\<lparr>held := [LK_ticks]\<rparr>) = Ok 0 (?u\<lparr>held := []\<rparr>)"
      using that by (simp add: sys_sleep_loop_def release_Ok)
    then show ?thesis using h by (simp add: acquire_Ok)
  qed
  moreover have "ticks ?u = ticks s + 1" "ptable ?u = woken CH_ticks (ptable s)" by simp_all
  ultimately show ?thesis using run h(1) by blast
qed

theorem tick_wakes_sleepers_witness:
  "\<exists>t. trap_timer (traps0\<lparr>ptable := [mkproc 1 RUNNING, (mkproc 2 SLEEPING)\<lparr>p_chan := Some CH_ticks\<rparr>]\<rparr>) = Ok () t \<and>
    p_state (ptable t ! 1) = RUNNABLE \<and> p_state (ptable t ! 0) = RUNNING"
  using tick_wakes_sleepers [of "traps0\<lparr>ptable := [mkproc 1 RUNNING, (mkproc 2 SLEEPING)\<lparr>p_chan := Some CH_ticks\<rparr>]\<rparr>"]
  by (auto simp: woken_def mkproc_def)

lemma syscalls_range: "syscalls num \<noteq> None \<longleftrightarrow> 1 \<le> num \<and> num \<le> 31"
proof
  assume "1 \<le> num \<and> num \<le> 31"
  then show "syscalls num \<noteq> None" by (simp add: syscalls_def) presburger
next
  assume "syscalls num \<noteq> None"
  then show "1 \<le> num \<and> num \<le> 31" by (auto simp: syscalls_def split: if_splits)
qed

lemma unknown_call_text:
  "\<exists>out. cprintf_out (chars ''%d %s: unknown sys call %d'' @ [10]) [PInt a, PStr (Some n), PInt b] = Some out"
  by (simp add: chars_def of_char_def)

lemma cprintf_to_Ok:
  assumes "cprintf_out fmt as = Some out" and "screen_ok s" and "LK_cons \<notin> set (held s)"
  shows "\<exists>t. cprintf_to (Some fmt) as s = Ok () t \<and> out_frame s t"
proof (cases "cons_locking s")
  case False
  then show ?thesis using assms consputs_Ok [OF assms(2), of out] by (auto simp: cprintf_to_def)
next
  case True
  let ?s = "s\<lparr>held := LK_cons # held s\<rparr>"
  have "screen_ok ?s" using assms(2) by (simp add: screen_ok_def)
  then obtain t where t: "consputs out ?s = Ok () t" "out_frame ?s t" using consputs_Ok by blast
  from t(2) obtain m p u where tt: "t = ?s\<lparr>crt := m, crt_pos := p, uart_out := u\<rparr>" by (auto simp: out_frame_iff)
  have "cprintf_to (Some fmt) as s = Ok () (s\<lparr>crt := m, crt_pos := p, uart_out := u\<rparr>)"
  proof -
    have "t\<lparr>held := held s\<rparr> = s\<lparr>crt := m, crt_pos := p, uart_out := u\<rparr>" unfolding tt by (cases s) simp
    moreover have "release LK_cons t = Ok () (t\<lparr>held := held s\<rparr>)" by (rule release_Ok) (simp add: tt)
    ultimately show ?thesis using True assms(1,3) t(1) by (simp add: cprintf_to_def acquire_Ok)
  qed
  then show ?thesis by (auto simp: out_frame_iff)
qed

text \<open>
  C36. The system call table. Exactly the numbers 1 to 31 have a system call. Any other number in
  \<open>eax\<close> is reported on the console with the process that used it, and the process gets the result
  \<open>-1\<close>; nothing else changes but the screen and the serial line.
\<close>

theorem unknown_system_call:
  fixes s :: "'z exos_scheme"
  assumes "held s = []" and "screen_ok s" and "curproc s = Some i" and "i < length (ptable s)"
    and "tf_eax (p_tf (ptable s ! i)) = num"
  shows "((syscalls (sint num) :: ('z, int) exof option) \<noteq> None \<longleftrightarrow> 1 \<le> sint num \<and> sint num \<le> 31) \<and>
    (\<not> (1 \<le> sint num \<and> sint num \<le> 31) \<longrightarrow>
      (\<exists>t. cprintf_to (Some (chars ''%d %s: unknown sys call %d'' @ [10]))
             [PInt (p_pid (ptable s ! i)), PStr (Some (p_name (ptable s ! i))), PInt num] s = Ok () t \<and>
        out_frame s t \<and>
        syscall s = Ok () (t\<lparr>ptable := (ptable s)[i := (ptable s ! i)\<lparr>p_tf := (p_tf (ptable s ! i))\<lparr>tf_eax := -1\<rparr>\<rparr>]\<rparr>)))"
proof (rule conjI)
  show "(syscalls (sint num) :: ('z, int) exof option) \<noteq> None \<longleftrightarrow> 1 \<le> sint num \<and> sint num \<le> 31" by (rule syscalls_range)
  let ?p = "ptable s ! i"
  let ?report = "cprintf_to (Some (chars ''%d %s: unknown sys call %d'' @ [10])) [PInt (p_pid ?p), PStr (Some (p_name ?p)), PInt num]"
  let ?ps = "(ptable s)[i := ?p\<lparr>p_tf := (p_tf ?p)\<lparr>tf_eax := -1\<rparr>\<rparr>]"
  show "\<not> (1 \<le> sint num \<and> sint num \<le> 31) \<longrightarrow>
    (\<exists>t. ?report s = Ok () t \<and> out_frame s t \<and> syscall s = Ok () (t\<lparr>ptable := ?ps\<rparr>))"
  proof
    assume "\<not> (1 \<le> sint num \<and> sint num \<le> 31)"
    then have n: "(syscalls (sint num) :: ('z, int) exof option) = None" using syscalls_range by blast
    obtain out where o: "cprintf_out (chars ''%d %s: unknown sys call %d'' @ [10]) [PInt (p_pid ?p), PStr (Some (p_name ?p)), PInt num] = Some out"
      using unknown_call_text by blast
    obtain t where t: "?report s = Ok () t" "out_frame s t"
      using cprintf_to_Ok [OF o assms(2)] assms(1) by auto
    from t(2) have ct: "curproc t = curproc s" "ptable t = ptable s" by (auto simp: out_frame_iff)
    have "syscall s = Ok () (t\<lparr>ptable := ?ps\<rparr>)"
      using assms(3-5) n t(1) ct by (simp add: syscall_def curp_def myproc_def set_eax_def upd_proc_def)
    then show "\<exists>t. ?report s = Ok () t \<and> out_frame s t \<and> syscall s = Ok () (t\<lparr>ptable := ?ps\<rparr>)" using t by blast
  qed
qed

theorem unknown_system_call_witness:
  "\<exists>t. syscall (traps0\<lparr>ptable := [(mkproc 1 RUNNING)\<lparr>p_tf := (p_tf proc0)\<lparr>tf_eax := 77\<rparr>\<rparr>]\<rparr>) = Ok () t \<and>
    tf_eax (p_tf (ptable t ! 0)) = -1"
proof -
  let ?s = "traps0\<lparr>ptable := [(mkproc 1 RUNNING)\<lparr>p_tf := (p_tf proc0)\<lparr>tf_eax := 77\<rparr>\<rparr>]\<rparr>"
  have "screen_ok ?s = screen_ok traps0" by (simp add: screen_ok_def)
  then show ?thesis using unknown_system_call [of ?s 0 77] by auto
qed

end
