(* ===== verification/Boot.thy ===== *)
theory Boot
  imports Trap
begin

unbundle bit_operations_syntax

text \<open>
  The start of the kernel, \<^verbatim>\<open>main.c\<close>: the calls of the initialisers on the first processor and the
  start of the others. What the linker provides is an argument: the vectors of \<^verbatim>\<open>vectors.pl\<close>, the
  images of \<^verbatim>\<open>entryother.S\<close> and \<^verbatim>\<open>initcode.S\<close>, and addresses of symbols. The other processors run
  \<open>mpenter\<close> by themselves; \<open>comes_up\<close> says which of them answer.
\<close>

section \<open>State\<close>

record boots = traps +
  idtr :: bool
  started :: "nat \<Rightarrow> bool"

type_synonym ('z, 'a) bootf = "('z boots_scheme, 'a) kfun"

record image =
  im_vectors :: "u32 list"
  im_entryother :: "byte list"
  im_initcode :: "byte list"
  im_mpenter :: u32
  im_entrypgdir :: u32

section \<open>A processor\<close>

definition idtinit :: "('z, unit) bootf" where
  "idtinit = modify (\<lambda>s. s\<lparr>idtr := True\<rparr>)"

definition mpmain :: "('z, nat option) bootf" where
  "mpmain =
     bnd (gets cpuid) (\<lambda>c.
     thn (cprintf_to (Some (chars ''cpu%d: starting'' @ [10])) [PInt (of_nat c)])
     (thn idtinit
     (thn (modify (\<lambda>s. s\<lparr>started := (started s)(c := True)\<rparr>))
     scheduler)))"

definition mpenter :: "('z, nat option) bootf" where
  "mpenter = thn switchkvm (thn seginit (thn lapicinit mpmain))"

section \<open>The other processors\<close>

definition start_one :: "image \<Rightarrow> (nat \<Rightarrow> bool) \<Rightarrow> nat \<Rightarrow> ('z, unit) bootf" where
  "start_one im comes_up c =
     bnd cpunum (\<lambda>me.
     if c = unat me then ret ()
     else
       bnd kalloc (\<lambda>stack.
       thn (modify (\<lambda>s. s\<lparr>mem := st32 (mem s) (p2v 0x7000 - 4) (stack + KSTACKSIZE)\<rparr>))
       (thn (modify (\<lambda>s. s\<lparr>mem := st32 (mem s) (p2v 0x7000 - 8) (im_mpenter im)\<rparr>))
       (thn (modify (\<lambda>s. s\<lparr>mem := st32 (mem s) (p2v 0x7000 - 12) (v2p (im_entrypgdir im))\<rparr>))
       (bnd (gets (\<lambda>s. cpu_ids s ! c)) (\<lambda>id.
        thn (lapicstartap id (v2p (p2v 0x7000)))
        (if comes_up c then modify (\<lambda>s. s\<lparr>started := (started s)(c := True)\<rparr>) else diverge)))))))"

definition startothers :: "image \<Rightarrow> (nat \<Rightarrow> bool) \<Rightarrow> ('z, unit) bootf" where
  "startothers im comes_up =
     thn (modify (\<lambda>s. s\<lparr>mem := wr_bytes (mem s) (p2v 0x7000) (im_entryother im)\<rparr>))
     (bnd (gets ncpu) (\<lambda>n.
      for_each [0..<n] (start_one im comes_up)))"

section \<open>The first processor\<close>

text \<open>The initialisers \<open>pinit\<close>, \<open>fileinit\<close> and \<open>iinit\<close> only initialise locks. \<open>st\<close> is the status of the serial port.\<close>

definition main :: "image \<Rightarrow> byte \<Rightarrow> (nat \<Rightarrow> bool) \<Rightarrow> ('z, nat option) bootf" where
  "main im st comes_up =
     bnd (gets kend) (\<lambda>e.
     thn (cprintf_to (Some (chars ''Kernel Setup at: %x'' @ [10])) [PInt e])
     (thn (kinit1 e (p2v (4 * 1024 * 1024)))
     (thn kvmalloc
     (thn mpinit
     (thn lapicinit
     (thn seginit
     (bnd (gets cpuid) (\<lambda>c.
      thn (cprintf_to (Some (chars ''Kernel Setup at: %x'' @ [10])) [PInt (v2p e)])
      (thn (cprintf_to (Some ([10] @ chars ''cpu%d: starting xv6'' @ [10, 10])) [PInt (of_nat c)])
      (thn initframes
      (thn picinit
      (thn ioapicinit
      (thn consoleinit
      (thn (uartinit st)
      (thn (tvinit (im_vectors im))
      (thn binit
      (thn ideinit
      (bnd (gets ismp) (\<lambda>mp.
       thn (whenk (\<not> mp) timerinit)
       (thn (startothers im comes_up)
       (thn (kinit2 (p2v (4 * 1024 * 1024)) (p2v PHYSTOP))
       (thn (userinit (im_initcode im))
       mpmain))))))))))))))))))))))"

text \<open>On a machine with one processor \<open>startothers\<close> only copies the code for the others.\<close>

lemma startothers_one:
  assumes "ncpu s = 1" and "lapic s = 0"
  shows "startothers im up s = Ok () (s\<lparr>mem := wr_bytes (mem s) (p2v 0x7000) (im_entryother im)\<rparr>)"
  using assms by (simp add: startothers_def start_one_def cpunum_def)

text \<open>With more of them every processor but the first one must come up, or the kernel waits for ever.\<close>

lemma startothers_waits:
  assumes "cpunum s = Ok 0 s" and "c \<noteq> 0" and "\<not> up c" and "kmem_ok s xs"
  shows "start_one im up c s = Diverge"
proof -
  obtain p t where "kalloc s = Ok p t" using assms(4) kalloc_Nil kalloc_Cons(1) by (cases xs) blast+
  then show ?thesis using assms(1-3)
    by (simp add: start_one_def lapicstartap_def lapicw_def outb_def eval_nat_numeral)
qed

end
