(* ===== verification/User_Lib.thy ===== *)
theory User_Lib
  imports Console
begin

text \<open>
  The library that user programs are linked with: \<^verbatim>\<open>ulib.c\<close> and \<^verbatim>\<open>printf.c\<close>. The routines that write
  to memory work on a byte-addressed memory, those that only read a string take it as a list
  without its NUL. System calls are arguments of the definitions: their results, or the operations.
\<close>

section \<open>Strings and memory\<close>

text \<open>The loop of \<open>strcpy\<close> ends at the NUL; \<open>None\<close> when there is none in the whole address space.\<close>

primrec strcpy_from :: "nat \<Rightarrow> mem \<Rightarrow> u32 \<Rightarrow> u32 \<Rightarrow> mem option" where
  "strcpy_from 0 m s t = None"
| "strcpy_from (Suc n) m s t =
     (if m t = 0 then Some (m(s := m t)) else strcpy_from n (m(s := m t)) (s + 1) (t + 1))"

definition strcpy :: "mem \<Rightarrow> u32 \<Rightarrow> u32 \<Rightarrow> mem option" where
  "strcpy m s t = strcpy_from (2 ^ 32) m s t"

fun strcmp :: "byte list \<Rightarrow> byte list \<Rightarrow> int" where
  "strcmp [] [] = 0"
| "strcmp [] (d # q) = - uint d"
| "strcmp (c # p) [] = uint c"
| "strcmp (c # p) (d # q) = (if c = d then strcmp p q else uint c - uint d)"

primrec strchr :: "byte list \<Rightarrow> byte \<Rightarrow> nat option" where
  "strchr [] c = None"
| "strchr (d # s) c = (if d = c then Some 0 else map_option Suc (strchr s c))"

definition ulib_memset :: "mem \<Rightarrow> u32 \<Rightarrow> u32 \<Rightarrow> u32 \<Rightarrow> mem" where
  "ulib_memset m dst c n = stosb m dst (ucast c) (unat n)"

definition ulib_memmove :: "mem \<Rightarrow> u32 \<Rightarrow> u32 \<Rightarrow> int \<Rightarrow> mem" where
  "ulib_memmove m vdst vsrc n = copy_up m vdst vsrc (nat n)"

section \<open>Input\<close>

text \<open>
  \<open>gets\<close>: the string it leaves in the buffer and the input it has not read. \<open>inp\<close> are the
  characters that successive calls of \<open>read\<close> deliver.
\<close>

fun gets_loop :: "nat \<Rightarrow> byte list \<Rightarrow> byte list \<times> byte list" where
  "gets_loop 0 inp = ([], inp)"
| "gets_loop (Suc n) [] = ([], [])"
| "gets_loop (Suc n) (c # inp) =
     (if c = 10 \<or> c = 13 then ([c], inp) else (let (r, rest) = gets_loop n inp in (c # r, rest)))"

definition ugets :: "int \<Rightarrow> byte list \<Rightarrow> byte list \<times> byte list" where
  "ugets n inp = gets_loop (nat (n - 1)) inp"

definition ustat :: "(byte list \<Rightarrow> ('s, int) kfun) \<Rightarrow> (int \<Rightarrow> ('s, int) kfun) \<Rightarrow> (int \<Rightarrow> ('s, int) kfun) \<Rightarrow> byte list \<Rightarrow> ('s, int) kfun" where
  "ustat open_sys fstat_sys close_sys n =
     bnd (open_sys n) (\<lambda>fd.
     if fd < 0 then ret (-1)
     else
       bnd (fstat_sys fd) (\<lambda>r.
       bnd (close_sys fd) (\<lambda>_. ret r)))"

primrec atoi_from :: "u32 \<Rightarrow> byte list \<Rightarrow> u32" where
  "atoi_from n [] = n"
| "atoi_from n (c # s) = (if 48 \<le> c \<and> c \<le> 57 then atoi_from (n * 10 + ucast c - 48) s else n)"

definition atoi :: "byte list \<Rightarrow> int" where
  "atoi s = sint (atoi_from 0 s)"

section \<open>Output\<close>

definition udigit :: "nat \<Rightarrow> byte" where
  "udigit d = chars ''0123456789ABCDEF'' ! d"

function udigits :: "nat \<Rightarrow> nat \<Rightarrow> byte list" where
  "udigits base x = udigit (x mod base) # (if base < 2 \<or> x div base = 0 then [] else udigits base (x div base))"
  by auto
termination
  by (relation "measure snd") (auto simp: div_eq_0_iff not_less intro: div_less_dividend)

declare udigits.simps [simp del]

definition uprintint :: "u32 \<Rightarrow> nat \<Rightarrow> bool \<Rightarrow> byte list" where
  "uprintint xx base sign =
     (let neg = (sign \<and> sint xx < 0);
          x = (if neg then - xx else xx);
          buf = udigits base (unat x) @ (if neg then [45] else [])
      in rev buf)"

text \<open>
  The characters that \<open>printf\<close> passes to \<open>putc\<close>; \<open>pct\<close> is whether the last character was a percent
  sign that begins a directive. \<open>None\<close> when the arguments do not match the format.
\<close>

fun printf_out :: "bool \<Rightarrow> byte list \<Rightarrow> parg list \<Rightarrow> byte list option" where
  "printf_out pct [] as = Some []"
| "printf_out False (c # fmt) as =
     (if c = 37 then printf_out True fmt as else map_option (\<lambda>r. c # r) (printf_out False fmt as))"
| "printf_out True (c # fmt) as =
     (if c = of_char CHR ''d'' then
        (case as of PInt x # as' \<Rightarrow> map_option (\<lambda>r. uprintint x 10 True @ r) (printf_out False fmt as') | _ \<Rightarrow> None)
      else if c = of_char CHR ''x'' \<or> c = of_char CHR ''p'' then
        (case as of PInt x # as' \<Rightarrow> map_option (\<lambda>r. uprintint x 16 False @ r) (printf_out False fmt as') | _ \<Rightarrow> None)
      else if c = of_char CHR ''s'' then
        (case as of
           PStr (Some t) # as' \<Rightarrow> map_option (\<lambda>r. t @ r) (printf_out False fmt as')
         | PStr None # as' \<Rightarrow> map_option (\<lambda>r. chars ''(null)'' @ r) (printf_out False fmt as')
         | _ \<Rightarrow> None)
      else if c = of_char CHR ''c'' then
        (case as of PInt x # as' \<Rightarrow> map_option (\<lambda>r. ucast x # r) (printf_out False fmt as') | _ \<Rightarrow> None)
      else if c = 37 then map_option (\<lambda>r. c # r) (printf_out False fmt as)
      else map_option (\<lambda>r. 37 # c # r) (printf_out False fmt as))"

section \<open>What the routines do\<close>

lemma strcpy_from_copies:
  assumes "n < k" and "\<forall>i<n. m (t + of_nat i) \<noteq> 0" and "m (t + of_nat n) = 0"
    and "\<forall>i\<le>n. \<forall>j\<le>n. s + of_nat i \<noteq> t + of_nat j"
  shows "strcpy_from k m s t = Some (copy_up m s t (Suc n))"
  using assms
proof (induction n arbitrary: k m s t)
  case 0
  then show ?case by (cases k) (auto simp: fun_eq_iff)
next
  case (Suc n)
  obtain l where k: "k = Suc l" using Suc.prems(1) by (cases k) auto
  have "s + of_nat 0 \<noteq> t + of_nat j" if "j \<le> Suc n" for j using Suc.prems(4) that by blast
  then have ne: "s \<noteq> t + of_nat j" if "j \<le> Suc n" for j using that by simp
  have "m (t + of_nat 0) \<noteq> 0" using Suc.prems(2) by blast
  then have "m t \<noteq> 0" by simp
  moreover have "strcpy_from l (m(s := m t)) (s + 1) (t + 1) = Some (copy_up (m(s := m t)) (s + 1) (t + 1) (Suc n))"
  proof (rule Suc.IH)
    show "n < l" using Suc.prems(1) k by simp
    have e: "t + 1 + of_nat i = t + of_nat (Suc i)" "s + 1 + of_nat i = s + of_nat (Suc i)" for i by (simp_all add: algebra_simps)
    show "\<forall>i<n. (m(s := m t)) (t + 1 + of_nat i) \<noteq> 0" unfolding e
    proof (intro allI impI)
      fix i assume "i < n"
      then have "m (t + of_nat (Suc i)) \<noteq> 0" "s \<noteq> t + of_nat (Suc i)" using Suc.prems(2) ne [of "Suc i"] by auto
      then show "(m(s := m t)) (t + of_nat (Suc i)) \<noteq> 0" by simp
    qed
    show "(m(s := m t)) (t + 1 + of_nat n) = 0" using Suc.prems(3) ne [of "Suc n"] unfolding e by simp
    show "\<forall>i\<le>n. \<forall>j\<le>n. s + 1 + of_nat i \<noteq> t + 1 + of_nat j" unfolding e using Suc.prems(4) by (simp del: of_nat_Suc)
  qed
  ultimately show ?case by (simp add: k)
qed

lemma strcmp_eq_0: "strcmp p q = 0 \<longleftrightarrow> p = q" if "0 \<notin> set p" "0 \<notin> set q"
  using that by (induction p q rule: strcmp.induct) (auto simp: uint_0_iff dest: word_uint_eq_iff [THEN iffD2])

lemma strchr_Some: "strchr s c = Some i \<longleftrightarrow> i < length s \<and> s ! i = c \<and> (\<forall>j<i. s ! j \<noteq> c)"
proof (induction s arbitrary: i)
  case (Cons d s)
  then show ?case by (cases i) (auto simp: less_Suc_eq_0_disj)
qed simp

lemma ulib_memmove_kernel:
  "\<not> (src < dst \<and> src + n > dst) \<Longrightarrow> ulib_memmove m dst src (int (unat n)) = memmove m dst src n"
  by (auto simp: ulib_memmove_def memmove_def)

lemma gets_loop_line:
  "gets_loop n inp = (r, rest) \<Longrightarrow> inp = r @ rest \<and> length r \<le> n \<and> (\<forall>c \<in> set (butlast r). c \<noteq> 10 \<and> c \<noteq> 13)"
proof (induction n inp arbitrary: r rule: gets_loop.induct)
  case (3 n c inp)
  show ?case
  proof (cases "c = 10 \<or> c = 13")
    case True
    with 3(2) show ?thesis by auto
  next
    case False
    obtain r' rest' where g: "gets_loop n inp = (r', rest')" by (cases "gets_loop n inp")
    with False 3(2) have r: "r = c # r'" "rest' = rest" by auto
    have "gets_loop n inp = (r', rest)" using g r(2) by simp
    then have ih: "inp = r' @ rest" "length r' \<le> n" "\<forall>c \<in> set (butlast r'). c \<noteq> 10 \<and> c \<noteq> 13"
      using 3(1) [OF False] by blast+
    have "set (butlast (c # r')) \<subseteq> insert c (set (butlast r'))" by (cases r') auto
    then have "\<forall>c \<in> set (butlast (c # r')). c \<noteq> 10 \<and> c \<noteq> 13" using ih(3) False by blast
    with ih(1,2) show ?thesis unfolding r(1) by simp
  qed
qed simp_all

lemma decimal_digit:
  assumes "d < 10"
  shows "udigit d = digit_char d" and "48 \<le> digit_char d \<and> digit_char d \<le> 57"
proof -
  have "d \<in> {0, 1, 2, 3, 4, 5, 6, 7, 8, 9}" using assms by (simp add: eval_nat_numeral less_Suc_eq)
  then show "udigit d = digit_char d" "48 \<le> digit_char d \<and> digit_char d \<le> 57"
    by (auto simp: udigit_def digit_char_def chars_def of_char_def)
qed

lemma udigits_10: "udigits 10 x = digits_rev 10 x"
proof (induction x rule: less_induct)
  case (less x)
  have "udigit (x mod 10) = digit_char (x mod 10)" by (rule decimal_digit) simp
  moreover have "x div 10 \<noteq> 0 \<Longrightarrow> udigits 10 (x div 10) = digits_rev 10 (x div 10)" by (rule less) simp
  ultimately show ?case unfolding udigits.simps [of 10 x] digits_rev.simps [of 10 x] by simp
qed

lemma digits_10_range: "\<forall>c \<in> set (digits_rev 10 x). 48 \<le> c \<and> c \<le> 57"
proof (induction x rule: less_induct)
  case (less x)
  have "48 \<le> digit_char (x mod 10) \<and> digit_char (x mod 10) \<le> 57" by (rule decimal_digit) simp
  moreover have "x div 10 \<noteq> 0 \<Longrightarrow> \<forall>c \<in> set (digits_rev 10 (x div 10)). 48 \<le> c \<and> c \<le> 57" by (rule less) simp
  ultimately show ?case unfolding digits_rev.simps [of 10 x] by simp
qed

lemma atoi_from_digits:
  assumes "\<forall>c \<in> set ds. 48 \<le> c \<and> c \<le> 57" and "rest = [] \<or> \<not> (48 \<le> hd rest \<and> hd rest \<le> 57)"
  shows "atoi_from n (ds @ rest) = of_nat (foldl (\<lambda>n c. n * 10 + digit_val c) (unat n) ds)"
  using assms
proof (induction ds arbitrary: n)
  case Nil
  then show ?case by (cases rest) auto
next
  case (Cons c ds)
  have c: "48 \<le> c" "c \<le> 57" using Cons.prems(1) by simp_all
  then have d: "digit_val c = unat c - 48" "48 \<le> unat c" by (simp_all add: digit_val_def word_le_nat_alt)
  have fold: "of_nat (foldl (\<lambda>n c. n * 10 + digit_val c) a ds) = (of_nat (foldl (\<lambda>n c. n * 10 + digit_val c) b ds) :: u32)"
    if "of_nat a = (of_nat b :: u32)" for a b
    using that by (induction ds arbitrary: a b) (simp_all)
  have "of_nat (unat (n * 10 + ucast c - 48)) = (of_nat (unat n * 10 + digit_val c) :: u32)"
    using d by (simp add: of_nat_diff)
  from fold [OF this] show ?case using Cons c by simp
qed

text \<open>
  Numbers that are printed can be read. What \<open>printf\<close> writes for a number that is not negative
  is read by \<open>atoi\<close> as the same number, whatever follows that is not a digit.
\<close>

lemma atoi_printint:
  assumes "0 \<le> sint x" and "rest = [] \<or> \<not> (48 \<le> hd rest \<and> hd rest \<le> 57)"
  shows "atoi (uprintint x 10 True @ rest) = sint x"
proof -
  have "atoi_from 0 (rev (digits_rev 10 (unat x)) @ rest) = of_nat (num_val 10 (rev (digits_rev 10 (unat x))))"
    using atoi_from_digits [of "rev (digits_rev 10 (unat x))" rest 0] digits_10_range assms(2) by (simp add: num_val_def)
  also have "\<dots> = x" by (simp add: num_val_digits)
  finally show ?thesis using assms(1) by (simp add: atoi_def uprintint_def udigits_10)
qed

end
