(* ===== verification/Grep.thy ===== *)
theory Grep
  imports Kernel_Prelude
begin

text \<open>
  The user program \<^verbatim>\<open>grep.c\<close>: its matcher for regular expressions, and the loop that reads a file
  through a buffer of 1024 bytes. Strings are lists without the NUL.
\<close>

section \<open>The matcher\<close>

abbreviation (input) "CH_caret \<equiv> (94::byte)"
abbreviation (input) "CH_dollar \<equiv> (36::byte)"
abbreviation (input) "CH_dot \<equiv> (46::byte)"
abbreviation (input) "CH_star \<equiv> (42::byte)"

function matchhere :: "byte list \<Rightarrow> byte list \<Rightarrow> bool" and matchstar :: "byte \<Rightarrow> byte list \<Rightarrow> byte list \<Rightarrow> bool" where
  "matchhere re tx =
     (case re of
        [] \<Rightarrow> True
      | c # re1 \<Rightarrow>
          if re1 \<noteq> [] \<and> hd re1 = CH_star then matchstar c (tl re1) tx
          else if c = CH_dollar \<and> re1 = [] then tx = []
          else if tx \<noteq> [] \<and> (c = CH_dot \<or> c = hd tx) then matchhere re1 (tl tx)
          else False)"
| "matchstar c re tx =
     (if matchhere re tx then True
      else if tx \<noteq> [] \<and> (hd tx = c \<or> c = CH_dot) then matchstar c re (tl tx)
      else False)"
  by pat_completeness auto
termination
  by (relation "measures [\<lambda>x. case x of Inl (re, t) \<Rightarrow> length re | Inr (c, re, t) \<Rightarrow> length re,
        \<lambda>x. case x of Inl (re, t) \<Rightarrow> 2 * length t | Inr (c, re, t) \<Rightarrow> 2 * length t + 1]")
     (auto simp: neq_Nil_conv)

declare matchhere.simps [simp del] matchstar.simps [simp del]

text \<open>The loop of \<open>match\<close>, which also looks at the empty rest of the text.\<close>

primrec match_from :: "byte list \<Rightarrow> byte list \<Rightarrow> bool" where
  "match_from re [] = matchhere re []"
| "match_from re (c # tx) = (matchhere re (c # tx) \<or> match_from re tx)"

definition match :: "byte list \<Rightarrow> byte list \<Rightarrow> bool" where
  "match re tx =
     (if re \<noteq> [] \<and> hd re = CH_caret then matchhere (tl re) tx else match_from re tx)"

section \<open>What an expression means\<close>

text \<open>
  An expression is a list of items: a character or any character, once or repeated, and the end
  of the text. \<open>fits rs u v\<close>: the items \<open>rs\<close> describe the characters \<open>u\<close> when \<open>v\<close> follows.
\<close>

datatype atom = Lit byte | Any

datatype item = One atom | Star atom | End

definition atom_of :: "byte \<Rightarrow> atom" where
  "atom_of c = (if c = CH_dot then Any else Lit c)"

definition atom_ok :: "atom \<Rightarrow> byte \<Rightarrow> bool" where
  "atom_ok a d = (case a of Lit c \<Rightarrow> d = c | Any \<Rightarrow> True)"

lemma atom_ok_of: "atom_ok (atom_of c) d \<longleftrightarrow> c = CH_dot \<or> c = d"
  by (auto simp: atom_ok_def atom_of_def)

fun items :: "byte list \<Rightarrow> item list" where
  "items [] = []"
| "items [c] = [if c = CH_dollar then End else One (atom_of c)]"
| "items (c # d # re) = (if d = CH_star then Star (atom_of c) # items re else One (atom_of c) # items (d # re))"

inductive fits :: "item list \<Rightarrow> byte list \<Rightarrow> byte list \<Rightarrow> bool" where
  fits_Nil: "fits [] [] v"
| fits_One: "atom_ok a c \<Longrightarrow> fits rs u v \<Longrightarrow> fits (One a # rs) (c # u) v"
| fits_Star: "list_all (atom_ok a) w \<Longrightarrow> fits rs u v \<Longrightarrow> fits (Star a # rs) (w @ u) v"
| fits_End: "fits [End] [] []"

inductive_cases fits_NilE: "fits [] u v"
inductive_cases fits_OneE: "fits (One a # rs) u v"
inductive_cases fits_StarE: "fits (Star a # rs) u v"
inductive_cases fits_EndE: "fits (End # rs) u v"

definition found_at :: "item list \<Rightarrow> byte list \<Rightarrow> bool" where
  "found_at rs tx \<longleftrightarrow> (\<exists>u v. tx = u @ v \<and> fits rs u v)"

lemma found_at_Nil [simp]: "found_at [] tx"
  unfolding found_at_def using fits_Nil by (metis append_Nil)

lemma found_at_End [simp]: "found_at [End] tx \<longleftrightarrow> tx = []"
  unfolding found_at_def using fits_End by (blast elim: fits_EndE)

lemma found_at_One: "found_at (One a # rs) tx \<longleftrightarrow> tx \<noteq> [] \<and> atom_ok a (hd tx) \<and> found_at rs (tl tx)"
proof
  assume "found_at (One a # rs) tx"
  then obtain u v where t: "tx = u @ v" and f: "fits (One a # rs) u v" by (auto simp: found_at_def)
  from f obtain c w where "u = c # w" "atom_ok a c" "fits rs w v" by (auto elim: fits_OneE)
  with t show "tx \<noteq> [] \<and> atom_ok a (hd tx) \<and> found_at rs (tl tx)" by (auto simp: found_at_def)
next
  assume "tx \<noteq> [] \<and> atom_ok a (hd tx) \<and> found_at rs (tl tx)"
  then obtain c ts u v where "tx = c # ts" "ts = u @ v" "fits rs u v" "atom_ok a c" by (cases tx) (auto simp: found_at_def)
  then have "tx = (c # u) @ v" "fits (One a # rs) (c # u) v" by (auto intro: fits_One)
  then show "found_at (One a # rs) tx" unfolding found_at_def by blast
qed

lemma found_at_Star: "found_at (Star a # rs) tx \<longleftrightarrow>
    found_at rs tx \<or> (tx \<noteq> [] \<and> atom_ok a (hd tx) \<and> found_at (Star a # rs) (tl tx))"
proof
  assume "found_at (Star a # rs) tx"
  then obtain u v where t: "tx = u @ v" and f: "fits (Star a # rs) u v" by (auto simp: found_at_def)
  from f obtain w x where w: "u = w @ x" "list_all (atom_ok a) w" "fits rs x v" by (auto elim: fits_StarE)
  show "found_at rs tx \<or> (tx \<noteq> [] \<and> atom_ok a (hd tx) \<and> found_at (Star a # rs) (tl tx))"
  proof (cases w)
    case Nil
    with t w show ?thesis by (auto simp: found_at_def)
  next
    case (Cons d ws)
    have "fits (Star a # rs) (ws @ x) v" using w Cons by (auto intro: fits_Star)
    with t w Cons show ?thesis by (auto simp: found_at_def)
  qed
next
  assume "found_at rs tx \<or> (tx \<noteq> [] \<and> atom_ok a (hd tx) \<and> found_at (Star a # rs) (tl tx))"
  then show "found_at (Star a # rs) tx"
  proof
    assume "found_at rs tx"
    then obtain u v where "tx = u @ v" "fits rs u v" by (auto simp: found_at_def)
    then show ?thesis unfolding found_at_def using fits_Star [of a "[]" rs u v] by auto
  next
    assume a: "tx \<noteq> [] \<and> atom_ok a (hd tx) \<and> found_at (Star a # rs) (tl tx)"
    then obtain u v where t: "tl tx = u @ v" and f: "fits (Star a # rs) u v" by (auto simp: found_at_def)
    from f obtain w x where w: "u = w @ x" "list_all (atom_ok a) w" "fits rs x v" by (auto elim: fits_StarE)
    have "fits (Star a # rs) ((hd tx # w) @ x) v" using a w by (intro fits_Star) auto
    moreover have "tx = ((hd tx # w) @ x) @ v" using a t w by (cases tx) auto
    ultimately show ?thesis unfolding found_at_def by blast
  qed
qed

lemma matcher_items:
  "matchhere re tx \<longleftrightarrow> found_at (items re) tx"
  "matchstar c re tx \<longleftrightarrow> found_at (Star (atom_of c) # items re) tx"
proof (induction re tx and c re tx rule: matchhere_matchstar.induct)
  case (1 re tx)
  show ?case
  proof (cases re)
    case Nil
    then show ?thesis by (simp add: matchhere.simps)
  next
    case (Cons c re1)
    show ?thesis
    proof (cases re1)
      case Nil
      with Cons show ?thesis by (auto simp: matchhere.simps [of "[c]"] matchhere.simps [of "[]"] found_at_One atom_ok_of)
    next
      case (Cons d re2)
      with \<open>re = c # re1\<close> have re: "re = c # d # re2" by simp
      then have "d = CH_star \<Longrightarrow> matchstar c re2 tx = found_at (Star (atom_of c) # items re2) tx"
        "d \<noteq> CH_star \<Longrightarrow> tx \<noteq> [] \<Longrightarrow> c = CH_dot \<or> c = hd tx \<Longrightarrow> matchhere (d # re2) (tl tx) = found_at (items (d # re2)) (tl tx)"
        using 1 by auto
      then show ?thesis unfolding re matchhere.simps [of "c # d # re2"] by (auto simp: found_at_One atom_ok_of)
    qed
  qed
next
  case (2 c re tx)
  then show ?case unfolding matchstar.simps [of c re tx] found_at_Star [of _ _ tx] by (auto simp: atom_ok_of)
qed

lemma match_from_iff: "match_from re tx \<longleftrightarrow> (\<exists>before rest. tx = before @ rest \<and> found_at (items re) rest)"
proof (induction tx)
  case Nil
  then show ?case by (simp add: matcher_items)
next
  case (Cons c tx)
  then show ?case by (auto simp: matcher_items Cons_eq_append_conv)
qed

text \<open>
  C31. The matcher of \<^verbatim>\<open>grep\<close> finds what the expression means: with a caret the expression must
  describe characters at the beginning of the text, otherwise at some place of it; a star stands
  for any number of repetitions, a dot for any character, and a dollar at the end of the
  expression for the end of the text.
\<close>

theorem match_meaning:
  "match re tx \<longleftrightarrow>
    (if re \<noteq> [] \<and> hd re = CH_caret then found_at (items (tl re)) tx
     else \<exists>before rest. tx = before @ rest \<and> found_at (items re) rest)"
  by (simp add: match_def matcher_items match_from_iff)

section \<open>Reading a file\<close>

text \<open>
  \<open>strchr (buf + p, '\n')\<close>: the first newline from \<open>p\<close> on, or nothing when a NUL comes before it.
  The scan leaves the buffer, which is the outcome \<open>None\<close>, when it holds neither.
\<close>

primrec scan_line :: "nat \<Rightarrow> byte list \<Rightarrow> nat option option" where
  "scan_line p [] = None"
| "scan_line p (c # cs) = (if c = 0 then Some None else if c = 10 then Some (Some p) else scan_line (Suc p) cs)"

lemma scan_line_less: "scan_line p cs = Some (Some q) \<Longrightarrow> p \<le> q \<and> q < p + length cs"
  by (induction cs arbitrary: p) (fastforce split: if_splits)+

text \<open>
  The inner loop: what is written, where it stops, and the buffer, in which the newline of a line
  that does not match has become a NUL.
\<close>

function grep_lines :: "byte list \<Rightarrow> byte list \<Rightarrow> nat \<Rightarrow> (byte list \<times> nat \<times> byte list) option" where
  "grep_lines pattern buf p =
     (case scan_line p (drop p buf) of
        None \<Rightarrow> None
      | Some None \<Rightarrow> Some ([], p, buf)
      | Some (Some q) \<Rightarrow>
          (let line = slice p (q - p) buf in
           if match pattern line then
             map_option (\<lambda>(out, e). (line @ [10] @ out, e)) (grep_lines pattern buf (Suc q))
           else grep_lines pattern (buf[q := 0]) (Suc q)))"
  by auto
termination
  by (relation "measure (\<lambda>(pattern, buf, p). length buf - p)") (auto dest: scan_line_less)

declare grep_lines.simps [simp del]

text \<open>
  The outer loop, over what the successive calls of \<open>read\<close> deliver; each puts its bytes into the
  buffer behind the \<open>m\<close> bytes kept from before. It ends when there are no more bytes or no room.
  When \<open>m\<close> is negative the bytes go in front of the buffer, which is the outcome \<open>None\<close>.
\<close>

primrec grep_loop :: "byte list \<Rightarrow> byte list \<Rightarrow> int \<Rightarrow> byte list list \<Rightarrow> byte list option" where
  "grep_loop pattern buf m [] = Some []"
| "grep_loop pattern buf m (d # reads) =
     (let d = take (nat (1024 - m)) d in
      if d = [] then Some []
      else if m < 0 then None
      else
        (case grep_lines pattern (patch (nat m) d buf) 0 of
           None \<Rightarrow> None
         | Some (out, p, buf) \<Rightarrow>
             (let m = (if p = 0 then 0 else m + int (length d));
                  m' = (if m > 0 then m - int p else m);
                  buf' = (if m > 0 then patch 0 (slice p (nat m') buf) buf else buf)
              in map_option (\<lambda>r. out @ r) (grep_loop pattern buf' m' reads))))"

definition grep :: "byte list \<Rightarrow> byte list list \<Rightarrow> byte list option" where
  "grep pattern reads = grep_loop pattern (replicate 1024 0) 0 reads"

text \<open>
  The loop does not end the text it has read with a NUL, so that it looks again at what earlier
  calls of \<open>read\<close> left in the buffer: of the lines \<open>y\<close>, \<open>yy\<close> and \<open>z\<close>, the last without a newline
  and in a second read, it writes the line \<open>yy\<close> twice.
\<close>

lemma grep_repeats_lines:
  "grep [121] [[121, 10, 121, 121, 10], [122]] = Some [121, 10, 121, 121, 10, 121, 121, 10]"
  by code_simp

text \<open>Another read then goes in front of the buffer.\<close>

lemma grep_leaves_buffer: "grep [121] [[121, 10, 121, 121, 10], [122], [122]] = None"
  by code_simp

end
