(* ===== verification/Spec2Isabelle.thy ===== *)
theory Spec2Isabelle
  imports Boot User_Lib Grep
begin

text \<open>
  \<^bold>\<open>RainOS\<close> is a teaching kernel for the x86 (xv6) with an exokernel interface. This development
  translates the kernel into functions on explicit states and proves what makes its parts correct.

  \<^bold>\<open>Operations.\<close> A kernel routine is a function from a state to an outcome (type \<open>kfun\<close> of
  \<^verbatim>\<open>Kernel_Prelude\<close>): \<open>Ok r t\<close> it returns \<open>r\<close> in state \<open>t\<close>; \<open>Panic m\<close> the call of \<^verbatim>\<open>panic\<close> with its
  message; \<open>Sleep ch t\<close> the process has gone to sleep on the channel and another one may run from
  \<open>t\<close>; \<open>Fault\<close> a dereference of a null or unmapped pointer or an index outside a table; \<open>Diverge\<close> a
  loop that has not ended. Routines are composed with \<open>bnd\<close> and \<open>thn\<close> in the order of the code.
  Integers have their width (\<open>u32\<close>, \<open>u16\<close>, \<open>byte\<close>) wherever they can wrap around. A C \<^verbatim>\<open>int\<close> that only
  carries a result code or a count is an \<open>int\<close>.

  \<^bold>\<open>State.\<close> The state is one record that each component extends by its own fields: \<open>kcore\<close> (process
  table, locks held, current process, ticks), \<open>kmems\<close> (memory and free list), \<open>vms\<close>, \<open>disks\<close> (buffers,
  disk, ports), \<open>logs\<close>, \<open>inodes\<close>, \<open>machs\<close> (interrupt controllers), \<open>conss\<close> (screen, serial line, input),
  \<open>files\<close> (open files, pipes), \<open>procs_state\<close>, \<open>exos\<close>, \<open>traps\<close> and \<open>boots\<close>. Pointers into tables are indices;
  pages, page tables and the free list live in a byte-addressed memory of \<open>2 ^ 32\<close> bytes.

  \<^bold>\<open>Concurrency.\<close> \<^verbatim>\<open>Spinlock\<close> interleaves the steps of \<open>acquire\<close> and \<open>release\<close> of any number of
  processors, one access to the lock word at a time. \<^verbatim>\<open>Proc_Sched\<close> interleaves the operations on the
  process table, each under its lock, and shows that its \<open>acquire\<close> and \<open>release\<close> simulate those of
  \<^verbatim>\<open>Spinlock\<close>. The other components run one operation at a time; an operation that would wait ends
  in \<open>Sleep\<close>, and the definition with the suffix \<open>_loop\<close> or \<open>_resume\<close> is where it goes on.

  \<^bold>\<open>Theories.\<close>
  \<^item> \<^verbatim>\<open>Kernel_Prelude\<close>: outcomes and their laws, \<open>keeps\<close> (an operation preserves an invariant, also
    when it sleeps), bytes and words, tables with free slots (locale \<open>slot_table\<close>).
  \<^item> \<^verbatim>\<open>C_String\<close>: \<^verbatim>\<open>string.c\<close>.
  \<^item> \<^verbatim>\<open>Spinlock\<close>: \<^verbatim>\<open>spinlock.c\<close>. Mutual exclusion, and interrupts are off and counted while
    a lock is owned.
  \<^item> \<^verbatim>\<open>Proc_Sched\<close>: the process table of \<^verbatim>\<open>proc.c\<close>: \<open>scheduler\<close>, \<open>sched\<close>, \<open>yield\<close>, \<open>sleep\<close>, \<open>wakeup\<close>,
    \<open>kill\<close> and the slots of \<open>allocproc\<close>, \<open>fork\<close>, \<open>exit\<close>, \<open>wait\<close>. No process runs on two processors,
    where each processor goes on in the table behind the process it ran last; a sleeper is woken
    and continues with its lock; a free slot is found.
  \<^item> \<^verbatim>\<open>Kalloc\<close>: \<^verbatim>\<open>kalloc.c\<close>. The free list as an abstract list of pages (locale \<open>page_allocator\<close>):
    no page is handed out twice; \<open>kinit2\<close> puts every page of its range before those that are free.
  \<^item> \<^verbatim>\<open>Vm\<close>: \<^verbatim>\<open>vm.c\<close>. \<open>mappages\<close> and \<open>copyout\<close> against the translation the processor performs.
  \<^item> \<^verbatim>\<open>Ide\<close>: \<^verbatim>\<open>ide.c\<close> and \<^verbatim>\<open>memide.c\<close>. The queue and the interrupts of the one carry out
    the requests as the other does at once, in their order; an error of the drive is lost.
  \<^item> \<^verbatim>\<open>Bio\<close>: \<^verbatim>\<open>bio.c\<close>. The cache is coherent with the disk (locale \<open>block_cache\<close>) and recycles in
    the order of use.
  \<^item> \<^verbatim>\<open>Log\<close>: \<^verbatim>\<open>log.c\<close>. \<open>commit\<close> is atomic under a crash at any disk write; the
    reservation of \<open>begin_op\<close> exceeds what the log takes.
  \<^item> \<^verbatim>\<open>Inode\<close> and \<^verbatim>\<open>Fs_Dir\<close>: \<^verbatim>\<open>fs.c\<close>. Allocation of blocks and inodes, inode contents, directories
    and paths. The client view of a transaction is the locale \<open>tx_blocks\<close>; what \<open>writei\<close> writes
    \<open>readi\<close> reads, in direct and indirect blocks.
  \<^item> \<^verbatim>\<open>Ring\<close>: the ring buffer that pipes and the console share (locale \<open>ring_buffer\<close>, with 512 and
    128 bytes).
  \<^item> \<^verbatim>\<open>Machine\<close>: \<^verbatim>\<open>mp.c\<close>, \<^verbatim>\<open>picirq.c\<close>, \<^verbatim>\<open>ioapic.c\<close>, \<^verbatim>\<open>lapic.c\<close>, \<^verbatim>\<open>timer.c\<close>. Termination of the parser of
    the MP table and its exception; the date from the real time clock.
  \<^item> \<^verbatim>\<open>Console\<close>: \<^verbatim>\<open>console.c\<close>, \<^verbatim>\<open>kbd.c\<close>, \<^verbatim>\<open>uart.c\<close>. Output stays on the screen, numbers are printed
    correctly, a typed line is read.
  \<^item> \<^verbatim>\<open>File_Pipe\<close>: \<^verbatim>\<open>file.c\<close>, \<^verbatim>\<open>pipe.c\<close>. Pipes are well-formed queues, blocked readers are woken, files
    are counted.
  \<^item> \<^verbatim>\<open>Process\<close>: the rest of \<^verbatim>\<open>proc.c\<close>. A parent that waits is woken by the exit of its child.
  \<^item> \<^verbatim>\<open>Syscall\<close>, \<^verbatim>\<open>Sysfile\<close>, \<^verbatim>\<open>Exec\<close>: \<^verbatim>\<open>syscall.c\<close>, \<^verbatim>\<open>sysproc.c\<close>, \<^verbatim>\<open>sysfile.c\<close>, \<^verbatim>\<open>exec.c\<close>. Arguments stay
    inside the process; a new program finds its arguments.
  \<^item> \<^verbatim>\<open>Exokernel\<close>: \<^verbatim>\<open>sysmem.c\<close>, \<^verbatim>\<open>sysfs.c\<close>, \<^verbatim>\<open>ex_ide.c\<close>. The frame that is offered is not reserved.
  \<^item> \<^verbatim>\<open>Trap\<close>: \<^verbatim>\<open>trap.c\<close>, the table of \<^verbatim>\<open>syscall.c\<close>, descriptors of \<^verbatim>\<open>mmu.h\<close> and \<open>seginit\<close>. Ticks wake
    sleepers; unknown system calls are refused.
  \<^item> \<^verbatim>\<open>Boot\<close>: \<^verbatim>\<open>main.c\<close>. The order of the initialisers and the start of the other processors.
  \<^item> \<^verbatim>\<open>User_Lib\<close> and \<^verbatim>\<open>Grep\<close>: the library of user programs (\<^verbatim>\<open>ulib.c\<close>, \<^verbatim>\<open>printf.c\<close>) and \<^verbatim>\<open>grep.c\<close>. The
    matcher finds what an expression means; the loop that reads the file repeats lines.

  \<^bold>\<open>Bounds of loops.\<close> A loop that is not structural counts down from a number of turns it cannot
  exceed, and \<open>Diverge\<close> is the end of the count. Loops over pages (\<open>freerange\<close>, \<open>mappages\<close>,
  \<open>allocuvm\<close>, \<open>deallocuvm\<close>, \<open>copyuvm\<close>, \<open>loaduvm\<close>) have \<open>2 ^ 20\<close> pages of address space, one turn more
  where the test comes first; \<open>copyout\<close> copies at least a byte in a turn; scans of the buffer ring
  and the disk queue have one turn for each buffer and one for the end; erasing an input line has
  one for each of the 128 characters and one more; the table of \<open>mpinit\<close> has less than \<open>2 ^ 16\<close>
  bytes and a turn takes at least 8, so that 8193 turns suffice; the clock is polled at most
  once for each reading of a register that it delivers. The theorems about routines with such loops state that they return. Polling of a device
  consumes a list of the values the device delivers and diverges when they never show it ready.

  \<^bold>\<open>Not modelled.\<close> Assembly (boot, \<open>swtch\<close>, trap entry, \<^verbatim>\<open>usys.S\<close>) and the boot loader; \<^verbatim>\<open>mkfs.c\<close>, the user allocator and the other user programs, which run
  outside the kernel; the saved contexts and kernel stacks, as a context switch is the end of an operation.
  A write to user memory by \<open>read\<close> takes place after the operation on the file and not byte by
  byte. The hardware is what the code sees of it: a log of the ports written and lists of what the
  successive reads find.
\<close>

end
